(* ===== verification/Errors.thy ===== *)
theory Errors
  imports Main
begin

text \<open>
  Errors of the program: the values that flow through Go's \<open>error\<close> interface, as far as the code
  distinguishes them, and the package \<open>internal/errors\<close> (\<open>errors.go\<close>, \<open>fatal.go\<close>).

  An error made by \<open>errors.New\<close> or \<open>errors.Errorf\<close> is \<open>Errorf msg\<close>, with the format string of the
  source as its message (the formatted arguments are left out: no code inspects them).
  \<open>Wrap e msg\<close> is \<open>errors.Wrap(e, msg)\<close> of \<open>github.com/pkg/errors\<close>, \<open>PermanentError e\<close> the error of
  \<open>github.com/cenkalti/backoff\<close> that stops a retry, and \<open>fatalError msg\<close> the type of that name in
  \<open>fatal.go\<close>. The other constructors are the error values and types that the code compares against;
  \<open>ErrAlreadyLocked\<close> of \<open>restic/lock.go\<close> keeps of the other lock whether it is exclusive.
\<close>

datatype error =
    Errorf string
  | Wrap error string
  | PermanentError error
  | URLError error
  | fatalError string
  | ErrUnauthenticated
  | InvalidFileError string
  | ErrEOF
  | ErrNotExist
  | ErrCanceled
  | ErrNoKeyFound
  | MultipleIDMatchesError string
  | NoIDByPrefixError string
  | ErrBadString
  | ErrBadPattern
  | ErrSkipNode
  | ErrNoSnapshotFound
  | ErrInvalidSourceData
  | ErrInvalidData string
  | ErrAlreadyLocked bool
  | ErrOther string

text \<open>\<open>errors.Wrap\<close> of \<open>pkg/errors\<close> returns nil for a nil error; a nil error is \<^term>\<open>None\<close>.\<close>

definition wrap_err :: "error option \<Rightarrow> string \<Rightarrow> error option" where
  "wrap_err eo msg = map_option (\<lambda>e. Wrap e msg) eo"

text \<open>\<open>Cause\<close> (\<open>errors.go\<close>): the loop that unwraps until the error is none of the three wrappers.\<close>

primrec Cause :: "error \<Rightarrow> error" where
  "Cause (Errorf s) = Errorf s"
| "Cause (Wrap e s) = Cause e"
| "Cause (PermanentError e) = Cause e"
| "Cause (URLError e) = Cause e"
| "Cause (fatalError s) = fatalError s"
| "Cause ErrUnauthenticated = ErrUnauthenticated"
| "Cause (InvalidFileError s) = InvalidFileError s"
| "Cause ErrEOF = ErrEOF"
| "Cause ErrNotExist = ErrNotExist"
| "Cause ErrCanceled = ErrCanceled"
| "Cause ErrNoKeyFound = ErrNoKeyFound"
| "Cause (MultipleIDMatchesError s) = MultipleIDMatchesError s"
| "Cause (NoIDByPrefixError s) = NoIDByPrefixError s"
| "Cause ErrBadString = ErrBadString"
| "Cause ErrBadPattern = ErrBadPattern"
| "Cause ErrSkipNode = ErrSkipNode"
| "Cause ErrNoSnapshotFound = ErrNoSnapshotFound"
| "Cause ErrInvalidSourceData = ErrInvalidSourceData"
| "Cause (ErrInvalidData s) = ErrInvalidData s"
| "Cause (ErrAlreadyLocked x) = ErrAlreadyLocked x"
| "Cause (ErrOther s) = ErrOther s"

text \<open>
  \<open>IsFatal\<close> is a type assertion on the error itself: of the errors above only \<open>fatalError\<close> has a
  method \<open>Fatal\<close>; the wrapper of \<open>pkg/errors\<close> has none.
\<close>

fun IsFatal :: "error \<Rightarrow> bool" where
  "IsFatal (fatalError s) = True"
| "IsFatal _ = False"

definition Fatal :: "string \<Rightarrow> error" where
  "Fatal s = Wrap (fatalError s) ''Fatal''"

definition Fatalf :: "string \<Rightarrow> error" where
  "Fatalf s = Wrap (fatalError s) ''Fatal''"

text \<open>An error that \<open>Cause\<close> cannot unwrap further.\<close>

fun is_wrapper :: "error \<Rightarrow> bool" where
  "is_wrapper (Wrap _ _) = True"
| "is_wrapper (PermanentError _) = True"
| "is_wrapper (URLError _) = True"
| "is_wrapper _ = False"

lemma Cause_not_wrapper [simp]: "\<not> is_wrapper (Cause e)"
  by (induction e) auto

lemma Cause_fixpoint: "\<not> is_wrapper e \<Longrightarrow> Cause e = e"
  by (cases e) auto

lemma Cause_idem [simp]: "Cause (Cause e) = Cause e"
  by (rule Cause_fixpoint) simp

end
