(* ===== verification/Prelude.thy ===== *)
theory Prelude
  imports Errors "HOL-Library.Word" "HOL-Library.Multiset"
begin

text \<open>
  What the components share: machine types, the result type of Go functions (a value, an error or a
  panic), slice expressions with their bounds checks, the little-endian and hexadecimal encodings of
  the Go standard library, Go's built-in map used as a set, and generic lemmas on lists.
\<close>

unbundle bit_operations_syntax

section \<open>Machine types\<close>

type_synonym byte = "8 word"
type_synonym bytes = "8 word list"
type_synonym uint = "64 word"
type_synonym uint32 = "32 word"

section \<open>Results\<close>

text \<open>
  A Go function that returns \<open>(T, error)\<close> and may panic returns a \<open>T res\<close>: \<open>Ok\<close> for a nil error,
  \<open>Err\<close> for a non-nil one, \<open>Panic\<close> for a run-time panic (an explicit one or an index or slice
  expression out of range).
\<close>

datatype 'a res = Ok 'a | Err error | Panic string

named_theorems res_simps "results of the model's fallible operations"

primrec bind_r :: "'a res \<Rightarrow> ('a \<Rightarrow> 'b res) \<Rightarrow> 'b res" where
  "bind_r (Ok x) f = f x"
| "bind_r (Err e) f = Err e"
| "bind_r (Panic m) f = Panic m"

primrec map_r :: "('a \<Rightarrow> 'b) \<Rightarrow> 'a res \<Rightarrow> 'b res" where
  "map_r f (Ok x) = Ok (f x)"
| "map_r f (Err e) = Err e"
| "map_r f (Panic m) = Panic m"

primrec is_panic :: "'a res \<Rightarrow> bool" where
  "is_panic (Ok x) = False"
| "is_panic (Err e) = False"
| "is_panic (Panic m) = True"

primrec is_ok :: "'a res \<Rightarrow> bool" where
  "is_ok (Ok x) = True"
| "is_ok (Err e) = False"
| "is_ok (Panic m) = False"

lemma bind_r_cong [fundef_cong]:
  "m = m' \<Longrightarrow> (\<And>x. m' = Ok x \<Longrightarrow> f x = f' x) \<Longrightarrow> bind_r m f = bind_r m' f'"
  by (cases m') auto

lemma bind_r_Ok_iff [res_simps]: "bind_r m f = Ok y \<longleftrightarrow> (\<exists>x. m = Ok x \<and> f x = Ok y)"
  by (cases m) auto

lemma bind_r_Err_iff [res_simps]:
  "bind_r m f = Err e \<longleftrightarrow> m = Err e \<or> (\<exists>x. m = Ok x \<and> f x = Err e)"
  by (cases m) auto

lemma is_panic_bind_r [res_simps]:
  "is_panic (bind_r m f) \<longleftrightarrow> is_panic m \<or> (\<exists>x. m = Ok x \<and> is_panic (f x))"
  by (cases m) auto

lemma map_r_Ok_iff [res_simps]: "map_r f m = Ok y \<longleftrightarrow> (\<exists>x. m = Ok x \<and> y = f x)"
  by (cases m) auto

lemma is_panic_map_r [simp]: "is_panic (map_r f m) = is_panic m"
  by (cases m) auto

lemma is_ok_iff: "is_ok m \<longleftrightarrow> (\<exists>x. m = Ok x)"
  by (cases m) auto

lemma not_is_panicI: "(\<And>m. r \<noteq> Panic m) \<Longrightarrow> \<not> is_panic r"
  by (cases r) auto

text \<open>Loops over a slice whose body may return early with an error or panic.\<close>

primrec fold_r :: "('a \<Rightarrow> 's \<Rightarrow> 's res) \<Rightarrow> 'a list \<Rightarrow> 's \<Rightarrow> 's res" where
  "fold_r f [] s = Ok s"
| "fold_r f (x # xs) s = bind_r (f x s) (fold_r f xs)"

primrec mapM_r :: "('a \<Rightarrow> 'b res) \<Rightarrow> 'a list \<Rightarrow> 'b list res" where
  "mapM_r f [] = Ok []"
| "mapM_r f (x # xs) = bind_r (f x) (\<lambda>y. map_r (\<lambda>ys. y # ys) (mapM_r f xs))"

lemma fold_r_append: "fold_r f (xs @ ys) s = bind_r (fold_r f xs s) (fold_r f ys)"
proof (induction xs arbitrary: s)
  case (Cons x xs)
  then show ?case by (cases "f x s") auto
qed simp

lemma mapM_r_Ok: "\<forall>x \<in> set xs. f x = Ok (g x) \<Longrightarrow> mapM_r f xs = Ok (map g xs)"
  by (induction xs) auto

lemma mapM_r_append: "mapM_r f (xs @ ys) = bind_r (mapM_r f xs) (\<lambda>a. map_r (\<lambda>b. a @ b) (mapM_r f ys))"
proof (induction xs)
  case Nil
  show ?case by (cases "mapM_r f ys") auto
next
  case (Cons x xs)
  then show ?case by (cases "f x"; cases "mapM_r f xs"; cases "mapM_r f ys") auto
qed

text \<open>A loop keeps an invariant that its body keeps; it fails only where the body does.\<close>

lemma fold_r_invariant:
  assumes "fold_r f xs s = Ok s'" "I s"
    and "\<And>x s t. x \<in> set xs \<Longrightarrow> I s \<Longrightarrow> f x s = Ok t \<Longrightarrow> I t"
  shows "I s'"
  using assms
proof (induction xs arbitrary: s)
  case (Cons x xs)
  then show ?case by (auto simp: res_simps)
qed simp

lemma fold_r_total:
  assumes "I s" "\<And>x s. x \<in> set xs \<Longrightarrow> I s \<Longrightarrow> \<exists>t. f x s = Ok t \<and> I t"
  shows "\<exists>t. fold_r f xs s = Ok t \<and> I t"
  using assms
proof (induction xs arbitrary: s)
  case (Cons x xs)
  then obtain t where "f x s = Ok t" "I t" by (meson list.set_intros(1))
  with Cons show ?case by auto
qed simp

section \<open>Slices\<close>

text \<open>
  \<open>b[i:j]\<close>: a panic unless \<open>0 \<le> i \<le> j \<le> len(b)\<close>. (Go bounds \<open>j\<close> by the capacity; every use modelled
  with this function stays within the length, which is what the absence of panics shows.)
\<close>

definition slice :: "'a list \<Rightarrow> int \<Rightarrow> int \<Rightarrow> 'a list res" where
  "slice b i j =
     (if 0 \<le> i \<and> i \<le> j \<and> j \<le> int (length b)
      then Ok (take (nat (j - i)) (drop (nat i) b))
      else Panic ''slice bounds out of range'')"

definition slice_from :: "'a list \<Rightarrow> int \<Rightarrow> 'a list res" where
  "slice_from b i = slice b i (int (length b))"

definition slice_to :: "'a list \<Rightarrow> int \<Rightarrow> 'a list res" where
  "slice_to b j = slice b 0 j"

definition index_r :: "'a list \<Rightarrow> int \<Rightarrow> 'a res" where
  "index_r b i =
     (if 0 \<le> i \<and> i < int (length b) then Ok (b ! nat i) else Panic ''index out of range'')"

lemma slice_from_eq [res_simps]:
  "0 \<le> i \<Longrightarrow> i \<le> int (length b) \<Longrightarrow> slice_from b i = Ok (drop (nat i) b)"
  by (auto simp: slice_from_def slice_def)

lemma slice_to_eq [res_simps]:
  "0 \<le> j \<Longrightarrow> j \<le> int (length b) \<Longrightarrow> slice_to b j = Ok (take (nat j) b)"
  by (auto simp: slice_to_def slice_def)

text \<open>\<open>copy(dst, src)\<close>: the first \<open>min(len dst, len src)\<close> elements are overwritten.\<close>

definition copy_to :: "'a list \<Rightarrow> 'a list \<Rightarrow> 'a list" where
  "copy_to dst src = take (length dst) src @ drop (length src) dst"

lemma length_copy_to [simp]: "length (copy_to dst src) = length dst"
  by (simp add: copy_to_def min_def)

lemma copy_to_full: "length src = length dst \<Longrightarrow> copy_to dst src = src"
  by (simp add: copy_to_def)

lemma of_nat_length_concat:
  "of_nat (length (concat ds)) = sum_list (map (\<lambda>d. of_nat (length d) :: 'a :: semiring_1) ds)"
  by (induction ds) auto

lemma slice_concat:
  assumes "i < length ds"
  shows "take (length (ds ! i)) (drop (length (concat (take i ds))) (concat ds @ ys)) = ds ! i"
proof -
  have "concat ds = concat (take i ds) @ ds ! i @ concat (drop (Suc i) ds)"
    by (metis assms concat.simps(2) concat_append id_take_nth_drop)
  then show ?thesis by simp
qed

section \<open>Words\<close>

lemma ucast_ucast_small:
  assumes "unat (w :: uint) < 2 ^ 32"
  shows "ucast (ucast w :: uint32) = w"
proof -
  have "unat (ucast (ucast w :: uint32) :: uint) = unat w"
    using assms by (simp add: unsigned_ucast_eq take_bit_eq_mod unat_mod_distrib)
  then show ?thesis by (simp add: word_unat_eq_iff)
qed

lemma unat_ucast_32_64: "unat (ucast (w :: uint32) :: uint) < 2 ^ 32"
  using unsigned_less [of w, where 'a = nat] by (simp add: unsigned_ucast_eq take_bit_eq_mod)

section \<open>Little-endian integers (\<open>encoding/binary\<close>)\<close>

definition put_le32 :: "uint32 \<Rightarrow> bytes" where
  "put_le32 w = [ucast w, ucast (drop_bit 8 w), ucast (drop_bit 16 w), ucast (drop_bit 24 w)]"

fun get_le32 :: "bytes \<Rightarrow> uint32" where
  "get_le32 (b0 # b1 # b2 # b3 # _) =
     ucast b0 OR push_bit 8 (ucast b1) OR push_bit 16 (ucast b2) OR push_bit 24 (ucast b3)"
| "get_le32 _ = 0"

lemma length_put_le32 [simp]: "length (put_le32 w) = 4"
  by (simp add: put_le32_def)

lemma get_put_le32 [simp]: "get_le32 (put_le32 w @ xs) = w"
proof (rule bit_word_eqI)
  fix n
  assume "n < LENGTH(32)"
  then show "bit (get_le32 (put_le32 w @ xs)) n = bit w n"
    by (cases "n < 8"; cases "n < 16"; cases "n < 24") (auto simp: put_le32_def bit_simps)
qed

lemma get_put_le32_Nil [simp]: "get_le32 (put_le32 w) = w"
  using get_put_le32 [of w "[]"] by simp

lemma put_get_le32:
  assumes "length b = 4"
  shows "put_le32 (get_le32 b) = b"
proof -
  obtain b0 b1 b2 b3 where b: "b = [b0, b1, b2, b3]"
    using assms by (auto simp: length_Suc_conv numeral_eq_Suc)
  have "ucast (get_le32 b) = b0" "ucast (drop_bit 8 (get_le32 b)) = b1"
    "ucast (drop_bit 16 (get_le32 b)) = b2" "ucast (drop_bit 24 (get_le32 b)) = b3"
    by (rule bit_word_eqI; auto simp: b bit_simps dest: bit_imp_le_length)+
  then show ?thesis by (simp add: put_le32_def b)
qed

section \<open>Hexadecimal (\<open>encoding/hex\<close>)\<close>

definition hextable :: string where
  "hextable = ''0123456789abcdef''"

definition reverseHexTable :: "char \<rightharpoonup> byte" where
  "reverseHexTable =
     map_of (zip ''0123456789abcdefABCDEF''
       [0, 1, 2, 3, 4, 5, 6, 7, 8, 9, 10, 11, 12, 13, 14, 15, 10, 11, 12, 13, 14, 15])"

primrec hex_EncodeToString :: "bytes \<Rightarrow> string" where
  "hex_EncodeToString [] = []"
| "hex_EncodeToString (b # bs) =
     hextable ! unat (drop_bit 4 b) # hextable ! unat (b AND 15) # hex_EncodeToString bs"

text \<open>Two digits at a time; a bad digit and an odd length are both errors (\<open>hex.Decode\<close>).\<close>

fun hex_DecodeString :: "string \<Rightarrow> bytes res" where
  "hex_DecodeString [] = Ok []"
| "hex_DecodeString [c] =
     (case reverseHexTable c of None \<Rightarrow> Err (ErrOther ''hex.InvalidByteError'')
      | Some _ \<Rightarrow> Err (ErrOther ''hex.ErrLength''))"
| "hex_DecodeString (c1 # c2 # cs) =
     (case reverseHexTable c1 of None \<Rightarrow> Err (ErrOther ''hex.InvalidByteError'')
      | Some a \<Rightarrow>
        (case reverseHexTable c2 of None \<Rightarrow> Err (ErrOther ''hex.InvalidByteError'')
         | Some b \<Rightarrow> map_r (\<lambda>bs. (push_bit 4 a OR b) # bs) (hex_DecodeString cs)))"

lemma less_16_cases:
  "(i::nat) < 16 \<Longrightarrow> i \<in> {0, 1, 2, 3, 4, 5, 6, 7, 8, 9, 10, 11, 12, 13, 14, 15}"
  by simp presburger

lemma reverseHexTable_hextable:
  assumes "unat d < 16"
  shows "reverseHexTable (hextable ! unat d) = Some d"
proof -
  have "\<forall>i \<in> {0, 1, 2, 3, 4, 5, 6, 7, 8, 9, 10, 11, 12, 13, 14, 15::nat}.
      reverseHexTable (hextable ! i) = Some (word_of_nat i)"
    by (simp add: reverseHexTable_def hextable_def)
  with less_16_cases [OF assms]
  have "reverseHexTable (hextable ! unat d) = Some (word_of_nat (unat d))" by blast
  then show ?thesis by simp
qed

lemma nibble_bounds: "unat (drop_bit 4 (b::byte)) < 16" "unat ((b::byte) AND 15) < 16"
proof -
  have "unat b < 256" using unsigned_less [of b] by simp
  then show "unat (drop_bit 4 b) < 16" by (simp add: drop_bit_eq_div unat_div)
  have "b AND 15 \<le> 15" by (rule word_and_le1)
  then show "unat (b AND 15) < 16" by (simp add: word_le_nat_alt)
qed

lemma nibbles_join: "push_bit 4 (drop_bit 4 b) OR (b AND 15) = (b::byte)"
proof (rule bit_word_eqI)
  fix n
  assume n: "n < LENGTH(8)"
  have m: "(15::byte) = mask 4" by (simp add: mask_eq_exp_minus_1)
  show "bit (push_bit 4 (drop_bit 4 b) OR (b AND 15)) n = bit b n"
    unfolding m using n by (cases "n < 4") (auto simp: bit_simps)
qed

lemma hex_decode_encode [simp]: "hex_DecodeString (hex_EncodeToString bs) = Ok bs"
  by (induction bs) (simp_all add: reverseHexTable_hextable nibble_bounds nibbles_join)

lemma length_hex_encode [simp]: "length (hex_EncodeToString bs) = 2 * length bs"
  by (induction bs) auto

lemma length_hex_decode: "hex_DecodeString s = Ok bs \<Longrightarrow> length s = 2 * length bs"
  by (induction s arbitrary: bs rule: hex_DecodeString.induct)
    (auto simp: res_simps split: option.splits)

lemma hex_decode_no_panic [simp]: "hex_DecodeString s \<noteq> Panic m"
proof (induction s rule: hex_DecodeString.induct)
  case (3 c1 c2 cs)
  then show ?case by (cases "hex_DecodeString cs") (auto split: option.splits)
qed (auto split: option.splits)

lemma hex_encode_inj: "hex_EncodeToString xs = hex_EncodeToString ys \<longleftrightarrow> xs = ys"
  by (metis hex_decode_encode res.inject(1))

lemma hextable_range: "i < 16 \<Longrightarrow> hextable ! i \<in> set hextable"
  by (rule nth_mem) (simp add: hextable_def)

lemma set_hex_encode: "set (hex_EncodeToString bs) \<subseteq> set hextable"
  by (induction bs) (auto intro: hextable_range nibble_bounds)

end
