(* ===== verification/GoSet.thy ===== *)
theory GoSet
  imports Prelude "HOL-Library.List_Lexorder" "HOL-Library.Char_ord"
begin

text \<open>
  Go's \<open>map[K]struct{}\<close> used as a set, and \<open>sort.Sort\<close>.

  A map is the list of its keys, without duplicates, in the order in which a \<open>range\<close> loop visits
  them. Go leaves that order open; a fact stated for every such list holds for every order.
  The locale \<open>go_set\<close> is the contract of the set types built on such maps (\<open>restic.IDSet\<close> and
  \<open>restic.BlobSet\<close>, which repeat the same code at two key types); its lemmas are about the loops
  that both types write over it.
\<close>

section \<open>The built-in map\<close>

definition gomap_has :: "'k list \<Rightarrow> 'k \<Rightarrow> bool" where
  "gomap_has m k = (k \<in> set m)"

definition gomap_insert :: "'k list \<Rightarrow> 'k \<Rightarrow> 'k list" where
  "gomap_insert m k = (if k \<in> set m then m else m @ [k])"

definition gomap_delete :: "'k list \<Rightarrow> 'k \<Rightarrow> 'k list" where
  "gomap_delete m k = filter (\<lambda>x. x \<noteq> k) m"

section \<open>Sorting with a comparison function\<close>

text \<open>
  \<open>sort.Sort\<close> and \<open>sort.Slice\<close> with the method or function \<open>lt\<close>. The library's algorithm is not
  stable; where two elements are equal under \<open>lt\<close> the order this model gives is one of the orders
  the library may give.
\<close>

primrec insort_by :: "('a \<Rightarrow> 'a \<Rightarrow> bool) \<Rightarrow> 'a \<Rightarrow> 'a list \<Rightarrow> 'a list" where
  "insort_by lt x [] = [x]"
| "insort_by lt x (y # ys) = (if lt y x then y # insort_by lt x ys else x # y # ys)"

definition go_sort :: "('a \<Rightarrow> 'a \<Rightarrow> bool) \<Rightarrow> 'a list \<Rightarrow> 'a list" where
  "go_sort lt xs = foldr (insort_by lt) xs []"

lemma go_sort_Nil [simp]: "go_sort lt [] = []"
  by (simp add: go_sort_def)

lemma go_sort_Cons [simp]: "go_sort lt (x # xs) = insort_by lt x (go_sort lt xs)"
  by (simp add: go_sort_def)

lemma mset_insort_by [simp]: "mset (insort_by lt x xs) = add_mset x (mset xs)"
  by (induction xs) auto

lemma mset_go_sort [simp]: "mset (go_sort lt xs) = mset xs"
  by (induction xs) auto

lemma set_go_sort [simp]: "set (go_sort lt xs) = set xs"
  by (metis mset_go_sort set_mset_mset)

lemma length_go_sort [simp]: "length (go_sort lt xs) = length xs"
  by (metis mset_go_sort size_mset)

lemma set_insort_by [simp]: "set (insort_by lt x xs) = insert x (set xs)"
  by (metis mset_insort_by set_mset_add_mset_insert set_mset_mset)

lemma distinct_go_sort [simp]: "distinct (go_sort lt xs) = distinct xs"
  by (metis mset_eq_imp_distinct_iff mset_go_sort)

text \<open>The order the result has: \<open>a\<close> before \<open>b\<close> only if not \<open>lt b a\<close>.\<close>

definition strict_weak :: "('a \<Rightarrow> 'a \<Rightarrow> bool) \<Rightarrow> bool" where
  "strict_weak lt \<longleftrightarrow>
     (\<forall>x y. lt x y \<longrightarrow> \<not> lt y x) \<and>
     (\<forall>x y z. lt x y \<longrightarrow> \<not> lt z y \<longrightarrow> lt x z)"

lemma strict_weak_negtrans:
  assumes "strict_weak lt" "\<not> lt y x" "\<not> lt z y"
  shows "\<not> lt z x"
proof
  assume "lt z x"
  with assms(1,2) have "lt z y" unfolding strict_weak_def by blast
  with assms(3) show False by blast
qed

lemma insort_by_sorted:
  assumes "strict_weak lt" "sorted_wrt (\<lambda>a b. \<not> lt b a) xs"
  shows "sorted_wrt (\<lambda>a b. \<not> lt b a) (insort_by lt x xs)"
  using assms(2)
proof (induction xs)
  case (Cons y ys)
  show ?case
  proof (cases "lt y x")
    case True
    then have "\<not> lt x y" using assms(1) unfolding strict_weak_def by blast
    with Cons True show ?thesis by auto
  next
    case False
    with Cons.prems have "\<forall>z \<in> set ys. \<not> lt z x"
      using strict_weak_negtrans [OF assms(1) False] by simp
    with Cons False show ?thesis by simp
  qed
qed simp

lemma go_sort_sorted: "strict_weak lt \<Longrightarrow> sorted_wrt (\<lambda>a b. \<not> lt b a) (go_sort lt xs)"
  by (induction xs) (simp_all add: insort_by_sorted)

lemma strict_weak_key: "strict_weak (\<lambda>a b. (f a :: 'b :: linorder) < f b)"
  unfolding strict_weak_def by auto

lemma go_sort_key:
  "sorted (map f (go_sort (\<lambda>a b. (f a :: 'b :: linorder) < f b) xs))"
  using go_sort_sorted [OF strict_weak_key, of f xs] by (simp add: sorted_wrt_map linorder_not_less)

lemma insort_by_less: "insort_by (<) x xs = insort x xs"
  by (induction xs) auto

lemma go_sort_less: "go_sort (<) xs = sort (xs :: 'a :: linorder list)"
  by (induction xs) (simp_all add: insort_by_less)

lemma insort_by_cong:
  "(\<And>y. y \<in> set xs \<Longrightarrow> lt y x = lt' y x) \<Longrightarrow> insort_by lt x xs = insort_by lt' x xs"
  by (induction xs) auto

lemma go_sort_cong:
  "(\<And>x y. x \<in> set xs \<Longrightarrow> y \<in> set xs \<Longrightarrow> lt x y = lt' x y) \<Longrightarrow>
    go_sort lt xs = go_sort lt' xs"
proof (induction xs)
  case (Cons x xs)
  then have "go_sort lt xs = go_sort lt' xs" by simp
  with Cons.prems show ?case by (auto intro!: insort_by_cong)
qed simp

section \<open>The contract of a set type\<close>

locale go_set =
  fixes new :: "'s"
    and has :: "'s \<Rightarrow> 'k \<Rightarrow> bool"
    and ins :: "'s \<Rightarrow> 'k \<Rightarrow> 's"
    and del :: "'s \<Rightarrow> 'k \<Rightarrow> 's"
    and keys :: "'s \<Rightarrow> 'k list"
    and inv :: "'s \<Rightarrow> bool"
  assumes inv_new: "inv new"
    and inv_ins: "inv s \<Longrightarrow> inv (ins s k)"
    and inv_del: "inv s \<Longrightarrow> inv (del s k)"
    and has_new: "\<not> has new k"
    and has_ins: "inv s \<Longrightarrow> has (ins s k) k' \<longleftrightarrow> k' = k \<or> has s k'"
    and has_del: "inv s \<Longrightarrow> has (del s k) k' \<longleftrightarrow> k' \<noteq> k \<and> has s k'"
    and keys_has: "inv s \<Longrightarrow> k \<in> set (keys s) \<longleftrightarrow> has s k"
    and keys_distinct: "inv s \<Longrightarrow> distinct (keys s)"
begin

lemma inv_fold_ins: "inv s \<Longrightarrow> inv (fold (\<lambda>k s. ins s k) ks s)"
  by (induction ks arbitrary: s) (auto simp: inv_ins)

lemma has_fold_ins: "inv s \<Longrightarrow> has (fold (\<lambda>k s. ins s k) ks s) k \<longleftrightarrow> k \<in> set ks \<or> has s k"
  by (induction ks arbitrary: s) (auto simp: inv_ins has_ins)

lemma inv_select:
  "inv s \<Longrightarrow> inv (fold (\<lambda>k r. if P k then ins r k else r) ks s)"
  by (induction ks arbitrary: s) (auto simp: inv_ins)

lemma has_select_from:
  "inv s \<Longrightarrow> has (fold (\<lambda>k r. if P k then ins r k else r) ks s) k \<longleftrightarrow>
     (k \<in> set ks \<and> P k) \<or> has s k"
  by (induction ks arbitrary: s) (auto simp: inv_ins has_ins)

lemma has_select:
  "has (fold (\<lambda>k r. if P k then ins r k else r) ks new) k \<longleftrightarrow> k \<in> set ks \<and> P k"
  by (simp add: has_select_from inv_new has_new)

text \<open>Equal length and one inclusion give equality.\<close>

lemma equals_correct:
  assumes "inv s" "inv t"
  shows "(length (keys s) = length (keys t) \<and> list_all (has t) (keys s)) \<longleftrightarrow>
    (\<forall>k. has s k = has t k)"
proof
  assume L: "length (keys s) = length (keys t) \<and> list_all (has t) (keys s)"
  have sub: "set (keys s) \<subseteq> set (keys t)"
    using L assms by (auto simp: keys_has list_all_iff)
  have "card (set (keys s)) = card (set (keys t))"
    using L assms by (simp add: keys_distinct distinct_card)
  with sub have "set (keys s) = set (keys t)"
    by (simp add: card_subset_eq)
  then show "\<forall>k. has s k = has t k" using assms keys_has by blast
next
  assume R: "\<forall>k. has s k = has t k"
  then have eq: "set (keys s) = set (keys t)" using assms by (auto simp: keys_has)
  then have "length (keys s) = length (keys t)"
    using assms by (metis distinct_card keys_distinct)
  with R eq assms show "length (keys s) = length (keys t) \<and> list_all (has t) (keys s)"
    by (auto simp: list_all_iff keys_has)
qed

end

lemma gomap_delete_distinct: "distinct m \<Longrightarrow> distinct (gomap_delete m k)"
  by (simp add: gomap_delete_def)

lemma go_set_gomap: "go_set [] gomap_has gomap_insert gomap_delete (\<lambda>m. m) distinct"
  by unfold_locales
    (auto simp: gomap_has_def gomap_insert_def gomap_delete_def)

end
