(* ===== verification/Ids.thy ===== *)
theory Ids
  imports GoSet
begin

text \<open>
  Storage IDs: \<open>restic/id.go\<close>, \<open>restic/ids.go\<close> and \<open>restic/idset.go\<close>.

  An \<open>ID\<close> is Go's array \<open>[32]byte\<close>, a list of 32 bytes (\<open>is_ID\<close>). SHA-256 comes from a third-party
  package, so the hash function is an argument of the definitions that use it. The lemmas show that
  the textual and JSON forms are inverse to parsing, that \<open>Less\<close> is the lexicographic order, that
  \<open>Uniq\<close> keeps first occurrences, and that \<open>IDSet\<close> implements a set (interpretation \<open>idset\<close>).
\<close>

section \<open>\<open>restic/id.go\<close>\<close>

definition idSize :: nat where
  "idSize = 32"

type_synonym ID = bytes

definition is_ID :: "ID \<Rightarrow> bool" where
  "is_ID i \<longleftrightarrow> length i = idSize"

definition nullID :: ID where
  "nullID = replicate idSize 0"

definition Hash :: "(bytes \<Rightarrow> bytes) \<Rightarrow> bytes \<Rightarrow> ID" where
  "Hash sha256 data = sha256 data"

definition ParseID :: "string \<Rightarrow> ID res" where
  "ParseID s =
     (case hex_DecodeString s of
        Ok b \<Rightarrow> if length b \<noteq> idSize then Err (Errorf ''invalid length for hash'')
                 else Ok (copy_to nullID b)
      | Err e \<Rightarrow> Err (Wrap e ''hex.DecodeString'')
      | Panic m \<Rightarrow> Panic m)"

definition ID_String :: "ID \<Rightarrow> string" where
  "ID_String i = hex_EncodeToString i"

definition shortStr :: nat where
  "shortStr = 4"

definition ID_IsNull :: "ID \<Rightarrow> bool" where
  "ID_IsNull i = (i = nullID)"

text \<open>\<open>Str\<close> has a pointer receiver: \<^term>\<open>None\<close> is the nil pointer.\<close>

definition ID_Str :: "ID option \<Rightarrow> string" where
  "ID_Str ido =
     (case ido of None \<Rightarrow> ''[nil]''
      | Some i \<Rightarrow> if ID_IsNull i then ''[null]'' else hex_EncodeToString (take shortStr i))"

definition ID_Equal :: "ID \<Rightarrow> ID \<Rightarrow> bool" where
  "ID_Equal i other = (i = other)"

definition ID_EqualString :: "ID \<Rightarrow> string \<Rightarrow> bool res" where
  "ID_EqualString i other =
     (case hex_DecodeString other of
        Ok s \<Rightarrow> Ok (i = copy_to nullID s)
      | Err e \<Rightarrow> Err (Wrap e ''hex.DecodeString'')
      | Panic m \<Rightarrow> Panic m)"

text \<open>
  \<open>json.Marshal\<close> of a string of hexadecimal digits is the string in double quotes: no character of
  it is escaped.
\<close>

definition ID_MarshalJSON :: "ID \<Rightarrow> string" where
  "ID_MarshalJSON i = CHR 0x22 # ID_String i @ [CHR 0x22]"

text \<open>
  \<open>UnmarshalJSON\<close>; the result is the new value of the receiver. \<open>hex.Decode\<close> writes into the
  receiver as it goes, which only matters after an error.
\<close>

definition ID_UnmarshalJSON :: "string \<Rightarrow> ID res" where
  "ID_UnmarshalJSON b =
     (if length b < 2 then Err (Errorf ''invalid ID: %q'')
      else if length b mod 2 \<noteq> 0 then Err (Errorf ''invalid ID length: %q'')
      else if b ! 0 \<noteq> CHR 0x22 \<and> b ! 0 \<noteq> CHR 0x27 then Err (Errorf ''invalid start of string: %q'')
      else if b ! 0 \<noteq> b ! (length b - 1)
        then Err (Errorf ''starting string delimiter (%q) does not match end (%q)'')
      else
        (let b' = take (length b - 2) (drop 1 b) in
         if length b' \<noteq> 2 * idSize then Err (Errorf ''invalid length for ID'')
         else (case hex_DecodeString b' of
                 Ok i \<Rightarrow> Ok i
               | Err e \<Rightarrow> Err (Wrap e ''hex.Decode'')
               | Panic m \<Rightarrow> Panic m)))"

definition IDFromHash :: "bytes \<Rightarrow> ID res" where
  "IDFromHash hash =
     (if length hash \<noteq> idSize then Panic ''invalid hash type, not enough/too many bytes''
      else Ok (copy_to nullID hash))"

section \<open>\<open>restic/ids.go\<close>\<close>

type_synonym IDs = "ID list"

text \<open>The loop of \<open>Less\<close> over the bytes of the first ID.\<close>

fun less_loop :: "bytes \<Rightarrow> bytes \<Rightarrow> bool" where
  "less_loop (b # bs) (c # cs) = (if b = c then less_loop bs cs else b < c)"
| "less_loop _ _ = False"

definition IDs_Less :: "ID \<Rightarrow> ID \<Rightarrow> bool" where
  "IDs_Less a b = (if length a < length b then True else less_loop a b)"

section \<open>\<open>restic/idset.go\<close>\<close>

type_synonym IDSet = "ID list"

definition NewIDSet :: "ID list \<Rightarrow> IDSet" where
  "NewIDSet ids = fold (\<lambda>i m. gomap_insert m i) ids []"

definition IDSet_Has :: "IDSet \<Rightarrow> ID \<Rightarrow> bool" where
  "IDSet_Has s i = gomap_has s i"

definition IDSet_Insert :: "IDSet \<Rightarrow> ID \<Rightarrow> IDSet" where
  "IDSet_Insert s i = gomap_insert s i"

definition IDSet_Delete :: "IDSet \<Rightarrow> ID \<Rightarrow> IDSet" where
  "IDSet_Delete s i = gomap_delete s i"

definition IDSet_List :: "IDSet \<Rightarrow> IDs" where
  "IDSet_List s = go_sort IDs_Less s"

definition IDSet_Equals :: "IDSet \<Rightarrow> IDSet \<Rightarrow> bool" where
  "IDSet_Equals s other =
     (if length s \<noteq> length other then False else list_all (gomap_has other) s)"

definition IDSet_Merge :: "IDSet \<Rightarrow> IDSet \<Rightarrow> IDSet" where
  "IDSet_Merge s other = fold (\<lambda>i s. IDSet_Insert s i) other s"

definition IDSet_Intersect :: "IDSet \<Rightarrow> IDSet \<Rightarrow> IDSet" where
  "IDSet_Intersect s other =
     (let (set1, set2) = (if length other < length s then (other, s) else (s, other))
      in fold (\<lambda>i r. if IDSet_Has set2 i then IDSet_Insert r i else r) set1 (NewIDSet []))"

definition IDSet_Sub :: "IDSet \<Rightarrow> IDSet \<Rightarrow> IDSet" where
  "IDSet_Sub s other =
     fold (\<lambda>i r. if \<not> IDSet_Has other i then IDSet_Insert r i else r) s (NewIDSet [])"

text \<open>\<open>IDs.Uniq\<close>: the loop carries the set of IDs seen and the list built so far.\<close>

fun uniq_loop :: "IDs \<Rightarrow> IDSet \<Rightarrow> IDs \<Rightarrow> IDs" where
  "uniq_loop [] seen lst = lst"
| "uniq_loop (i # ids) seen lst =
     (if IDSet_Has seen i then uniq_loop ids seen lst
      else uniq_loop ids (IDSet_Insert seen i) (lst @ [i]))"

definition IDs_Uniq :: "IDs \<Rightarrow> IDs" where
  "IDs_Uniq ids = uniq_loop ids (NewIDSet []) []"

section \<open>Lemmas\<close>

lemma length_nullID [simp]: "length nullID = idSize"
  by (simp add: nullID_def)

lemma ParseID_is_ID: "ParseID s = Ok i \<Longrightarrow> is_ID i"
  by (auto simp: ParseID_def is_ID_def split: res.splits if_splits)

lemma ParseID_String: "is_ID i \<Longrightarrow> ParseID (ID_String i) = Ok i"
  by (simp add: ParseID_def ID_String_def is_ID_def copy_to_full)

lemma ID_String_inj: "ID_String a = ID_String b \<longleftrightarrow> a = b"
  by (simp add: ID_String_def hex_encode_inj)

lemma length_ID_String [simp]: "length (ID_String i) = 2 * length i"
  by (simp add: ID_String_def)

lemma ID_Unmarshal_Marshal: "is_ID i \<Longrightarrow> ID_UnmarshalJSON (ID_MarshalJSON i) = Ok i"
  by (simp add: ID_UnmarshalJSON_def ID_MarshalJSON_def ID_String_def is_ID_def nth_append idSize_def)

lemma ID_Unmarshal_is_ID: "ID_UnmarshalJSON b = Ok i \<Longrightarrow> is_ID i"
  by (auto simp: ID_UnmarshalJSON_def is_ID_def Let_def dest: length_hex_decode
      split: if_splits res.splits)

lemma ID_Unmarshal_no_panic: "\<not> is_panic (ID_UnmarshalJSON b)"
  by (auto simp: ID_UnmarshalJSON_def Let_def split: res.split)

lemma less_loop_iff: "length a = length b \<Longrightarrow> less_loop a b \<longleftrightarrow> a < b"
  by (induction a b rule: less_loop.induct) auto

lemma IDs_Less_iff: "length a = length b \<Longrightarrow> IDs_Less a b \<longleftrightarrow> a < b"
  by (simp add: IDs_Less_def less_loop_iff)

interpretation idset: go_set "NewIDSet []" IDSet_Has IDSet_Insert IDSet_Delete "\<lambda>s. s" distinct
  using go_set_gomap
  by (simp add: NewIDSet_def IDSet_Has_def [abs_def] IDSet_Insert_def [abs_def]
      IDSet_Delete_def [abs_def])

lemma NewIDSet_fold: "NewIDSet ids = fold (\<lambda>i s. IDSet_Insert s i) ids (NewIDSet [])"
  by (simp add: NewIDSet_def IDSet_Insert_def)

lemma IDSet_Has_set [simp]: "IDSet_Has s i \<longleftrightarrow> i \<in> set s"
  by (simp add: IDSet_Has_def gomap_has_def)

lemma set_NewIDSet [simp]: "set (NewIDSet ids) = set ids"
  using idset.has_fold_ins [OF idset.inv_new, of ids] idset.has_new
  unfolding NewIDSet_fold [of ids] by auto

lemma distinct_NewIDSet [simp]: "distinct (NewIDSet ids)"
  unfolding NewIDSet_fold [of ids] by (rule idset.inv_fold_ins [OF idset.inv_new])

lemma set_IDSet_Insert [simp]: "set (IDSet_Insert s i) = insert i (set s)"
  by (simp add: IDSet_Insert_def gomap_insert_def insert_absorb)

lemma set_IDSet_Delete [simp]: "set (IDSet_Delete s i) = set s - {i}"
  by (auto simp: IDSet_Delete_def gomap_delete_def)

lemma set_IDSet_Merge [simp]: "set (IDSet_Merge s other) = set s \<union> set other"
  unfolding IDSet_Merge_def by (induction other arbitrary: s) auto

lemma distinct_IDSet_Merge: "distinct s \<Longrightarrow> distinct (IDSet_Merge s other)"
  unfolding IDSet_Merge_def by (rule idset.inv_fold_ins)

lemma set_IDSet_Sub [simp]: "set (IDSet_Sub s other) = set s - set other"
  using idset.has_select [of "\<lambda>i. \<not> IDSet_Has other i" s] by (auto simp: IDSet_Sub_def)

lemma distinct_IDSet_Sub [simp]: "distinct (IDSet_Sub s other)"
  unfolding IDSet_Sub_def by (rule idset.inv_select [OF idset.inv_new])

lemma set_IDSet_Intersect [simp]: "set (IDSet_Intersect s other) = set s \<inter> set other"
  using idset.has_select [of "IDSet_Has other" s] idset.has_select [of "IDSet_Has s" other]
  by (auto simp: IDSet_Intersect_def Let_def)

lemma distinct_IDSet_Intersect [simp]: "distinct (IDSet_Intersect s other)"
  by (simp add: IDSet_Intersect_def Let_def idset.inv_select [OF idset.inv_new] split: prod.split)

lemma IDSet_Equals_iff: "distinct s \<Longrightarrow> distinct t \<Longrightarrow> IDSet_Equals s t \<longleftrightarrow> set s = set t"
  using idset.equals_correct [of s t]
  by (auto simp: IDSet_Equals_def gomap_has_def list_all_iff)

lemma IDSet_List_sort: "\<forall>i \<in> set s. is_ID i \<Longrightarrow> IDSet_List s = sort s"
  unfolding IDSet_List_def go_sort_less [symmetric]
  by (rule go_sort_cong) (simp add: is_ID_def IDs_Less_iff)

lemma uniq_loop_eq:
  "set seen = set lst \<Longrightarrow> distinct lst \<Longrightarrow>
    distinct (uniq_loop ids seen lst) \<and> set (uniq_loop ids seen lst) = set lst \<union> set ids \<and>
    (\<exists>zs. uniq_loop ids seen lst = lst @ zs)"
proof (induction ids seen lst rule: uniq_loop.induct)
  case (2 i ids seen lst)
  show ?case
  proof (cases "IDSet_Has seen i")
    case True
    with 2 show ?thesis by auto
  next
    case False
    with 2 have "distinct (uniq_loop ids (IDSet_Insert seen i) (lst @ [i])) \<and>
      set (uniq_loop ids (IDSet_Insert seen i) (lst @ [i])) = set (lst @ [i]) \<union> set ids \<and>
      (\<exists>zs. uniq_loop ids (IDSet_Insert seen i) (lst @ [i]) = (lst @ [i]) @ zs)"
      by (intro "2.IH"(2)) auto
    with False show ?thesis by auto
  qed
qed auto

section \<open>Properties\<close>

text \<open>C18: Printing and parsing of IDs are inverse, both as hexadecimal text and as JSON, and whatever
  the parsers accept is an ID of 32 bytes.\<close>

theorem ID_text_roundtrip:
  assumes "is_ID i"
  shows "ParseID (ID_String i) = Ok i \<and> ID_UnmarshalJSON (ID_MarshalJSON i) = Ok i \<and>
    (\<forall>s j. ParseID s = Ok j \<or> ID_UnmarshalJSON s = Ok j \<longrightarrow> is_ID j)"
  using assms ParseID_String ID_Unmarshal_Marshal ParseID_is_ID ID_Unmarshal_is_ID by blast

theorem ID_text_roundtrip_witness:
  "is_ID (replicate 32 171) \<and> ParseID (ID_String (replicate 32 171)) = Ok (replicate 32 171)"
  using ID_text_roundtrip [of "replicate 32 171"] by (simp add: is_ID_def idSize_def)

text \<open>The operations of \<open>IDSet\<close> compute union, difference and intersection and keep the keys
  distinct, \<open>Equals\<close> decides equality of sets, and \<open>List\<close> is the sorted list of the members.\<close>

theorem IDSet_algebra:
  assumes "distinct s" "distinct t" "\<forall>i \<in> set s. is_ID i"
  shows "set (IDSet_Merge s t) = set s \<union> set t \<and> distinct (IDSet_Merge s t) \<and>
    set (IDSet_Sub s t) = set s - set t \<and> distinct (IDSet_Sub s t) \<and>
    set (IDSet_Intersect s t) = set s \<inter> set t \<and> distinct (IDSet_Intersect s t) \<and>
    (IDSet_Equals s t \<longleftrightarrow> set s = set t) \<and> IDSet_List s = sort s"
  using assms distinct_IDSet_Merge IDSet_Equals_iff IDSet_List_sort by simp

theorem IDSet_algebra_witness:
  "set (IDSet_Sub [replicate 32 1, replicate 32 2] [replicate 32 2]) = {replicate 32 1}"
  using IDSet_algebra [of "[replicate 32 1, replicate 32 2]" "[replicate 32 2]"]
  by (auto simp: is_ID_def idSize_def)

end
