(* ===== verification/Blobs.thy ===== *)
theory Blobs
  imports Ids
begin

text \<open>
  Blobs and their handles: \<open>restic/blob.go\<close>, \<open>restic/blob_set.go\<close> and the length arithmetic of
  \<open>restic/buffer.go\<close>. The embedded structs of the source are record extensions: a \<open>Blob\<close> is a
  \<open>BlobHandle\<close> with a length and an offset, a \<open>PackedBlob\<close> a \<open>Blob\<close> with the ID of its pack.
  \<open>BlobSet\<close> is the second interpretation of the set contract (\<open>blobset\<close>).
\<close>

section \<open>\<open>restic/blob.go\<close>\<close>

text \<open>
  The constants of \<open>BlobType\<close>, in their order. \<open>NumBlobTypes\<close> counts them and is no blob type; the
  type's other byte values are never constructed.
\<close>

datatype BlobType = InvalidBlob | DataBlob | TreeBlob

primrec blobtype_byte :: "BlobType \<Rightarrow> nat" where
  "blobtype_byte InvalidBlob = 0"
| "blobtype_byte DataBlob = 1"
| "blobtype_byte TreeBlob = 2"

definition NumBlobTypes :: nat where
  "NumBlobTypes = 3"

definition all_types :: "BlobType list" where
  "all_types = [InvalidBlob, DataBlob, TreeBlob]"

instantiation BlobType :: linorder
begin

definition less_eq_BlobType :: "BlobType \<Rightarrow> BlobType \<Rightarrow> bool" where
  "less_eq_BlobType s t = (blobtype_byte s \<le> blobtype_byte t)"

definition less_BlobType :: "BlobType \<Rightarrow> BlobType \<Rightarrow> bool" where
  "less_BlobType s t = (blobtype_byte s < blobtype_byte t)"

instance
proof
  fix x y :: BlobType
  show "x \<le> y \<Longrightarrow> y \<le> x \<Longrightarrow> x = y"
    by (cases x; cases y) (simp_all add: less_eq_BlobType_def)
qed (auto simp: less_eq_BlobType_def less_BlobType_def)

end

record BlobHandle =
  bID :: ID
  bType :: BlobType

record Blob = BlobHandle +
  bLength :: uint
  bOffset :: uint

record PackedBlob = Blob +
  PackID :: ID

text \<open>\<open>BlobHandle{ID: b.ID, Type: b.Type}\<close> of a blob, and the \<open>Blob\<close> inside a \<open>PackedBlob\<close>.\<close>

definition handle_of :: "'a BlobHandle_scheme \<Rightarrow> BlobHandle" where
  "handle_of b = \<lparr>bID = bID b, bType = bType b\<rparr>"

definition blob_of :: "'a Blob_scheme \<Rightarrow> Blob" where
  "blob_of b = \<lparr>bID = bID b, bType = bType b, bLength = bLength b, bOffset = bOffset b\<rparr>"

definition BlobType_String :: "BlobType \<Rightarrow> string" where
  "BlobType_String t =
     (case t of DataBlob \<Rightarrow> ''data'' | TreeBlob \<Rightarrow> ''tree'' | InvalidBlob \<Rightarrow> ''invalid'')"

definition BlobType_MarshalJSON :: "BlobType \<Rightarrow> string res" where
  "BlobType_MarshalJSON t =
     (case t of
        DataBlob \<Rightarrow> Ok (CHR 0x22 # ''data'' @ [CHR 0x22])
      | TreeBlob \<Rightarrow> Ok (CHR 0x22 # ''tree'' @ [CHR 0x22])
      | InvalidBlob \<Rightarrow> Err (Errorf ''unknown blob type''))"

definition BlobType_UnmarshalJSON :: "string \<Rightarrow> BlobType res" where
  "BlobType_UnmarshalJSON buf =
     (if buf = CHR 0x22 # ''data'' @ [CHR 0x22] then Ok DataBlob
      else if buf = CHR 0x22 # ''tree'' @ [CHR 0x22] then Ok TreeBlob
      else Err (Errorf ''unknown blob type''))"

text \<open>The loop of \<open>BlobHandles.Less\<close> over the bytes of the two IDs, then the types.\<close>

fun handle_less_loop :: "bytes \<Rightarrow> bytes \<Rightarrow> bool \<Rightarrow> bool" where
  "handle_less_loop (b # bs) (c # cs) d = (if b = c then handle_less_loop bs cs d else b < c)"
| "handle_less_loop _ _ d = d"

definition BlobHandles_Less :: "BlobHandle \<Rightarrow> BlobHandle \<Rightarrow> bool" where
  "BlobHandles_Less h1 h2 = handle_less_loop (bID h1) (bID h2) (bType h1 < bType h2)"

section \<open>\<open>restic/blob_set.go\<close>\<close>

type_synonym BlobSet = "BlobHandle list"

definition NewBlobSet :: "BlobHandle list \<Rightarrow> BlobSet" where
  "NewBlobSet handles = fold (\<lambda>h m. gomap_insert m h) handles []"

definition BlobSet_Has :: "BlobSet \<Rightarrow> BlobHandle \<Rightarrow> bool" where
  "BlobSet_Has s h = gomap_has s h"

definition BlobSet_Insert :: "BlobSet \<Rightarrow> BlobHandle \<Rightarrow> BlobSet" where
  "BlobSet_Insert s h = gomap_insert s h"

definition BlobSet_Delete :: "BlobSet \<Rightarrow> BlobHandle \<Rightarrow> BlobSet" where
  "BlobSet_Delete s h = gomap_delete s h"

definition BlobSet_Equals :: "BlobSet \<Rightarrow> BlobSet \<Rightarrow> bool" where
  "BlobSet_Equals s other =
     (if length s \<noteq> length other then False else list_all (gomap_has other) s)"

definition BlobSet_Merge :: "BlobSet \<Rightarrow> BlobSet \<Rightarrow> BlobSet" where
  "BlobSet_Merge s other = fold (\<lambda>h s. BlobSet_Insert s h) other s"

definition BlobSet_Intersect :: "BlobSet \<Rightarrow> BlobSet \<Rightarrow> BlobSet" where
  "BlobSet_Intersect s other =
     (let (set1, set2) = (if length other < length s then (other, s) else (s, other))
      in fold (\<lambda>h r. if BlobSet_Has set2 h then BlobSet_Insert r h else r) set1 (NewBlobSet []))"

definition BlobSet_Sub :: "BlobSet \<Rightarrow> BlobSet \<Rightarrow> BlobSet" where
  "BlobSet_Sub s other =
     fold (\<lambda>h r. if \<not> BlobSet_Has other h then BlobSet_Insert r h else r) s (NewBlobSet [])"

definition BlobSet_List :: "BlobSet \<Rightarrow> BlobHandle list" where
  "BlobSet_List s = go_sort BlobHandles_Less s"

section \<open>Lemmas\<close>

lemma handle_of_simps [simp]:
  "bID (handle_of b) = bID b" "bType (handle_of b) = bType b"
  by (simp_all add: handle_of_def)

lemma handle_of_BlobHandle [simp]: "handle_of (h :: BlobHandle) = h"
  by (simp add: handle_of_def)

lemma blob_of_simps [simp]:
  "bID (blob_of b) = bID b" "bType (blob_of b) = bType b"
  "bLength (blob_of b) = bLength b" "bOffset (blob_of b) = bOffset b"
  by (simp_all add: blob_of_def)

lemma blob_of_Blob [simp]: "blob_of (b :: Blob) = b"
  by (simp add: blob_of_def)

lemma handle_of_blob_of [simp]: "handle_of (blob_of b) = handle_of b"
  by (simp add: handle_of_def)

lemma handle_of_eq: "handle_of b = h \<longleftrightarrow> bID b = bID h \<and> bType b = bType h"
  by (cases h) (auto simp: handle_of_def)

lemma BlobType_json_roundtrip:
  "BlobType_MarshalJSON t = Ok s \<longleftrightarrow> BlobType_UnmarshalJSON s = Ok t"
  by (cases t) (auto simp: BlobType_MarshalJSON_def BlobType_UnmarshalJSON_def)

lemma handle_less_loop_iff:
  "length a = length b \<Longrightarrow> handle_less_loop a b d \<longleftrightarrow> a < b \<or> a = b \<and> d"
  by (induction a b d rule: handle_less_loop.induct) auto

text \<open>\<open>Less\<close> of handles is the lexicographic order of ID and type.\<close>

lemma BlobHandles_Less_iff:
  "length (bID h1) = length (bID h2) \<Longrightarrow>
    BlobHandles_Less h1 h2 \<longleftrightarrow> bID h1 < bID h2 \<or> bID h1 = bID h2 \<and> bType h1 < bType h2"
  by (simp add: BlobHandles_Less_def handle_less_loop_iff)

interpretation blobset: go_set "NewBlobSet []" BlobSet_Has BlobSet_Insert BlobSet_Delete "\<lambda>s. s" distinct
  using go_set_gomap
  by (simp add: NewBlobSet_def BlobSet_Has_def [abs_def] BlobSet_Insert_def [abs_def]
      BlobSet_Delete_def [abs_def])

lemma BlobSet_Has_set [simp]: "BlobSet_Has s h \<longleftrightarrow> h \<in> set s"
  by (simp add: BlobSet_Has_def gomap_has_def)

lemma NewBlobSet_Nil [simp]: "NewBlobSet [] = []"
  by (simp add: NewBlobSet_def)

lemma set_BlobSet_Insert [simp]: "set (BlobSet_Insert s h) = insert h (set s)"
  by (simp add: BlobSet_Insert_def gomap_insert_def insert_absorb)

lemma set_BlobSet_Delete [simp]: "set (BlobSet_Delete s h) = set s - {h}"
  by (auto simp: BlobSet_Delete_def gomap_delete_def)

lemma set_BlobSet_Merge [simp]: "set (BlobSet_Merge s other) = set s \<union> set other"
  unfolding BlobSet_Merge_def by (induction other arbitrary: s) auto

lemma set_BlobSet_Sub [simp]: "set (BlobSet_Sub s other) = set s - set other"
  using blobset.has_select [of "\<lambda>h. \<not> BlobSet_Has other h" s] by (auto simp: BlobSet_Sub_def)

lemma set_BlobSet_Intersect [simp]: "set (BlobSet_Intersect s other) = set s \<inter> set other"
  using blobset.has_select [of "BlobSet_Has other" s] blobset.has_select [of "BlobSet_Has s" other]
  by (auto simp: BlobSet_Intersect_def Let_def)

lemma BlobSet_Equals_iff: "distinct s \<Longrightarrow> distinct t \<Longrightarrow> BlobSet_Equals s t \<longleftrightarrow> set s = set t"
  using blobset.equals_correct [of s t]
  by (auto simp: BlobSet_Equals_def gomap_has_def list_all_iff)

end
