(* ===== verification/Crypto.thy ===== *)
theory Crypto
  imports Blobs
begin

text \<open>
  Authenticated encryption: \<open>crypto/crypto.go\<close>, \<open>crypto/kdf.go\<close>, \<open>crypto/rapi.go\<close> and
  \<open>restic/buffer.go\<close>.

  The primitives are the record \<open>prims\<close>: the AES block function, Poly1305 and scrypt
  (\<open>golang.org/x/crypto\<close>) and SHA-256 (\<open>minio/sha256-simd\<close>), with only their output lengths assumed
  (\<open>prims_ok\<close>). Counter mode of \<open>crypto/cipher\<close> is modelled over the block function. Random bytes
  are arguments. A \<open>Key\<close> is changed by use (the MAC key is masked on first use), so \<open>Seal\<close> and
  \<open>Open\<close> return the key as well.

  The lemmas show that \<open>Open\<close> accepts exactly what \<open>Seal\<close> produces, that masking is idempotent, and
  the round trip of the nonce-prefixed frames that every file and blob of a repository uses.
\<close>

section \<open>Primitives\<close>

record prims =
  aes_Encrypt :: "bytes \<Rightarrow> bytes \<Rightarrow> bytes"
  poly1305_Sum :: "bytes \<Rightarrow> bytes \<Rightarrow> bytes"
  sha256_Sum :: "bytes \<Rightarrow> bytes"

definition prims_ok :: "prims \<Rightarrow> bool" where
  "prims_ok P \<longleftrightarrow>
     (\<forall>k b. length (aes_Encrypt P k b) = 16) \<and>
     (\<forall>k m. length (poly1305_Sum P k m) = 16) \<and>
     (\<forall>m. length (sha256_Sum P m) = 32)"

text \<open>The sizes \<open>aes.NewCipher\<close> accepts.\<close>

definition aes_key_size :: "bytes \<Rightarrow> bool" where
  "aes_key_size k = (length k \<in> {16, 24, 32})"

text \<open>Counter mode: the counter is a big-endian number of 16 bytes, incremented for each block.\<close>

primrec incr_le :: "bytes \<Rightarrow> bytes" where
  "incr_le [] = []"
| "incr_le (b # bs) = (if b + 1 = 0 then (b + 1) # incr_le bs else (b + 1) # bs)"

definition ctr_incr :: "bytes \<Rightarrow> bytes" where
  "ctr_incr ctr = rev (incr_le (rev ctr))"

primrec ctr_blocks :: "prims \<Rightarrow> bytes \<Rightarrow> bytes \<Rightarrow> nat \<Rightarrow> bytes" where
  "ctr_blocks P k ctr 0 = []"
| "ctr_blocks P k ctr (Suc n) = aes_Encrypt P k ctr @ ctr_blocks P k (ctr_incr ctr) n"

definition CTR_XORKeyStream :: "prims \<Rightarrow> bytes \<Rightarrow> bytes \<Rightarrow> bytes \<Rightarrow> bytes" where
  "CTR_XORKeyStream P k iv src = map2 (XOR) src (ctr_blocks P k iv (length src div 16 + 1))"

section \<open>\<open>crypto/crypto.go\<close>\<close>

definition aesKeySize :: nat where "aesKeySize = 32"
definition macKeySizeK :: nat where "macKeySizeK = 16"
definition macKeySizeR :: nat where "macKeySizeR = 16"
definition macKeySize :: nat where "macKeySize = macKeySizeK + macKeySizeR"
definition ivSize :: nat where "ivSize = 16"
definition macSize :: nat where "macSize = 16"
definition Extension :: nat where "Extension = ivSize + macSize"

record MACKey =
  macK :: bytes
  macR :: bytes
  masked :: bool

record Key =
  kMAC :: MACKey
  kEnc :: bytes

definition poly1305KeyMask :: bytes where
  "poly1305KeyMask =
     [0xff, 0xff, 0xff, 0x0f, 0xfc, 0xff, 0xff, 0x0f,
      0xfc, 0xff, 0xff, 0x0f, 0xfc, 0xff, 0xff, 0x0f]"

definition maskKey :: "MACKey \<Rightarrow> MACKey" where
  "maskKey k =
     (if masked k then k
      else k\<lparr>macR := map2 (AND) (macR k) poly1305KeyMask, masked := True\<rparr>)"

definition macKeyFromSlice :: "MACKey \<Rightarrow> bytes \<Rightarrow> MACKey res" where
  "macKeyFromSlice mk data =
     bind_r (slice data 0 16) (\<lambda>a.
     bind_r (slice data 16 32) (\<lambda>b.
       Ok (maskKey (mk\<lparr>macK := copy_to (macK mk) a, macR := copy_to (macR mk) b\<rparr>))))"

text \<open>\<open>r||n\<close>, with \<open>n\<close> the nonce encrypted under \<open>K\<close>; the MAC key is masked in place.\<close>

definition poly1305PrepareKey :: "prims \<Rightarrow> bytes \<Rightarrow> MACKey \<Rightarrow> MACKey \<times> bytes" where
  "poly1305PrepareKey P nonce key =
     (let key' = maskKey key in (key', macR key' @ aes_Encrypt P (macK key') (take 16 nonce)))"

definition poly1305MAC :: "prims \<Rightarrow> bytes \<Rightarrow> bytes \<Rightarrow> MACKey \<Rightarrow> MACKey \<times> bytes" where
  "poly1305MAC P msg nonce key =
     (let (key', k) = poly1305PrepareKey P nonce key in (key', poly1305_Sum P k msg))"

text \<open>
  \<open>poly1305.Verify\<close> reports whether the tag is the one \<open>Sum\<close> computes; \<open>m\<close> is an array of 16 bytes.
\<close>

definition poly1305Verify :: "prims \<Rightarrow> bytes \<Rightarrow> bytes \<Rightarrow> MACKey \<Rightarrow> bytes \<Rightarrow> MACKey \<times> bool" where
  "poly1305Verify P msg nonce key mac =
     (let (key', k) = poly1305PrepareKey P nonce key
      in (key', copy_to (replicate 16 0) mac = poly1305_Sum P k msg))"

text \<open>\<open>NewRandomKey\<close> and \<open>NewRandomNonce\<close>: what \<open>rand.Read\<close> yields is an argument, None its failure.\<close>

definition rand_Read :: "nat \<Rightarrow> bytes option \<Rightarrow> string \<Rightarrow> bytes res" where
  "rand_Read n r msg =
     (case r of None \<Rightarrow> Panic msg | Some b \<Rightarrow> if length b \<noteq> n then Panic msg else Ok b)"

definition NewRandomKey :: "bytes option \<Rightarrow> bytes option \<Rightarrow> bytes option \<Rightarrow> Key res" where
  "NewRandomKey r1 r2 r3 =
     bind_r (rand_Read aesKeySize r1 ''unable to read enough random bytes for encryption key'') (\<lambda>e.
     bind_r (rand_Read macKeySizeK r2 ''unable to read enough random bytes for MAC encryption key'') (\<lambda>k.
     bind_r (rand_Read macKeySizeR r3 ''unable to read enough random bytes for MAC key'') (\<lambda>r.
       Ok \<lparr>kMAC = maskKey \<lparr>macK = k, macR = r, masked = False\<rparr>, kEnc = e\<rparr>)))"

definition NewRandomNonce :: "bytes option \<Rightarrow> bytes res" where
  "NewRandomNonce r = rand_Read ivSize r ''unable to read enough random bytes for iv''"

text \<open>The loops of the three \<open>Valid\<close> methods and of \<open>validNonce\<close>.\<close>

definition MACKey_Valid :: "MACKey \<Rightarrow> bool" where
  "MACKey_Valid m =
     (let nonzeroK = fold (\<lambda>b z. if b \<noteq> 0 then True else z) (macK m) False
      in if \<not> nonzeroK then False else list_ex (\<lambda>b. b \<noteq> 0) (macR m))"

definition EncryptionKey_Valid :: "bytes \<Rightarrow> bool" where
  "EncryptionKey_Valid k = list_ex (\<lambda>b. b \<noteq> 0) k"

definition validNonce :: "bytes \<Rightarrow> bool" where
  "validNonce nonce = (fold (\<lambda>b sum. sum OR b) nonce 0 > 0)"

definition Key_NonceSize :: "Key \<Rightarrow> nat" where
  "Key_NonceSize k = ivSize"

definition Key_Overhead :: "Key \<Rightarrow> nat" where
  "Key_Overhead k = macSize"

definition Key_Valid :: "Key \<Rightarrow> bool" where
  "Key_Valid k = (EncryptionKey_Valid (kEnc k) \<and> MACKey_Valid (kMAC k))"

text \<open>
  \<open>Seal\<close> and \<open>Open\<close>: the slice that \<open>sliceForAppend\<close> returns is \<open>dst\<close> followed by the bytes written,
  whether or not it shares storage with \<open>dst\<close>.
\<close>

definition Key_Seal :: "prims \<Rightarrow> Key \<Rightarrow> bytes \<Rightarrow> bytes \<Rightarrow> bytes \<Rightarrow> bytes \<Rightarrow> Key \<times> bytes res" where
  "Key_Seal P k dst nonce plaintext additionalData =
     (if \<not> Key_Valid k then (k, Panic ''key is invalid'')
      else if length additionalData > 0 then (k, Panic ''additional data is not supported'')
      else if length nonce \<noteq> ivSize then (k, Panic ''incorrect nonce length'')
      else if \<not> validNonce nonce then (k, Panic ''nonce is invalid'')
      else if \<not> aes_key_size (kEnc k) then (k, Panic ''unable to create cipher: %v'')
      else
        (let out = CTR_XORKeyStream P (kEnc k) nonce plaintext;
             (m', mac) = poly1305MAC P out nonce (kMAC k)
         in (k\<lparr>kMAC := m'\<rparr>, Ok (dst @ out @ mac))))"

definition Key_Open :: "prims \<Rightarrow> Key \<Rightarrow> bytes \<Rightarrow> bytes \<Rightarrow> bytes \<Rightarrow> Key \<times> bytes res" where
  "Key_Open P k dst nonce ciphertext =
     (if \<not> Key_Valid k then (k, Err (Errorf ''invalid key''))
      else if length nonce \<noteq> ivSize then (k, Panic ''incorrect nonce length'')
      else if \<not> validNonce nonce then (k, Err (Errorf ''nonce is invalid''))
      else if length ciphertext < Key_Overhead k
        then (k, Err (Errorf ''trying to decrypt invalid data: ciphertext too small''))
      else
        (let l = length ciphertext - macSize;
             ct = take l ciphertext; mac = drop l ciphertext;
             (m', ok) = poly1305Verify P ct nonce (kMAC k) mac;
             k' = k\<lparr>kMAC := m'\<rparr>
         in if \<not> ok then (k', Err ErrUnauthenticated)
            else if \<not> aes_key_size (kEnc k) then (k', Panic ''unable to create cipher: %v'')
            else (k', Ok (dst @ CTR_XORKeyStream P (kEnc k) nonce ct))))"

section \<open>\<open>crypto/rapi.go\<close>, \<open>restic/buffer.go\<close>\<close>

text \<open>\<open>Decrypt\<close> on what the reader yields: the nonce is cut off without a length check.\<close>

definition Key_Decrypt :: "prims \<Rightarrow> Key \<Rightarrow> bytes res \<Rightarrow> bytes res" where
  "Key_Decrypt P k readAll =
     bind_r readAll (\<lambda>buf.
     bind_r (slice_to buf (int (Key_NonceSize k))) (\<lambda>nonce.
     bind_r (slice_from buf (int (Key_NonceSize k))) (\<lambda>ciphertext.
       case snd (Key_Open P k [] nonce ciphertext) of
         Ok plaintext \<Rightarrow> Ok plaintext
       | Err e \<Rightarrow> Err (Errorf ''decryption failed: %v'')
       | Panic m \<Rightarrow> Panic m)))"

definition Key_Encrypt :: "prims \<Rightarrow> Key \<Rightarrow> bytes option \<Rightarrow> bytes \<Rightarrow> bytes res" where
  "Key_Encrypt P k r data =
     bind_r (NewRandomNonce r) (\<lambda>nonce. snd (Key_Seal P k nonce nonce data []))"

definition ciphertextLength :: "nat \<Rightarrow> nat" where
  "ciphertextLength plaintextSize = plaintextSize + Extension"

definition PlaintextLength :: "int \<Rightarrow> int" where
  "PlaintextLength ciphertextSize = ciphertextSize - int Extension"

definition CiphertextLength :: "int \<Rightarrow> int" where
  "CiphertextLength plaintextSize = plaintextSize + int Extension"

section \<open>\<open>crypto/kdf.go\<close>\<close>

definition saltLength :: nat where "saltLength = 64"

record Params =
  pN :: int
  pR :: int
  pP :: int

text \<open>
  \<open>check\<close> stands for \<open>Params.Check\<close> of \<open>simple-scrypt\<close> and \<open>scrypt\<close> for \<open>scrypt.Key\<close> of
  \<open>golang.org/x/crypto\<close> (arguments: password, salt, parameters, length).
\<close>

definition KDF ::
  "(Params \<Rightarrow> nat \<Rightarrow> error option) \<Rightarrow> (string \<Rightarrow> bytes \<Rightarrow> Params \<Rightarrow> nat \<Rightarrow> bytes res) \<Rightarrow>
    Params \<Rightarrow> bytes \<Rightarrow> string \<Rightarrow> Key res" where
  "KDF check scrypt p salt password =
     (if length salt \<noteq> saltLength
      then Err (Errorf ''scrypt() called with invalid salt bytes (len %d)'')
      else
        (case check p (length salt) of
           Some e \<Rightarrow> Err (Wrap e ''Check'')
         | None \<Rightarrow>
           (let keybytes = macKeySize + aesKeySize in
            case scrypt password salt p keybytes of
              Err e \<Rightarrow> Err (Wrap e ''scrypt.Key'')
            | Panic m \<Rightarrow> Panic m
            | Ok scryptKeys \<Rightarrow>
                if length scryptKeys \<noteq> keybytes
                then Err (Errorf ''invalid numbers of bytes expanded from scrypt(): %d'')
                else
                  (let enc = copy_to (replicate aesKeySize 0) (take aesKeySize scryptKeys);
                       m0 = \<lparr>macK = replicate 16 0, macR = replicate 16 0, masked = False\<rparr>
                   in map_r (\<lambda>m. \<lparr>kMAC = m, kEnc = enc\<rparr>)
                        (macKeyFromSlice m0 (drop aesKeySize scryptKeys))))))"

definition NewSalt :: "bytes option \<Rightarrow> bytes res" where
  "NewSalt r = rand_Read saltLength r ''unable to read enough random bytes for new salt''"

section \<open>Lemmas: key streams, masks and validity\<close>

lemmas size_defs =
  aesKeySize_def macKeySizeK_def macKeySizeR_def macKeySize_def ivSize_def macSize_def
  Extension_def Key_Overhead_def Key_NonceSize_def idSize_def

lemma length_ctr_blocks [simp]: "prims_ok P \<Longrightarrow> length (ctr_blocks P k ctr n) = 16 * n"
  by (induction n arbitrary: ctr) (auto simp: prims_ok_def)

lemma map2_xor_cancel:
  "length xs \<le> length ks \<Longrightarrow> map2 (XOR) (map2 (XOR) xs ks) ks = (xs :: bytes)"
proof (induction xs arbitrary: ks)
  case (Cons x xs)
  then show ?case by (cases ks) (auto simp: xor.assoc)
qed simp

lemma length_CTR [simp]: "prims_ok P \<Longrightarrow> length (CTR_XORKeyStream P k iv src) = length src"
  by (simp add: CTR_XORKeyStream_def min_def del: ctr_blocks.simps)

lemma CTR_involution [simp]:
  assumes "prims_ok P"
  shows "CTR_XORKeyStream P k iv (CTR_XORKeyStream P k iv src) = src"
proof -
  let ?ks = "ctr_blocks P k iv (length src div 16 + 1)"
  have "length src \<le> length ?ks"
    unfolding length_ctr_blocks [OF assms] by simp
  then have "map2 (XOR) (map2 (XOR) src ?ks) ?ks = src" by (rule map2_xor_cancel)
  moreover have "length (map2 (XOR) src ?ks) = length src"
    using length_CTR [OF assms, of k iv src] by (simp add: CTR_XORKeyStream_def)
  ultimately show ?thesis by (simp add: CTR_XORKeyStream_def)
qed

lemma maskKey_masked [simp]: "masked (maskKey m)"
  by (simp add: maskKey_def)

lemma maskKey_id: "masked m \<Longrightarrow> maskKey m = m"
  by (simp add: maskKey_def)

lemma maskKey_idem [simp]: "maskKey (maskKey m) = maskKey m"
  by (simp add: maskKey_id)

lemma macK_maskKey [simp]: "macK (maskKey m) = macK m"
  by (simp add: maskKey_def)

lemma validNonce_fold: "fold (\<lambda>b sum. sum OR b) n (a::byte) = 0 \<longleftrightarrow> a = 0 \<and> (\<forall>b \<in> set n. b = 0)"
  by (induction n arbitrary: a) (auto simp: or_eq_0_iff)

lemma validNonce_iff: "validNonce n \<longleftrightarrow> (\<exists>b \<in> set n. b \<noteq> 0)"
  using validNonce_fold [of n 0] by (auto simp: validNonce_def word_neq_0_conv [symmetric])

lemma fold_nonzero:
  "fold (\<lambda>b z. if b \<noteq> 0 then True else z) (xs :: bytes) z \<longleftrightarrow> z \<or> (\<exists>b \<in> set xs. b \<noteq> 0)"
  by (induction xs arbitrary: z) auto

lemma MACKey_Valid_iff:
  "MACKey_Valid m \<longleftrightarrow> (\<exists>b \<in> set (macK m). b \<noteq> 0) \<and> (\<exists>b \<in> set (macR m). b \<noteq> 0)"
  by (auto simp: MACKey_Valid_def fold_nonzero list_ex_iff)

section \<open>Lemmas: \<open>Seal\<close> and \<open>Open\<close>\<close>

text \<open>A nonce the program may use: 16 bytes, not all zero.\<close>

definition nonce_ok :: "bytes \<Rightarrow> bool" where
  "nonce_ok n \<longleftrightarrow> length n = ivSize \<and> validNonce n"

text \<open>A key the program may use: well-formed arrays, and valid.\<close>

definition key_ok :: "Key \<Rightarrow> bool" where
  "key_ok k \<longleftrightarrow>
     length (kEnc k) = 32 \<and> length (macK (kMAC k)) = 16 \<and> length (macR (kMAC k)) = 16 \<and> Key_Valid k"

lemma key_ok_simps: "key_ok k \<Longrightarrow> Key_Valid k \<and> aes_key_size (kEnc k)"
  by (simp add: key_ok_def aes_key_size_def)

text \<open>What \<open>Seal\<close> computes with a usable key and nonce.\<close>

definition seal_bytes :: "prims \<Rightarrow> Key \<Rightarrow> bytes \<Rightarrow> bytes \<Rightarrow> bytes" where
  "seal_bytes P k nonce pt =
     (let out = CTR_XORKeyStream P (kEnc k) nonce pt
      in out @ snd (poly1305MAC P out nonce (kMAC k)))"

lemma Seal_ok:
  "key_ok k \<Longrightarrow> nonce_ok nonce \<Longrightarrow>
    Key_Seal P k dst nonce pt [] =
      (k\<lparr>kMAC := maskKey (kMAC k)\<rparr>, Ok (dst @ seal_bytes P k nonce pt))"
  by (simp add: Key_Seal_def key_ok_simps nonce_ok_def seal_bytes_def poly1305MAC_def
      poly1305PrepareKey_def Let_def)

lemma length_seal_bytes [simp]:
  "prims_ok P \<Longrightarrow> length (seal_bytes P k nonce pt) = length pt + macSize"
  by (simp add: seal_bytes_def Let_def poly1305MAC_def poly1305PrepareKey_def size_defs prims_ok_def)

lemma poly1305Verify_snd:
  "length mac = 16 \<Longrightarrow>
    snd (poly1305Verify P msg nonce key mac) \<longleftrightarrow> mac = snd (poly1305MAC P msg nonce key)"
  by (simp add: poly1305Verify_def poly1305MAC_def copy_to_full split: prod.split)

lemma poly1305Verify_fst [simp]: "fst (poly1305Verify P msg nonce key mac) = maskKey key"
  by (simp add: poly1305Verify_def poly1305PrepareKey_def Let_def)

lemma Open_eq:
  assumes "key_ok k" "nonce_ok nonce"
  shows "snd (Key_Open P k dst nonce c) =
    (if length c < macSize
     then Err (Errorf ''trying to decrypt invalid data: ciphertext too small'')
     else
       (let ct = take (length c - macSize) c; mac = drop (length c - macSize) c
        in if mac = snd (poly1305MAC P ct nonce (kMAC k))
           then Ok (dst @ CTR_XORKeyStream P (kEnc k) nonce ct)
           else Err ErrUnauthenticated))"
proof (cases "length c < macSize")
  case True
  with assms show ?thesis by (simp add: Key_Open_def key_ok_simps nonce_ok_def Key_Overhead_def)
next
  case False
  define ct where "ct = take (length c - macSize) c"
  define mac where "mac = drop (length c - macSize) c"
  have l: "length mac = 16" using False by (simp add: mac_def macSize_def)
  show ?thesis
    using assms False poly1305Verify_snd [OF l, of P ct nonce "kMAC k"]
    by (simp add: Key_Open_def key_ok_simps nonce_ok_def Key_Overhead_def Let_def case_prod_beta
        mac_def [symmetric] ct_def [symmetric])
qed

lemma Open_Ok_iff:
  assumes "prims_ok P" "key_ok k" "nonce_ok nonce"
  shows "snd (Key_Open P k [] nonce c) = Ok p \<longleftrightarrow> c = seal_bytes P k nonce p"
proof
  assume R: "c = seal_bytes P k nonce p"
  let ?out = "CTR_XORKeyStream P (kEnc k) nonce p"
  have len: "length c - macSize = length ?out" using assms(1) R by simp
  have c: "c = ?out @ snd (poly1305MAC P ?out nonce (kMAC k))"
    by (simp add: R seal_bytes_def Let_def)
  have "take (length c - macSize) c = ?out"
    "drop (length c - macSize) c = snd (poly1305MAC P ?out nonce (kMAC k))"
    unfolding len by (subst c, simp)+
  moreover have "\<not> length c < macSize" using assms(1) R by simp
  ultimately show "snd (Key_Open P k [] nonce c) = Ok p"
    using assms by (simp add: Open_eq Let_def)
next
  assume L: "snd (Key_Open P k [] nonce c) = Ok p"
  let ?ct = "take (length c - macSize) c"
  from L have mac: "drop (length c - macSize) c = snd (poly1305MAC P ?ct nonce (kMAC k))"
    and p: "p = CTR_XORKeyStream P (kEnc k) nonce ?ct"
    using assms by (auto simp: Open_eq Let_def split: if_splits)
  have "seal_bytes P k nonce p = ?ct @ snd (poly1305MAC P ?ct nonce (kMAC k))"
    using assms(1) by (simp add: seal_bytes_def p Let_def)
  also have "\<dots> = c" unfolding mac [symmetric] by simp
  finally show "c = seal_bytes P k nonce p" by simp
qed

lemma seal_bytes_inj:
  assumes "prims_ok P" "key_ok k" "nonce_ok nonce"
  shows "seal_bytes P k nonce p = seal_bytes P k nonce q \<longleftrightarrow> p = q"
  by (metis Open_Ok_iff [OF assms] res.inject(1))

lemma Open_no_panic:
  "aes_key_size (kEnc k) \<Longrightarrow> length nonce = ivSize \<Longrightarrow> \<not> is_panic (snd (Key_Open P k dst nonce c))"
  by (simp add: Key_Open_def Let_def case_prod_beta)

lemma Open_length:
  assumes "prims_ok P" "key_ok k" "length nonce = ivSize" "snd (Key_Open P k [] nonce c) = Ok p"
  shows "length c = length p + macSize \<and> nonce_ok nonce"
proof -
  have n: "nonce_ok nonce"
    using assms by (auto simp: Key_Open_def nonce_ok_def split: if_splits)
  with assms show ?thesis by (simp add: Open_Ok_iff [OF assms(1,2) n])
qed

text \<open>The key after use: only the mask can have changed.\<close>

lemma fst_Open: "fst (Key_Open P k dst nonce c) = k \<or>
    fst (Key_Open P k dst nonce c) = k\<lparr>kMAC := maskKey (kMAC k)\<rparr>"
proof -
  have "\<And>m' ok ct mac. poly1305Verify P ct nonce (kMAC k) mac = (m', ok) \<Longrightarrow> m' = maskKey (kMAC k)"
    by (metis fst_conv poly1305Verify_fst)
  then show ?thesis by (auto simp: Key_Open_def Let_def split: prod.split)
qed

section \<open>Frames\<close>

text \<open>
  Every file and blob is stored as the nonce followed by the sealed plaintext. The code writes the
  two halves of this out at each use: \<open>append(nonce...)\<close> and \<open>Seal\<close> on the one side, the slices
  \<open>buf[:NonceSize()]\<close> and \<open>buf[NonceSize():]\<close> and \<open>Open\<close> on the other.
\<close>

definition seal_frame :: "prims \<Rightarrow> Key \<Rightarrow> bytes \<Rightarrow> bytes \<Rightarrow> bytes res" where
  "seal_frame P k nonce data = snd (Key_Seal P k nonce nonce data [])"

definition open_frame :: "prims \<Rightarrow> Key \<Rightarrow> bytes \<Rightarrow> bytes res" where
  "open_frame P k buf =
     bind_r (slice_to buf (int (Key_NonceSize k))) (\<lambda>nonce.
     bind_r (slice_from buf (int (Key_NonceSize k))) (\<lambda>ciphertext.
       snd (Key_Open P k [] nonce ciphertext)))"

text \<open>
  The contract of authenticated frames: what a client may rely on. Sealing a usable frame succeeds
  and adds 32 bytes; opening accepts exactly the sealed frames and gives the plaintext back.
\<close>

locale aead_frames =
  fixes ok :: "'p \<Rightarrow> 'k \<Rightarrow> bool"
    and nok :: "bytes \<Rightarrow> bool"
    and seal :: "'p \<Rightarrow> 'k \<Rightarrow> bytes \<Rightarrow> bytes \<Rightarrow> bytes res"
    and opn :: "'p \<Rightarrow> 'k \<Rightarrow> bytes \<Rightarrow> bytes res"
  assumes seal_total: "ok p k \<Longrightarrow> nok n \<Longrightarrow> \<exists>c. seal p k n m = Ok c"
    and seal_length: "ok p k \<Longrightarrow> seal p k n m = Ok c \<Longrightarrow> length c = length m + 32"
    and open_iff: "ok p k \<Longrightarrow> opn p k c = Ok m \<longleftrightarrow> (\<exists>n. nok n \<and> seal p k n m = Ok c)"
begin

lemma open_seal: "ok p k \<Longrightarrow> nok n \<Longrightarrow> seal p k n m = Ok c \<Longrightarrow> opn p k c = Ok m"
  using open_iff by blast

lemma open_length: "ok p k \<Longrightarrow> opn p k c = Ok m \<Longrightarrow> length c = length m + 32"
  using open_iff seal_length by metis

lemma open_det: "ok p k \<Longrightarrow> nok n \<Longrightarrow> nok n' \<Longrightarrow> seal p k n m = Ok c \<Longrightarrow> seal p k n' m' = Ok c \<Longrightarrow> m = m'"
  using open_seal by (metis res.inject(1))

text \<open>A frame inside a larger file is found again at its offset.\<close>

lemma open_at_offset:
  assumes "ok p k" "nok n" "seal p k n m = Ok c"
  shows "opn p k (take (length c) (drop (length xs) (xs @ c @ ys))) = Ok m"
  using open_seal [OF assms] by simp

end

lemma seal_frame_ok:
  "key_ok k \<Longrightarrow> nonce_ok nonce \<Longrightarrow> seal_frame P k nonce m = Ok (nonce @ seal_bytes P k nonce m)"
  by (simp add: seal_frame_def Seal_ok)

lemma seal_frame_Ok_iff:
  "key_ok k \<Longrightarrow> seal_frame P k nonce m = Ok c \<longleftrightarrow> nonce_ok nonce \<and> c = nonce @ seal_bytes P k nonce m"
  by (cases "nonce_ok nonce")
    (auto simp: seal_frame_ok, auto simp: seal_frame_def Key_Seal_def nonce_ok_def split: if_splits)

lemma open_frame_eq:
  "open_frame P k buf =
    (if length buf < 16 then Panic ''slice bounds out of range''
     else snd (Key_Open P k [] (take 16 buf) (drop 16 buf)))"
  by (simp add: open_frame_def slice_to_def slice_from_def slice_def size_defs)

lemma open_frame_Ok_iff:
  assumes "prims_ok P" "key_ok k"
  shows "open_frame P k buf = Ok m \<longleftrightarrow> (\<exists>n. nonce_ok n \<and> buf = n @ seal_bytes P k n m)"
proof
  assume L: "open_frame P k buf = Ok m"
  then have len: "16 \<le> length buf" and op: "snd (Key_Open P k [] (take 16 buf) (drop 16 buf)) = Ok m"
    by (auto simp: open_frame_eq split: if_splits)
  from len have l: "length (take 16 buf) = ivSize" by (simp add: size_defs)
  have n: "nonce_ok (take 16 buf)" using Open_length [OF assms l op] by simp
  then have "drop 16 buf = seal_bytes P k (take 16 buf) m"
    using Open_Ok_iff [OF assms n] op by blast
  then have "buf = take 16 buf @ seal_bytes P k (take 16 buf) m" by (metis append_take_drop_id)
  with n show "\<exists>n. nonce_ok n \<and> buf = n @ seal_bytes P k n m" by blast
next
  assume "\<exists>n. nonce_ok n \<and> buf = n @ seal_bytes P k n m"
  then obtain n where n: "nonce_ok n" and b: "buf = n @ seal_bytes P k n m" by blast
  from n have l: "length n = 16" by (simp add: nonce_ok_def size_defs)
  have "snd (Key_Open P k [] n (seal_bytes P k n m)) = Ok m"
    using Open_Ok_iff [OF assms n] by blast
  with l show "open_frame P k buf = Ok m" by (simp add: open_frame_eq b)
qed

interpretation frames: aead_frames
  "\<lambda>P k. prims_ok P \<and> key_ok k" nonce_ok seal_frame open_frame
proof
  fix P k n m c
  assume ok: "prims_ok P \<and> key_ok k"
  show "nonce_ok n \<Longrightarrow> \<exists>c. seal_frame P k n m = Ok c" using ok by (simp add: seal_frame_ok)
  show "seal_frame P k n m = Ok c \<Longrightarrow> length c = length m + 32"
    using ok by (auto simp: seal_frame_Ok_iff nonce_ok_def size_defs)
  show "open_frame P k c = Ok m \<longleftrightarrow> (\<exists>n. nonce_ok n \<and> seal_frame P k n m = Ok c)"
    using ok by (simp add: open_frame_Ok_iff seal_frame_Ok_iff)
qed

lemma open_frame_no_panic: "key_ok k \<Longrightarrow> 16 \<le> length buf \<Longrightarrow> \<not> is_panic (open_frame P k buf)"
  by (simp add: open_frame_eq Open_no_panic key_ok_simps size_defs)

section \<open>A concrete instance of the primitives\<close>

text \<open>Functions with the lengths the primitives have, and a usable key, for concrete evaluations.\<close>

definition toy_prims :: prims where
  "toy_prims =
     \<lparr>aes_Encrypt = (\<lambda>k b. take 16 (map2 (XOR) b k @ replicate 16 0)),
      poly1305_Sum = (\<lambda>k m. take 16 (m @ replicate 16 0)),
      sha256_Sum = (\<lambda>m. take 32 (m @ replicate 32 0))\<rparr>"

definition toy_key :: Key where
  "toy_key =
     \<lparr>kMAC = \<lparr>macK = replicate 16 1, macR = replicate 16 1, masked = False\<rparr>, kEnc = replicate 32 1\<rparr>"

lemma toy_prims_ok: "prims_ok toy_prims"
  by (auto simp: prims_ok_def toy_prims_def)

lemma toy_key_ok: "key_ok toy_key"
  by code_simp

section \<open>Properties\<close>

text \<open>C14: \<open>Open\<close> is the exact inverse of \<open>Seal\<close>: with a usable key and nonce, \<open>Open\<close> returns the
  plaintext \<open>m\<close> for the ciphertext \<open>c\<close> if and only if \<open>Seal\<close> of \<open>m\<close> is \<open>c\<close>, so every ciphertext that
  \<open>Seal\<close> did not produce is rejected with an error.\<close>

theorem Open_inverts_Seal:
  assumes "prims_ok P" "key_ok k" "nonce_ok n"
  shows "(snd (Key_Open P k [] n c) = Ok m \<longleftrightarrow> snd (Key_Seal P k [] n m []) = Ok c) \<and>
    \<not> is_panic (snd (Key_Open P k [] n c)) \<and> \<not> is_panic (snd (Key_Seal P k [] n m []))"
  using assms Open_Ok_iff [OF assms] Open_no_panic [of k n P "[]" c] key_ok_simps [of k]
  by (auto simp: Seal_ok nonce_ok_def)

theorem Open_inverts_Seal_witness:
  "snd (Key_Open toy_prims toy_key [] (replicate 16 1)
     (seal_bytes toy_prims toy_key (replicate 16 1) [7, 8])) = Ok [7, 8]"
proof -
  have n: "nonce_ok (replicate 16 1)" by code_simp
  show ?thesis
    using Open_inverts_Seal [OF toy_prims_ok toy_key_ok n, of "seal_bytes toy_prims toy_key (replicate 16 1) [7, 8]" "[7, 8]"]
    by (simp add: Seal_ok toy_key_ok n)
qed

text \<open>C17: \<open>Encrypt\<close> followed by \<open>Decrypt\<close> gives the data back, the ciphertext is 32 bytes longer than
  the data; and \<open>Decrypt\<close> panics exactly on input that is shorter than a nonce.\<close>

theorem Decrypt_Encrypt:
  assumes "prims_ok P" "key_ok k"
  shows "(Key_Encrypt P k r d = Ok c \<longrightarrow> length c = length d + Extension \<and> Key_Decrypt P k (Ok c) = Ok d) \<and>
    (is_panic (Key_Decrypt P k (Ok buf)) \<longleftrightarrow> length buf < ivSize)"
proof (intro conjI impI)
  assume "Key_Encrypt P k r d = Ok c"
  then obtain n where "seal_frame P k n d = Ok c" "nonce_ok n"
    using assms(2) by (auto simp: Key_Encrypt_def res_simps seal_frame_def simp flip: seal_frame_Ok_iff)
      (metis seal_frame_Ok_iff seal_frame_def)
  then show "length c = length d + Extension" "Key_Decrypt P k (Ok c) = Ok d"
    using assms frames.seal_length [of P k n d c] frames.open_seal [of P k n d c]
    by (auto simp: size_defs Key_Decrypt_def open_frame_def res_simps split: res.splits)
next
  show "is_panic (Key_Decrypt P k (Ok buf)) \<longleftrightarrow> length buf < ivSize"
    using open_frame_no_panic [OF assms(2), of buf P]
    by (auto simp: Key_Decrypt_def open_frame_def res_simps size_defs not_less slice_to_def slice_def
        split: res.splits)
qed

theorem Decrypt_Encrypt_witness:
  "is_panic (Key_Decrypt toy_prims toy_key (Ok [1, 2, 3])) \<and>
    Key_Decrypt toy_prims toy_key (Key_Encrypt toy_prims toy_key (Some (replicate 16 1)) [5]) = Ok [5]"
proof -
  have "is_ok (Key_Encrypt toy_prims toy_key (Some (replicate 16 1)) [5])" by code_simp
  then obtain c where "Key_Encrypt toy_prims toy_key (Some (replicate 16 1)) [5] = Ok c"
    by (auto simp: is_ok_iff)
  then show ?thesis
    using Decrypt_Encrypt [OF toy_prims_ok toy_key_ok, of "Some (replicate 16 1)" "[5]" c "[1, 2, 3]"]
    by (simp add: size_defs)
qed

end
