(* ===== verification/IO.thy ===== *)
theory IO
  imports Crypto
begin

text \<open>
  The I/O interfaces the program builds on, as contracts, and \<open>internal/hashing/writer.go\<close>.

  \<open>io_writer\<close> is \<open>io.Writer\<close>, \<open>reader_at\<close> is \<open>io.ReaderAt\<close>, each with the behaviour its
  documentation promises. A temporary file is the list of its bytes; whether a write to it fails is
  decided by an arbitrary function of its contents and of the data (\<open>fault\<close>), so that statements
  over it cover every pattern of failures.
\<close>

section \<open>Writers\<close>

text \<open>
  \<open>io.Writer\<close>: \<open>Write\<close> returns how many bytes it wrote, never more than it was given, and a non-nil
  error if fewer.
\<close>

locale io_writer =
  fixes wr :: "'w \<Rightarrow> bytes \<Rightarrow> 'w \<times> nat \<times> error option"
    and contents :: "'w \<Rightarrow> bytes"
  assumes write_le: "wr w d = (w', n, eo) \<Longrightarrow> n \<le> length d"
    and write_contents: "wr w d = (w', n, eo) \<Longrightarrow> contents w' = contents w @ take n d"
    and write_all: "wr w d = (w', n, None) \<Longrightarrow> n = length d"
begin

lemma write_ok: "wr w d = (w', n, None) \<Longrightarrow> n = length d \<and> contents w' = contents w @ d"
  using write_all write_contents by fastforce

end

text \<open>A temporary file opened for writing: \<open>fault\<close> may stop a write after some bytes.\<close>

definition file_Write ::
  "(bytes \<Rightarrow> bytes \<Rightarrow> (nat \<times> error) option) \<Rightarrow> bytes \<Rightarrow> bytes \<Rightarrow> bytes \<times> nat \<times> error option" where
  "file_Write fault f d =
     (case fault f d of
        None \<Rightarrow> (f @ d, length d, None)
      | Some (n, e) \<Rightarrow> (f @ take n d, min n (length d), Some e))"

text \<open>
  \<open>hashing.Writer\<close>: writes to the underlying writer and feeds what was written to the hash. A
  \<open>hash.Hash\<close> is the data written to it so far; its \<open>Write\<close> never fails.
\<close>

record 'w Writer =
  hw_w :: 'w
  hw_h :: bytes

definition NewWriter :: "'w \<Rightarrow> 'w Writer" where
  "NewWriter w = \<lparr>hw_w = w, hw_h = []\<rparr>"

definition Writer_Write ::
  "('w \<Rightarrow> bytes \<Rightarrow> 'w \<times> nat \<times> error option) \<Rightarrow> 'w Writer \<Rightarrow> bytes \<Rightarrow>
    'w Writer \<times> nat \<times> error option" where
  "Writer_Write wr h p =
     (let (w', n, err) = wr (hw_w h) p
      in (h\<lparr>hw_w := w', hw_h := hw_h h @ take n p\<rparr>, n, err))"

definition Writer_Sum :: "(bytes \<Rightarrow> bytes) \<Rightarrow> 'w Writer \<Rightarrow> bytes \<Rightarrow> bytes" where
  "Writer_Sum hash h d = d @ hash (hw_h h)"

section \<open>Readers\<close>

text \<open>
  \<open>io.ReaderAt\<close>: \<open>ReadAt\<close> with a nil error has filled the buffer with the bytes at the offset. The
  result is the buffer's contents after the call.
\<close>

locale reader_at =
  fixes rd :: "'r \<Rightarrow> int \<Rightarrow> nat \<Rightarrow> bytes res"
    and content :: "'r \<Rightarrow> bytes"
  assumes rd_ok: "rd r off n = Ok b \<Longrightarrow> 0 \<le> off \<and> length b = n \<and> b = take n (drop (nat off) (content r))"
    and rd_no_panic: "\<not> is_panic (rd r off n)"
begin

lemma rd_length: "rd r off n = Ok b \<Longrightarrow> length b = n"
  using rd_ok by blast

lemma rd_in_file: "rd r off n = Ok b \<Longrightarrow> nat off + n \<le> length (content r) \<or> n = 0"
  using rd_ok [of r off n b] by (auto dest!: arg_cong [where f = length])

end

text \<open>\<open>os.File.ReadAt\<close> and \<open>bytes.Reader.ReadAt\<close> over the contents of the file.\<close>

definition bytes_ReadAt :: "bytes \<Rightarrow> int \<Rightarrow> nat \<Rightarrow> bytes res" where
  "bytes_ReadAt f off n =
     (if off < 0 then Err (ErrOther ''negative offset'')
      else if nat off + n \<le> length f then Ok (take n (drop (nat off) f))
      else Err ErrEOF)"

section \<open>Lemmas\<close>

interpretation tmpfile: io_writer "file_Write fault" "\<lambda>f. f" for fault
  by unfold_locales (auto simp: file_Write_def min_def split: option.splits prod.splits)

lemma io_writer_Writer:
  assumes "io_writer wr contents"
  shows "io_writer (Writer_Write wr) (\<lambda>h. contents (hw_w h))"
proof
  fix w d w' n eo
  assume W: "Writer_Write wr w d = (w', n, eo)"
  then obtain v where v: "wr (hw_w w) d = (v, n, eo)" "hw_w w' = v"
    by (auto simp: Writer_Write_def Let_def split: prod.splits)
  show "n \<le> length d" using io_writer.write_le [OF assms v(1)] .
  show "contents (hw_w w') = contents (hw_w w) @ take n d"
    using io_writer.write_contents [OF assms v(1)] v(2) by simp
next
  fix w d w' n
  assume "Writer_Write wr w d = (w', n, None)"
  then obtain v where "wr (hw_w w) d = (v, n, None)"
    by (auto simp: Writer_Write_def Let_def split: prod.splits)
  then show "n = length d" by (rule io_writer.write_all [OF assms])
qed

interpretation hashed_tmpfile: io_writer "Writer_Write (file_Write fault)" hw_w for fault
  by (rule io_writer_Writer [OF tmpfile.io_writer_axioms])

text \<open>The hash has seen exactly the bytes in the file.\<close>

lemma Writer_Write_hash:
  assumes "io_writer wr contents" "contents (hw_w h) = hw_h h" "Writer_Write wr h p = (h', n, eo)"
  shows "contents (hw_w h') = hw_h h'"
proof -
  from assms(3) obtain v where v: "wr (hw_w h) p = (v, n, eo)"
    and h': "h' = h\<lparr>hw_w := v, hw_h := hw_h h @ take n p\<rparr>"
    by (auto simp: Writer_Write_def Let_def split: prod.splits)
  show ?thesis using io_writer.write_contents [OF assms(1) v] assms(2) by (simp add: h')
qed

interpretation osfile: reader_at bytes_ReadAt "\<lambda>f. f"
  by unfold_locales (auto simp: bytes_ReadAt_def split: if_splits)

lemma bytes_ReadAt_at:
  "bytes_ReadAt (xs @ ys @ zs) (int (length xs)) (length ys) = Ok ys"
  by (simp add: bytes_ReadAt_def)

end
