(* ===== verification/Pack.thy ===== *)
theory Pack
  imports IO
begin

text \<open>
  Pack files: \<open>pack/pack.go\<close>.

  A \<open>Packer\<close> writes blobs one after the other to a writer and, when finalized, an encrypted header
  with one entry per blob and the header's length. \<open>List\<close> reads the header back, in one or two
  reads from the end of the file. The writer and its \<open>Write\<close>, and the \<open>ReadAt\<close> of the reader, are
  arguments.

  The lemmas show that the header survives the round trip, that \<open>List\<close> returns for a finished pack
  exactly the blobs that were added, each with the offset at which its bytes are found, and that
  \<open>List\<close> does not panic on any input.
\<close>

section \<open>Writing a pack\<close>

record 'w Packer =
  pkBlobs :: "Blob list"
  pkBytes :: uint
  pkKey :: Key
  pkWr :: 'w

definition NewPacker :: "Key \<Rightarrow> 'w \<Rightarrow> 'w Packer" where
  "NewPacker k wr = \<lparr>pkBlobs = [], pkBytes = 0, pkKey = k, pkWr = wr\<rparr>"

definition Packer_Add ::
  "('w \<Rightarrow> bytes \<Rightarrow> 'w \<times> nat \<times> error option) \<Rightarrow> 'w Packer \<Rightarrow> BlobType \<Rightarrow> ID \<Rightarrow> bytes \<Rightarrow>
    'w Packer \<times> nat \<times> error option" where
  "Packer_Add write p t i data =
     (let (wr', n, err) = write (pkWr p) data;
          c = \<lparr>bID = i, bType = t, bLength = of_nat n, bOffset = pkBytes p\<rparr>
      in (p\<lparr>pkWr := wr', pkBytes := pkBytes p + of_nat n, pkBlobs := pkBlobs p @ [c]\<rparr>,
          n, wrap_err err ''Write''))"

definition headerLengthSize :: nat where
  "headerLengthSize = 4"

definition EntrySize :: nat where
  "EntrySize = 1 + headerLengthSize + idSize"

text \<open>
  \<open>makeHeader\<close>: per blob one byte for the type, four for the length (cut to 32 bits) and the ID.
\<close>

primrec makeHeader_loop :: "Blob list \<Rightarrow> bytes \<Rightarrow> bytes res" where
  "makeHeader_loop [] buf = Ok buf"
| "makeHeader_loop (b # bs) buf =
     (case bType b of
        DataBlob \<Rightarrow> makeHeader_loop bs (buf @ [0] @ put_le32 (ucast (bLength b)) @ bID b)
      | TreeBlob \<Rightarrow> makeHeader_loop bs (buf @ [1] @ put_le32 (ucast (bLength b)) @ bID b)
      | InvalidBlob \<Rightarrow> Err (Errorf ''invalid blob type %v''))"

definition Packer_makeHeader :: "'w Packer \<Rightarrow> bytes res" where
  "Packer_makeHeader p = makeHeader_loop (pkBlobs p) []"

text \<open>
  \<open>Finalize\<close>: the packer after the call (the writer may have been written to before an error) and
  the number of bytes of the whole pack. \<open>r\<close> is what the random source yields for the nonce.
\<close>

definition Packer_Finalize ::
  "prims \<Rightarrow> ('w \<Rightarrow> bytes \<Rightarrow> 'w \<times> nat \<times> error option) \<Rightarrow> bytes option \<Rightarrow> 'w Packer \<Rightarrow>
    'w Packer \<times> uint res" where
  "Packer_Finalize P write r p =
     (let bytesWritten = pkBytes p in
      case Packer_makeHeader p of
        Err e \<Rightarrow> (p, Err e)
      | Panic m \<Rightarrow> (p, Panic m)
      | Ok header \<Rightarrow>
        (case NewRandomNonce r of
           Err e \<Rightarrow> (p, Err e)
         | Panic m \<Rightarrow> (p, Panic m)
         | Ok nonce \<Rightarrow>
           (case Key_Seal P (pkKey p) nonce nonce header [] of
              (k', Err e) \<Rightarrow> (p\<lparr>pkKey := k'\<rparr>, Err e)
            | (k', Panic m) \<Rightarrow> (p\<lparr>pkKey := k'\<rparr>, Panic m)
            | (k', Ok encryptedHeader) \<Rightarrow>
              (let (wr1, n, err) = write (pkWr p) encryptedHeader;
                   p1 = p\<lparr>pkKey := k', pkWr := wr1\<rparr> in
               case err of
                 Some e \<Rightarrow> (p1, Err (Wrap e ''Write''))
               | None \<Rightarrow>
                 (let hdrBytes = CiphertextLength (int (length header)) in
                  if int n \<noteq> hdrBytes then (p1, Err (Errorf ''wrong number of bytes written''))
                  else
                    (let bytesWritten1 = bytesWritten + word_of_int hdrBytes;
                         hlen = word_of_int
                           (CiphertextLength (int (length (pkBlobs p)) * int EntrySize)) :: uint32;
                         (wr2, n2, err2) = write wr1 (put_le32 hlen);
                         p2 = p1\<lparr>pkWr := wr2\<rparr> in
                     case err2 of
                       Some e \<Rightarrow> (p2, Err (Wrap e ''binary.Write''))
                     | None \<Rightarrow>
                       (let bytesWritten2 = bytesWritten1 + 4
                        in (p2\<lparr>pkBytes := bytesWritten2\<rparr>, Ok bytesWritten2))))))))"

definition Packer_Size :: "'w Packer \<Rightarrow> uint" where
  "Packer_Size p = pkBytes p"

definition Packer_Count :: "'w Packer \<Rightarrow> nat" where
  "Packer_Count p = length (pkBlobs p)"

definition Packer_Blobs :: "'w Packer \<Rightarrow> Blob list" where
  "Packer_Blobs p = pkBlobs p"

section \<open>Reading a pack\<close>

definition minFileSize :: nat where
  "minFileSize = EntrySize + Extension + headerLengthSize"

definition HeaderSize :: nat where
  "HeaderSize = headerLengthSize + Extension"

definition maxHeaderSize :: int where
  "maxHeaderSize = 16 * 1024 * 1024"

definition eagerEntries :: int where
  "eagerEntries = 15"

text \<open>The \<open>switch\<close> of \<open>readRecords\<close> on the header length, in its order.\<close>

definition header_length_error :: "uint32 \<Rightarrow> int \<Rightarrow> error option" where
  "header_length_error hlen sz =
     (if hlen = 0 then Some (InvalidFileError ''header length is zero'')
      else if hlen < of_nat Extension then Some (InvalidFileError ''header length is too small'')
      else if (hlen - of_nat Extension) mod of_nat EntrySize \<noteq> 0
        then Some (InvalidFileError ''header length is invalid'')
      else if uint hlen > sz - int headerLengthSize
        then Some (InvalidFileError ''header is larger than file'')
      else if uint hlen > maxHeaderSize
        then Some (InvalidFileError ''header is larger than maxHeaderSize'')
      else None)"

text \<open>\<open>readRecords\<close>: \<open>rd off n\<close> is \<open>rd.ReadAt\<close> into a buffer of \<open>n\<close> bytes at \<open>off\<close>.\<close>

definition readRecords :: "(int \<Rightarrow> nat \<Rightarrow> bytes res) \<Rightarrow> int \<Rightarrow> int \<Rightarrow> (bytes \<times> int) res" where
  "readRecords rd sz mx =
     (let bufsize0 = mx * int EntrySize + int Extension + int headerLengthSize;
          bufsize = (if bufsize0 > sz then sz else bufsize0) in
      if bufsize < 0 then Panic ''makeslice: len out of range''
      else
        (let off = sz - bufsize in
         bind_r (rd off (nat bufsize)) (\<lambda>b.
         bind_r (slice_from b (int (length b) - int headerLengthSize)) (\<lambda>hl.
         bind_r (slice_to b (int (length b) - int headerLengthSize)) (\<lambda>b1.
           (let hlen = get_le32 hl in
            case header_length_error hlen sz of
              Some e \<Rightarrow> Err (Wrap e ''readHeader'')
            | None \<Rightarrow>
              (let total = (uint hlen - int Extension) div int EntrySize in
               if total < mx
               then bind_r (slice_from b1 (int (length b1) - uint hlen)) (\<lambda>b2. Ok (b2, total))
               else Ok (b1, total))))))))"

definition readHeader :: "(int \<Rightarrow> nat \<Rightarrow> bytes res) \<Rightarrow> int \<Rightarrow> bytes res" where
  "readHeader rd sz =
     (if sz < int minFileSize then Err (Wrap (InvalidFileError ''file is too small'') ''readHeader'')
      else
        bind_r (readRecords rd sz eagerEntries) (\<lambda>(b, c).
          if c \<le> eagerEntries then Ok b
          else bind_r (readRecords rd sz c) (\<lambda>(b', _). Ok b')))"

definition parseHeaderEntry :: "bytes \<Rightarrow> Blob res" where
  "parseHeaderEntry p0 =
     (if length p0 < EntrySize
      then Err (Errorf ''parseHeaderEntry: buffer of size %d too short'')
      else
        (let p = take EntrySize p0;
             fields = (\<lambda>t. \<lparr>bID = copy_to nullID (drop 5 p), bType = t,
                           bLength = ucast (get_le32 (take 4 (drop 1 p))), bOffset = 0\<rparr>) in
         if p ! 0 = 0 then Ok (fields DataBlob)
         else if p ! 0 = 1 then Ok (fields TreeBlob)
         else Err (Errorf ''invalid type %d'')))"

text \<open>The loop of \<open>List\<close>.\<close>

function list_loop :: "bytes \<Rightarrow> uint \<Rightarrow> Blob list \<Rightarrow> Blob list res" where
  "list_loop buf pos entries =
     (if buf = [] then Ok entries
      else
        bind_r (parseHeaderEntry buf) (\<lambda>entry.
        bind_r (slice_from buf (int EntrySize)) (\<lambda>buf'.
          list_loop buf' (pos + bLength entry) (entries @ [entry\<lparr>bOffset := pos\<rparr>]))))"
  by pat_completeness auto
termination
  by (relation "measure (\<lambda>(buf, _, _). length buf)")
    (auto simp: slice_from_def slice_def EntrySize_def split: if_splits)

definition List :: "prims \<Rightarrow> Key \<Rightarrow> (int \<Rightarrow> nat \<Rightarrow> bytes res) \<Rightarrow> int \<Rightarrow> (Blob list \<times> uint32) res" where
  "List P k rd sz =
     bind_r (readHeader rd sz) (\<lambda>buf.
       if length buf < Key_NonceSize k + Key_Overhead k
       then Err (Errorf ''invalid header, too small'')
       else
         (let hdrSize = of_nat headerLengthSize + of_nat (length buf) in
          bind_r (slice_to buf (int (Key_NonceSize k))) (\<lambda>nonce.
          bind_r (slice_from buf (int (Key_NonceSize k))) (\<lambda>buf1.
          bind_r (snd (Key_Open P k [] nonce buf1)) (\<lambda>buf2.
          bind_r (list_loop buf2 0 []) (\<lambda>entries.
            Ok (entries, hdrSize)))))))"

definition PackedSizeOfBlob :: "uint \<Rightarrow> uint" where
  "PackedSizeOfBlob blobLength = blobLength + of_nat EntrySize"

declare list_loop.simps [simp del]

section \<open>Lemmas: the header\<close>

lemmas pack_size_defs = size_defs EntrySize_def headerLengthSize_def minFileSize_def HeaderSize_def
  maxHeaderSize_def eagerEntries_def CiphertextLength_def

text \<open>The bytes of one header entry, and the blobs with the offsets of consecutive storage.\<close>

definition entry_bytes :: "Blob \<Rightarrow> bytes" where
  "entry_bytes b = (if bType b = DataBlob then 0 else 1) # put_le32 (ucast (bLength b)) @ bID b"

primrec with_offsets :: "uint \<Rightarrow> Blob list \<Rightarrow> Blob list" where
  "with_offsets pos [] = []"
| "with_offsets pos (b # bs) = b\<lparr>bOffset := pos\<rparr> # with_offsets (pos + bLength b) bs"

text \<open>A blob the header can represent: a real type, an ID of 32 bytes, a length of 32 bits.\<close>

definition packable :: "Blob \<Rightarrow> bool" where
  "packable b \<longleftrightarrow> bType b \<noteq> InvalidBlob \<and> is_ID (bID b) \<and> unat (bLength b) < 2 ^ 32"

lemma length_entry_bytes: "is_ID (bID b) \<Longrightarrow> length (entry_bytes b) = EntrySize"
  by (simp add: entry_bytes_def is_ID_def pack_size_defs)

lemma makeHeader_loop_ok:
  "\<forall>b \<in> set bs. bType b \<noteq> InvalidBlob \<Longrightarrow>
    makeHeader_loop bs buf = Ok (buf @ concat (map entry_bytes bs))"
  by (induction bs arbitrary: buf) (auto simp: entry_bytes_def split: BlobType.splits)

lemma makeHeader_loop_err:
  "b \<in> set bs \<Longrightarrow> bType b = InvalidBlob \<Longrightarrow>
    makeHeader_loop bs buf = Err (Errorf ''invalid blob type %v'')"
  by (induction bs arbitrary: buf) (auto split: BlobType.splits)

lemma length_header:
  "\<forall>b \<in> set bs. is_ID (bID b) \<Longrightarrow>
    length (concat (map entry_bytes bs)) = length bs * EntrySize"
  by (induction bs) (auto simp: length_entry_bytes)

lemma parseHeaderEntry_entry:
  assumes "packable b"
  shows "parseHeaderEntry (entry_bytes b @ rest) = Ok (b\<lparr>bOffset := 0\<rparr>)"
proof -
  have l: "length (entry_bytes b) = EntrySize" and i: "length (bID b) = idSize"
    using assms by (simp_all add: packable_def length_entry_bytes is_ID_def)
  have u: "ucast (ucast (bLength b) :: uint32) = bLength b"
    using assms by (simp add: packable_def ucast_ucast_small)
  have t: "take EntrySize (entry_bytes b @ rest) = entry_bytes b" using l by simp
  have f: "drop 5 (entry_bytes b) = bID b"
    "take 4 (drop 1 (entry_bytes b)) = put_le32 (ucast (bLength b))"
    "entry_bytes b ! 0 = (if bType b = DataBlob then 0 else 1)"
    using l by (simp_all add: entry_bytes_def)
  have "bType b = DataBlob \<or> bType b = TreeBlob"
    using assms by (cases "bType b") (simp_all add: packable_def)
  then show ?thesis
    using l i u unfolding parseHeaderEntry_def Let_def t f by (auto simp: copy_to_full)
qed

lemma list_loop_Nil [simp]: "list_loop [] pos acc = Ok acc"
  by (simp add: list_loop.simps)

lemma list_loop_header:
  "\<forall>b \<in> set bs. packable b \<Longrightarrow>
    list_loop (concat (map entry_bytes bs)) pos acc = Ok (acc @ with_offsets pos bs)"
proof (induction bs arbitrary: pos acc)
  case (Cons b bs)
  then have b: "packable b" by simp
  then have l: "length (entry_bytes b) = EntrySize" by (simp add: packable_def length_entry_bytes)
  let ?r = "concat (map entry_bytes bs)"
  have ne: "entry_bytes b @ ?r \<noteq> []" by (simp add: entry_bytes_def)
  have "slice_from (entry_bytes b @ ?r) (int EntrySize) = Ok ?r"
    using l by (simp add: slice_from_eq)
  with b ne have "list_loop (entry_bytes b @ ?r) pos acc =
      list_loop ?r (pos + bLength b) (acc @ [b\<lparr>bOffset := pos\<rparr>])"
    by (subst list_loop.simps, simp only: if_False) (simp add: parseHeaderEntry_entry)
  with Cons show ?case by simp
qed simp

lemma parseHeaderEntry_no_panic: "\<not> is_panic (parseHeaderEntry b)"
  by (simp add: parseHeaderEntry_def Let_def)

lemma parseHeaderEntry_long: "parseHeaderEntry b = Ok e \<Longrightarrow> EntrySize \<le> length b"
  by (auto simp: parseHeaderEntry_def split: if_splits)

lemma list_loop_no_panic: "\<not> is_panic (list_loop buf pos acc)"
proof (induction buf pos acc rule: list_loop.induct)
  case (1 buf pos acc)
  show ?case
  proof (cases "buf = []")
    case False
    with 1 show ?thesis
      by (subst list_loop.simps)
        (auto simp: res_simps parseHeaderEntry_no_panic slice_from_eq dest: parseHeaderEntry_long)
  qed simp
qed

lemma parseHeaderEntry_packable: "parseHeaderEntry b = Ok e \<Longrightarrow> packable (e\<lparr>bOffset := pos\<rparr>)"
  using unat_ucast_32_64 by (auto simp: parseHeaderEntry_def Let_def packable_def is_ID_def split: if_splits)

lemma list_loop_wellformed:
  "list_loop buf pos acc = Ok r \<Longrightarrow> \<exists>bs. r = acc @ bs \<and> list_all packable bs \<and> with_offsets pos bs = bs"
proof (induction buf pos acc arbitrary: r rule: list_loop.induct)
  case (1 buf pos acc)
  show ?case
  proof (cases "buf = []")
    case False
    then obtain e buf' where e: "parseHeaderEntry buf = Ok e" "slice_from buf (int EntrySize) = Ok buf'"
      and r: "list_loop buf' (pos + bLength e) (acc @ [e\<lparr>bOffset := pos\<rparr>]) = Ok r"
      using "1.prems" by (subst (asm) list_loop.simps) (auto simp: res_simps)
    obtain bs where "r = (acc @ [e\<lparr>bOffset := pos\<rparr>]) @ bs" "list_all packable bs"
      "with_offsets (pos + bLength e) bs = bs"
      using "1.IH" [OF False e r] by blast
    then show ?thesis
      using parseHeaderEntry_packable [OF e(1)]
      by (intro exI [of _ "e\<lparr>bOffset := pos\<rparr> # bs"]) simp
  qed (use "1.prems" in simp)
qed

section \<open>Lemmas: reading the header\<close>

lemma Extension_32 [simp]: "Extension = 32" and EntrySize_37 [simp]: "EntrySize = 37"
  by (simp_all add: pack_size_defs)

lemma header_length_None:
  "header_length_error hlen sz = None \<longleftrightarrow>
    32 \<le> uint hlen \<and> (uint hlen - 32) mod 37 = 0 \<and> uint hlen \<le> sz - 4 \<and> uint hlen \<le> maxHeaderSize"
proof (cases "32 \<le> uint hlen")
  case True
  then have le: "(32 :: uint32) \<le> hlen" by (simp add: word_le_def)
  have "uint ((hlen - 32) mod 37) = (uint hlen - 32) mod 37"
    using True by (simp add: uint_mod_distrib uint_sub_lem [THEN iffD1] word_le_def)
  then have "(hlen - 32) mod 37 = 0 \<longleftrightarrow> (uint hlen - 32) mod 37 = 0"
    by (metis uint_0_iff)
  moreover have "hlen \<noteq> 0" using True by auto
  moreover have "\<not> hlen < 32" using le by simp
  ultimately show ?thesis using True
    by (auto simp: header_length_error_def headerLengthSize_def)
next
  case False
  then have "hlen < 32" by (simp add: word_less_def)
  with False show ?thesis by (auto simp: header_length_error_def)
qed

lemma mod37_eq:
  assumes "(x - 32) mod 37 = (0::int)" shows "x = 32 + 37 * ((x - 32) div 37)"
  using assms by presburger

text \<open>\<open>readRecords\<close> without its bounds checks, which all succeed.\<close>

lemma readRecords_eq:
  assumes len: "\<forall>off n b. rd off n = Ok b \<longrightarrow> length b = n" and "4 \<le> sz" "0 \<le> mx"
  shows "readRecords rd sz mx =
    (let bs = min sz (mx * 37 + 36) in
     bind_r (rd (sz - bs) (nat bs)) (\<lambda>b.
       (let hlen = get_le32 (drop (length b - 4) b); b1 = take (length b - 4) b;
            total = (uint hlen - 32) div 37 in
        case header_length_error hlen sz of
          Some e \<Rightarrow> Err (Wrap e ''readHeader'')
        | None \<Rightarrow> Ok (if total < mx then drop (length b1 - unat hlen) b1 else b1, total))))"
proof -
  define bs where "bs = min sz (mx * 37 + 36)"
  have bs: "(if mx * int EntrySize + int Extension + int headerLengthSize > sz then sz
      else mx * int EntrySize + int Extension + int headerLengthSize) = bs"
    by (simp add: bs_def headerLengthSize_def)
  have ge: "4 \<le> bs" using assms(2,3) by (simp add: bs_def)
  have cut: "bind_r (slice_from b1 (int (length b1) - uint hlen)) (\<lambda>b2. Ok (b2, t)) =
      Ok (drop (length b1 - unat hlen) b1, t)"
    if "header_length_error hlen sz = None" "(uint hlen - 32) div 37 < mx"
      "int (length b1) = bs - 4" for hlen :: uint32 and b1 :: bytes and t :: int
  proof -
    from that(1) have h: "32 \<le> uint hlen" "(uint hlen - 32) mod 37 = 0" "uint hlen \<le> sz - 4"
      by (auto simp: header_length_None)
    have "uint hlen \<le> int (length b1)"
      using that(2,3) h mod37_eq [OF h(2)] by (auto simp: bs_def min_def split: if_splits)
    then show ?thesis by (simp add: slice_from_eq nat_diff_distrib)
  qed
  show ?thesis
  proof (cases "rd (sz - bs) (nat bs)")
    case (Ok b)
    have l: "int (length b) = bs" using len Ok ge by auto
    then have "4 \<le> length b" using ge by linarith
    then have sl: "slice_from b (int (length b) - 4) = Ok (drop (length b - 4) b)"
      "slice_to b (int (length b) - 4) = Ok (take (length b - 4) b)"
      by (simp_all add: slice_from_eq slice_to_eq nat_diff_distrib)
    have l1: "int (length (take (length b - 4) b)) = bs - 4" using l \<open>4 \<le> length b\<close> by simp
    show ?thesis
      unfolding readRecords_def Let_def bs
      using Ok ge sl cut [OF _ _ l1]
      by (simp add: bs_def [symmetric] headerLengthSize_def split: option.split)
  qed (use ge in \<open>simp_all add: readRecords_def Let_def bs bs_def [symmetric]
      del: Extension_32 EntrySize_37\<close>)
qed

lemma readRecords_no_panic:
  assumes "\<forall>off n b. rd off n = Ok b \<longrightarrow> length b = n" "\<forall>off n. \<not> is_panic (rd off n)"
    "4 \<le> sz" "0 \<le> mx"
  shows "\<not> is_panic (readRecords rd sz mx)"
  using assms(2) by (auto simp: readRecords_eq [OF assms(1,3,4)] Let_def res_simps split: option.split)

lemma readHeader_no_panic:
  assumes "\<forall>off n b. rd off n = Ok b \<longrightarrow> length b = n" "\<forall>off n. \<not> is_panic (rd off n)"
  shows "\<not> is_panic (readHeader rd sz)"
proof (cases "sz < int minFileSize")
  case False
  then have "4 \<le> sz" by (simp add: pack_size_defs)
  then have "\<And>mx. 0 \<le> mx \<Longrightarrow> \<not> is_panic (readRecords rd sz mx)"
    using readRecords_no_panic assms by blast
  with False show ?thesis
    by (auto simp: readHeader_def res_simps eagerEntries_def)
qed (simp add: readHeader_def)

lemma List_no_panic:
  assumes "\<forall>off n b. rd off n = Ok b \<longrightarrow> length b = n" "\<forall>off n. \<not> is_panic (rd off n)"
    and "aes_key_size (kEnc k)"
  shows "\<not> is_panic (List P k rd sz)"
  using readHeader_no_panic [OF assms(1,2)] assms(3)
  by (auto simp: List_def res_simps Let_def slice_to_eq slice_from_eq list_loop_no_panic
      Open_no_panic Key_NonceSize_def Key_Overhead_def ivSize_def macSize_def)

section \<open>Lemmas: reading back a finished pack\<close>

text \<open>A reader that serves the bytes of a file \<open>f\<close>.\<close>

definition serves :: "(int \<Rightarrow> nat \<Rightarrow> bytes res) \<Rightarrow> bytes \<Rightarrow> bool" where
  "serves rd f \<longleftrightarrow>
     (\<forall>off n. 0 \<le> off \<longrightarrow> nat off + n \<le> length f \<longrightarrow> rd off n = Ok (take n (drop (nat off) f))) \<and>
     (\<forall>off n b. rd off n = Ok b \<longrightarrow> length b = n)"

lemma serves_bytes_ReadAt: "serves (bytes_ReadAt f) f"
  by (auto simp: serves_def bytes_ReadAt_def split: if_splits)

lemma split_tail:
  "length t = k \<Longrightarrow> drop (length (xs @ t) - k) (xs @ t) = t \<and> take (length (xs @ t) - k) (xs @ t) = xs"
  by simp

lemma readRecords_file:
  assumes f: "f = body @ hdr @ put_le32 (word_of_nat (length hdr))"
    and rd: "serves rd f" and hdr: "length hdr = 32 + 37 * n" "int (length hdr) \<le> maxHeaderSize"
    and mx: "0 \<le> mx"
  shows "\<exists>b. readRecords rd (int (length f)) mx = Ok (b, int n) \<and> (int n \<le> mx \<longrightarrow> b = hdr)"
proof -
  define sz where "sz = int (length f)"
  define bs where "bs = min sz (mx * 37 + 36)"
  define hlen where "hlen = (word_of_nat (length hdr) :: uint32)"
  have lenb: "\<forall>off n b. rd off n = Ok b \<longrightarrow> length b = n" using rd unfolding serves_def by blast
  have sz4: "sz = int (length body) + int (length hdr) + 4" by (simp add: sz_def f)
  have bs4: "4 \<le> bs" "bs \<le> sz" using mx sz4 by (simp_all add: bs_def)
  have uh: "uint hlen = int (length hdr)"
    using hdr(2) by (simp add: hlen_def maxHeaderSize_def uint_word_of_int take_bit_int_eq_self
        unsigned_of_nat take_bit_nat_eq_self)
  then have unh: "unat hlen = length hdr" by (metis nat_int uint_nat)
  let ?b = "drop (length f - nat bs) f"
  have rdb: "rd (sz - bs) (nat bs) = Ok ?b"
    using rd bs4 by (simp add: serves_def sz_def nat_diff_distrib)
  have lb: "length ?b = nat bs" using bs4 by (simp add: sz_def)
  have k4: "4 \<le> nat bs" "nat bs \<le> length f" using bs4 by (simp_all add: sz_def)
  let ?m = "body @ hdr"
  have f': "f = ?m @ put_le32 hlen" by (simp add: f hlen_def)
  have b: "?b = drop (length ?m - (nat bs - 4)) ?m @ put_le32 hlen"
  proof -
    have e: "length f - nat bs = length ?m - (nat bs - 4)" using k4 by (simp add: f')
    show ?thesis unfolding e by (subst f') (simp only: drop_append, simp)
  qed
  let ?b1 = "drop (length ?m - (nat bs - 4)) ?m"
  have parts: "drop (length ?b - 4) ?b = put_le32 hlen" "take (length ?b - 4) ?b = ?b1"
    unfolding b using split_tail [OF length_put_le32, of ?b1 hlen] by blast+
  have err: "header_length_error hlen sz = None"
    using hdr by (simp add: header_length_None uh sz4)
  have tot: "(uint hlen - 32) div 37 = int n" by (simp add: uh hdr(1))
  have cut: "drop (length ?b1 - length hdr) ?b1 = hdr" if "int n \<le> mx"
  proof -
    have "length hdr \<le> nat bs - 4" using that bs4 hdr(1) sz4 by (auto simp: bs_def min_def)
    moreover have "nat bs - 4 \<le> length ?m" using k4 by (simp add: f')
    ultimately show ?thesis by simp
  qed
  have eqm: "?b1 = hdr" if "int n \<le> mx" "\<not> int n < mx"
  proof -
    from that have "mx = int n" by simp
    then have "nat bs - 4 = length hdr" using hdr(1) sz4 by (simp add: bs_def)
    then show ?thesis by simp
  qed
  have "4 \<le> sz" using bs4 by simp
  then have "readRecords rd sz mx =
      Ok (if int n < mx then drop (length ?b1 - length hdr) ?b1 else ?b1, int n)"
    unfolding readRecords_eq [OF lenb \<open>4 \<le> sz\<close> mx]
      Let_def bs_def [symmetric] rdb bind_r.simps parts get_put_le32_Nil err tot unh
    by simp
  with cut eqm show ?thesis by (auto simp: sz_def)
qed

lemma readHeader_file:
  assumes f: "f = body @ hdr @ put_le32 (word_of_nat (length hdr))"
    and rd: "serves rd f" and hdr: "length hdr = 32 + 37 * n" "int (length hdr) \<le> maxHeaderSize"
    and n: "0 < n"
  shows "readHeader rd (int (length f)) = Ok hdr"
proof -
  have sz: "\<not> int (length f) < int minFileSize"
    using n by (simp add: f hdr(1) pack_size_defs)
  obtain b where b: "readRecords rd (int (length f)) eagerEntries = Ok (b, int n)"
    "int n \<le> eagerEntries \<longrightarrow> b = hdr"
    using readRecords_file [OF f rd hdr, of eagerEntries] by (auto simp: eagerEntries_def)
  have "readRecords rd (int (length f)) (int n) = Ok (hdr, int n)"
    using readRecords_file [OF f rd hdr, of "int n"] by auto
  with sz b show ?thesis by (simp add: readHeader_def)
qed

lemma List_file:
  assumes ok: "prims_ok P" "key_ok k" "nonce_ok nonce"
    and bs: "\<forall>b \<in> set bs. packable b" "bs \<noteq> []" "int (length bs) * 37 + 32 \<le> maxHeaderSize"
    and hdr: "seal_frame P k nonce (concat (map entry_bytes bs)) = Ok hdr"
    and f: "f = body @ hdr @ put_le32 (word_of_nat (length hdr))"
    and rd: "serves rd f"
  shows "List P k rd (int (length f)) = Ok (with_offsets 0 bs, of_nat (4 + length hdr))"
proof -
  have ids: "\<forall>b \<in> set bs. is_ID (bID b)" using bs(1) by (simp add: packable_def)
  have lh: "length hdr = 32 + 37 * length bs"
    using frames.seal_length [OF conjI [OF ok(1,2)] hdr] length_header [OF ids] by simp
  have rh: "readHeader rd (int (length f)) = Ok hdr"
    using readHeader_file [OF f rd lh] bs(2,3) lh by simp
  have op: "open_frame P k hdr = Ok (concat (map entry_bytes bs))"
    using frames.open_seal [OF conjI [OF ok(1,2)] ok(3) hdr] .
  have sl: "slice_to hdr 16 = Ok (take 16 hdr)" "slice_from hdr 16 = Ok (drop 16 hdr)"
    using lh by (simp_all add: slice_to_eq slice_from_eq)
  from op have "snd (Key_Open P k [] (take 16 hdr) (drop 16 hdr)) = Ok (concat (map entry_bytes bs))"
    using lh by (simp add: open_frame_eq)
  then show ?thesis
    using rh lh sl list_loop_header [OF bs(1)]
    by (simp add: List_def Let_def size_defs headerLengthSize_def)
qed

section \<open>Lemmas: writing a pack\<close>

text \<open>
  What holds of a packer while blobs are added: the writer has received the data \<open>ds\<close> one after the
  other, and the entries have their lengths and the offsets of consecutive storage.
\<close>

definition packer_inv :: "('w \<Rightarrow> bytes) \<Rightarrow> 'w Packer \<Rightarrow> bytes list \<Rightarrow> bool" where
  "packer_inv contents p ds \<longleftrightarrow>
     contents (pkWr p) = concat ds \<and>
     map bLength (pkBlobs p) = map (\<lambda>d. of_nat (length d)) ds \<and>
     with_offsets 0 (pkBlobs p) = pkBlobs p \<and>
     pkBytes p = sum_list (map bLength (pkBlobs p))"

text \<open>Adding several blobs, stopping at the first error.\<close>

primrec Packer_AddAll ::
  "('w \<Rightarrow> bytes \<Rightarrow> 'w \<times> nat \<times> error option) \<Rightarrow> 'w Packer \<Rightarrow> (BlobType \<times> ID \<times> bytes) list \<Rightarrow>
    'w Packer \<times> error option" where
  "Packer_AddAll write p [] = (p, None)"
| "Packer_AddAll write p (x # xs) =
     (case Packer_Add write p (fst x) (fst (snd x)) (snd (snd x)) of
        (p', n, Some e) \<Rightarrow> (p', Some e)
      | (p', n, None) \<Rightarrow> Packer_AddAll write p' xs)"

lemma length_with_offsets [simp]: "length (with_offsets pos bs) = length bs"
  by (induction bs arbitrary: pos) auto

lemma with_offsets_append:
  "with_offsets pos (bs @ [c]) =
    with_offsets pos bs @ [c\<lparr>bOffset := pos + sum_list (map bLength bs)\<rparr>]"
  by (induction bs arbitrary: pos) (simp_all add: add.assoc)

lemma nth_with_offsets:
  "i < length bs \<Longrightarrow>
    with_offsets pos bs ! i = (bs ! i)\<lparr>bOffset := pos + sum_list (map bLength (take i bs))\<rparr>"
proof (induction bs arbitrary: pos i)
  case (Cons b bs)
  then show ?case by (cases i) (simp_all add: add.assoc)
qed simp

lemma packer_inv_New: "contents w = [] \<Longrightarrow> packer_inv contents (NewPacker k w) []"
  by (simp add: packer_inv_def NewPacker_def)

context io_writer
begin

lemma Packer_Add_inv:
  assumes "packer_inv contents p ds" "Packer_Add wr p t i d = (p', n, eo)"
  shows "packer_inv contents p' (ds @ [take n d])"
    "pkBlobs p' = pkBlobs p @ [\<lparr>bID = i, bType = t, bLength = of_nat n, bOffset = pkBytes p\<rparr>]"
    "pkKey p' = pkKey p" "eo = None \<Longrightarrow> n = length d"
proof -
  from assms(2) obtain w' e where w: "wr (pkWr p) d = (w', n, e)"
    and p': "p' = p\<lparr>pkWr := w', pkBytes := pkBytes p + of_nat n,
      pkBlobs := pkBlobs p @ [\<lparr>bID = i, bType = t, bLength = of_nat n, bOffset = pkBytes p\<rparr>]\<rparr>"
    and eo: "eo = wrap_err e ''Write''"
    by (auto simp: Packer_Add_def Let_def split: prod.splits)
  show "pkBlobs p' = pkBlobs p @ [\<lparr>bID = i, bType = t, bLength = of_nat n, bOffset = pkBytes p\<rparr>]"
    "pkKey p' = pkKey p" by (simp_all add: p')
  have n: "n \<le> length d" using write_le [OF w] .
  show "eo = None \<Longrightarrow> n = length d" using write_all w eo by (cases e) (auto simp: wrap_err_def)
  show "packer_inv contents p' (ds @ [take n d])"
    using assms(1) write_contents [OF w] n
    by (simp add: packer_inv_def p' with_offsets_append min_absorb2)
qed

lemma Packer_AddAll_inv:
  assumes "packer_inv contents p ds" "Packer_AddAll wr p xs = (p', None)"
  shows "packer_inv contents p' (ds @ map (\<lambda>x. snd (snd x)) xs)"
    "map (\<lambda>b. (bType b, bID b)) (pkBlobs p') =
      map (\<lambda>b. (bType b, bID b)) (pkBlobs p) @ map (\<lambda>x. (fst x, fst (snd x))) xs"
    "pkKey p' = pkKey p"
  using assms
proof (induction xs arbitrary: p ds)
  case (Cons x xs)
  {
    case 1
    then obtain q n where q: "Packer_Add wr p (fst x) (fst (snd x)) (snd (snd x)) = (q, n, None)"
      and r: "Packer_AddAll wr q xs = (p', None)" by (auto split: prod.splits option.splits)
    note A = Packer_Add_inv [OF 1(1) q]
    from A(1,4) have "packer_inv contents q (ds @ [snd (snd x)])" by simp
    from Cons.IH(1) [OF this r] show ?case by simp
  next
    case 2
    then obtain q n where q: "Packer_Add wr p (fst x) (fst (snd x)) (snd (snd x)) = (q, n, None)"
      and r: "Packer_AddAll wr q xs = (p', None)" by (auto split: prod.splits option.splits)
    note A = Packer_Add_inv [OF 2(1) q]
    from Cons.IH(2) [OF A(1) r] A(2) show ?case by simp
  next
    case 3
    then obtain q n where q: "Packer_Add wr p (fst x) (fst (snd x)) (snd (snd x)) = (q, n, None)"
      and r: "Packer_AddAll wr q xs = (p', None)" by (auto split: prod.splits option.splits)
    note A = Packer_Add_inv [OF 3(1) q]
    from Cons.IH(3) [OF A(1) r] A(3) show ?case by simp
  }
qed simp_all

text \<open>A successful \<open>Finalize\<close> appends the sealed header and its length.\<close>

lemma Packer_Finalize_ok:
  assumes inv: "packer_inv contents p ds" and ok: "prims_ok P" "key_ok (pkKey p)"
    and bs: "\<forall>b \<in> set (pkBlobs p). packable b"
    and fin: "Packer_Finalize P wr r p = (p', Ok tot)"
  shows "\<exists>nonce hdr. nonce_ok nonce \<and>
      seal_frame P (pkKey p) nonce (concat (map entry_bytes (pkBlobs p))) = Ok hdr \<and>
      contents (pkWr p') = concat ds @ hdr @ put_le32 (word_of_nat (length hdr)) \<and>
      pkBlobs p' = pkBlobs p \<and> pkKey p' = (pkKey p)\<lparr>kMAC := maskKey (kMAC (pkKey p))\<rparr> \<and>
      tot = of_nat (length (contents (pkWr p'))) \<and> pkBytes p' = tot"
proof -
  let ?h = "concat (map entry_bytes (pkBlobs p))"
  have hd: "Packer_makeHeader p = Ok ?h"
    using bs by (simp add: Packer_makeHeader_def makeHeader_loop_ok packable_def)
  have lh: "length ?h = length (pkBlobs p) * 37"
    using bs length_header [of "pkBlobs p"] by (simp add: packable_def)
  from fin hd obtain nonce k' c where n: "NewRandomNonce r = Ok nonce"
    and c: "Key_Seal P (pkKey p) nonce nonce ?h [] = (k', Ok c)"
    by (auto simp: Packer_Finalize_def Let_def split: res.splits prod.splits)
  have sf: "seal_frame P (pkKey p) nonce ?h = Ok c" by (simp add: seal_frame_def c)
  then have nok: "nonce_ok nonce" using ok by (simp add: seal_frame_Ok_iff)
  have k': "k' = (pkKey p)\<lparr>kMAC := maskKey (kMAC (pkKey p))\<rparr>"
    using Seal_ok [OF ok(2) nok, of P nonce ?h] c by simp
  have lc: "length c = length (pkBlobs p) * 37 + 32"
    using frames.seal_length [OF conjI [OF ok] sf] lh by simp
  have hl: "word_of_int (CiphertextLength (int (length (pkBlobs p)) * 37)) =
      (word_of_nat (length c) :: uint32)"
    by (simp add: lc CiphertextLength_def)
  obtain w1 m1 e1 where w1: "wr (pkWr p) c = (w1, m1, e1)" by (metis prod_cases3)
  obtain w2 m2 e2 where w2: "wr w1 (put_le32 (word_of_nat (length c))) = (w2, m2, e2)"
    by (metis prod_cases3)
  have e1: "e1 = None" using fin by (cases e1) (simp_all add: Packer_Finalize_def hd n c Let_def w1)
  then have m1: "int m1 = CiphertextLength (int (length ?h))"
    using write_all w1 lc lh by (simp add: CiphertextLength_def)
  have e2: "e2 = None"
    using fin e1 m1 by (cases e2) (simp_all add: Packer_Finalize_def hd n c Let_def w1 hl w2)
  note e = e1 e2
  have p': "p' = p\<lparr>pkKey := k', pkWr := w2, pkBytes := tot\<rparr>"
    and t: "tot = pkBytes p + word_of_int (CiphertextLength (int (length ?h))) + 4"
    using fin e1 m1 e2 by (auto simp: Packer_Finalize_def hd n c Let_def w1 hl w2)
  have C: "contents w2 = concat ds @ c @ put_le32 (word_of_nat (length c))"
    using write_ok w1 w2 e inv by (metis packer_inv_def append.assoc)
  have "pkBytes p = of_nat (length (concat ds))"
    using inv by (simp add: packer_inv_def of_nat_length_concat)
  then have "tot = of_nat (length (contents (pkWr p')))"
    by (simp add: t p' C lc lh CiphertextLength_def)
  with nok sf C k' show ?thesis by (auto simp: p')
qed

end

text \<open>The entries of a packer point at their data.\<close>

lemma packer_inv_offsets:
  assumes inv: "packer_inv contents p ds" and i: "i < length ds" and b: "length (concat ds) < 2 ^ 64"
  shows "i < length (pkBlobs p)" "unat (bLength (pkBlobs p ! i)) = length (ds ! i)"
    "unat (bOffset (pkBlobs p ! i)) = length (concat (take i ds))"
proof -
  from inv have m: "map bLength (pkBlobs p) = map (\<lambda>d. of_nat (length d)) ds"
    by (simp add: packer_inv_def)
  then have l: "length (pkBlobs p) = length ds" by (metis length_map)
  then show i': "i < length (pkBlobs p)" using i by simp
  have split: "concat ds = concat (take i ds) @ ds ! i @ concat (drop (Suc i) ds)"
    by (metis i concat.simps(2) concat_append id_take_nth_drop)
  then have bounds: "length (ds ! i) < 2 ^ 64" "length (concat (take i ds)) < 2 ^ 64"
    using b by simp_all
  have "bLength (pkBlobs p ! i) = of_nat (length (ds ! i))"
    using m i i' by (metis nth_map)
  then show "unat (bLength (pkBlobs p ! i)) = length (ds ! i)"
    using bounds by (simp add: unat_of_nat)
  have "map bLength (take i (pkBlobs p)) = map (\<lambda>d. of_nat (length d)) (take i ds)"
    using m by (simp flip: take_map)
  then have "bOffset (pkBlobs p ! i) = of_nat (length (concat (take i ds)))"
    using arg_cong [OF nth_with_offsets [OF i', of 0], of bOffset] inv
    by (simp add: packer_inv_def of_nat_length_concat)
  then show "unat (bOffset (pkBlobs p ! i)) = length (concat (take i ds))"
    using bounds by (simp add: unat_of_nat)
qed

lemma packer_inv_slice:
  assumes "packer_inv contents p ds" "i < length ds" "length (concat ds) < 2 ^ 64"
  shows "take (unat (bLength (pkBlobs p ! i))) (drop (unat (bOffset (pkBlobs p ! i))) (concat ds @ ys)) = ds ! i"
  using packer_inv_offsets [OF assms] slice_concat [OF assms(2)] by simp

text \<open>A pack of two blobs, written without a fault.\<close>

definition toy_blobs :: "(BlobType \<times> ID \<times> bytes) list" where
  "toy_blobs = [(DataBlob, replicate 32 1, [1, 2, 3]), (TreeBlob, replicate 32 2, [4, 5])]"

definition toy_packer :: "bytes Writer Packer" where
  "toy_packer =
     fst (Packer_AddAll (Writer_Write (file_Write (\<lambda>_ _. None))) (NewPacker toy_key (NewWriter [])) toy_blobs)"

definition toy_finished :: "bytes Writer Packer" where
  "toy_finished =
     fst (Packer_Finalize toy_prims (Writer_Write (file_Write (\<lambda>_ _. None))) (Some (replicate 16 1)) toy_packer)"

abbreviation toy_pack :: bytes where
  "toy_pack \<equiv> hw_w (pkWr toy_finished)"

lemma toy_packer_add:
  "Packer_AddAll (Writer_Write (file_Write (\<lambda>_ _. None))) (NewPacker toy_key (NewWriter [])) toy_blobs =
    (toy_packer, None)"
proof -
  have "snd (Packer_AddAll (Writer_Write (file_Write (\<lambda>_ _. None))) (NewPacker toy_key (NewWriter [])) toy_blobs) = None"
    by code_simp
  then show ?thesis unfolding toy_packer_def by (metis prod.collapse)
qed

lemma toy_pack_fin:
  "Packer_Finalize toy_prims (Writer_Write (file_Write (\<lambda>_ _. None))) (Some (replicate 16 1)) toy_packer =
    (toy_finished, Ok 115)"
proof -
  have "snd (Packer_Finalize toy_prims (Writer_Write (file_Write (\<lambda>_ _. None))) (Some (replicate 16 1)) toy_packer) = Ok 115"
    by code_simp
  then show ?thesis unfolding toy_finished_def by (metis prod.collapse)
qed

lemma toy_packer_blobs:
  "pkBlobs toy_packer =
    [\<lparr>bID = replicate 32 1, bType = DataBlob, bLength = 3, bOffset = 0\<rparr>,
     \<lparr>bID = replicate 32 2, bType = TreeBlob, bLength = 2, bOffset = 3\<rparr>]"
  by code_simp

lemma toy_packer_packable: "(\<forall>b \<in> set (pkBlobs toy_packer). packable b) \<and> pkBlobs toy_packer \<noteq> []"
  by (simp add: toy_packer_blobs packable_def is_ID_def idSize_def)

section \<open>Properties\<close>

text \<open>C4: A pack that was written through the hashing temporary file of the packer manager, with any
  number of blobs added without an error and then finalized, is read back by \<open>List\<close> as exactly the
  blobs that were added, in order, with their types, IDs and lengths; and the bytes of the file at
  each listed offset are the data that was added. (At least one blob; the header fits into
  \<open>maxHeaderSize\<close>, each blob into 32 bits and the whole into 64 bits of length.)\<close>

theorem pack_roundtrip:
  assumes "prims_ok P" "key_ok k"
    and "Packer_AddAll (Writer_Write (file_Write fault)) (NewPacker k (NewWriter [])) xs = (p, None)"
    and "Packer_Finalize P (Writer_Write (file_Write fault)) r p = (p', Ok n)"
    and "xs \<noteq> []" "int (length xs) * 37 + 32 \<le> maxHeaderSize"
    and "list_all (\<lambda>(t, i, d). t \<noteq> InvalidBlob \<and> is_ID i \<and> length d < 2 ^ 32) xs"
    and "length (concat (map (\<lambda>x. snd (snd x)) xs)) < 2 ^ 64"
  shows "let f = hw_w (pkWr p') in
    (\<exists>bs hs. List P k (bytes_ReadAt f) (int (length f)) = Ok (bs, hs) \<and>
      list_all2 (\<lambda>b (t, i, d). bType b = t \<and> bID b = i \<and> unat (bLength b) = length d \<and>
        take (unat (bLength b)) (drop (unat (bOffset b)) f) = d) bs xs)"
proof -
  let ?ds = "map (\<lambda>x. snd (snd x)) xs"
  have inv0: "packer_inv hw_w (NewPacker k (NewWriter [])) []"
    by (rule packer_inv_New) (simp add: NewWriter_def)
  note A = hashed_tmpfile.Packer_AddAll_inv [OF inv0 assms(3), unfolded append_Nil]
  have key: "pkKey p = k" using A(3) by (simp add: NewPacker_def)
  have tid: "map (\<lambda>b. (bType b, bID b)) (pkBlobs p) = map (\<lambda>x. (fst x, fst (snd x))) xs"
    using A(2) by (simp add: NewPacker_def)
  have len: "length (pkBlobs p) = length xs" using arg_cong [OF tid, of length] by simp
  have nth: "bType (pkBlobs p ! j) = fst (xs ! j)" "bID (pkBlobs p ! j) = fst (snd (xs ! j))"
    "unat (bLength (pkBlobs p ! j)) = length (snd (snd (xs ! j)))" if "j < length xs" for j
  proof -
    show "bType (pkBlobs p ! j) = fst (xs ! j)" "bID (pkBlobs p ! j) = fst (snd (xs ! j))"
      using arg_cong [OF tid, of "\<lambda>l. l ! j"] that len by simp_all
    show "unat (bLength (pkBlobs p ! j)) = length (snd (snd (xs ! j)))"
      using packer_inv_offsets(2) [OF A(1), of j] assms(8) that by simp
  qed
  have pk: "\<forall>b \<in> set (pkBlobs p). packable b"
    using assms(7) nth len by (auto simp: in_set_conv_nth packable_def list_all_length case_prod_beta)
  obtain nonce hdr where N: "nonce_ok nonce"
    "seal_frame P k nonce (concat (map entry_bytes (pkBlobs p))) = Ok hdr"
    "hw_w (pkWr p') = concat ?ds @ hdr @ put_le32 (word_of_nat (length hdr))"
    using hashed_tmpfile.Packer_Finalize_ok [OF A(1) assms(1) _ pk assms(4)] assms(2) key by auto
  let ?f = "hw_w (pkWr p')"
  have ne: "pkBlobs p \<noteq> []" using len assms(5) by auto
  have "with_offsets 0 (pkBlobs p) = pkBlobs p" using A(1) by (simp add: packer_inv_def)
  then have L: "List P k (bytes_ReadAt ?f) (int (length ?f)) = Ok (pkBlobs p, of_nat (4 + length hdr))"
    using List_file [OF assms(1,2) N(1) pk ne _ N(2,3) serves_bytes_ReadAt] assms(6) len by simp
  have sl: "take (unat (bLength (pkBlobs p ! j))) (drop (unat (bOffset (pkBlobs p ! j))) ?f) = snd (snd (xs ! j))"
    if "j < length xs" for j
    unfolding N(3) using packer_inv_slice [OF A(1) _ assms(8)] that by (simp del: take_append drop_append)
  have "list_all2 (\<lambda>b (t, i, d). bType b = t \<and> bID b = i \<and> unat (bLength b) = length d \<and>
      take (unat (bLength b)) (drop (unat (bOffset b)) ?f) = d) (pkBlobs p) xs"
    unfolding list_all2_conv_all_nth
    using len nth sl by (auto simp: case_prod_beta simp del: take_append drop_append)
  with L show ?thesis by (auto simp: Let_def)
qed

theorem pack_roundtrip_witness:
  "\<exists>bs hs. List toy_prims toy_key (bytes_ReadAt toy_pack) (int (length toy_pack)) = Ok (bs, hs) \<and>
    list_all2 (\<lambda>b (t, i, d). bType b = t \<and> bID b = i \<and> unat (bLength b) = length d \<and>
      take (unat (bLength b)) (drop (unat (bOffset b)) toy_pack) = d) bs toy_blobs"
  using pack_roundtrip [OF toy_prims_ok toy_key_ok toy_packer_add toy_pack_fin]
  by (simp add: Let_def) (simp add: toy_blobs_def is_ID_def idSize_def maxHeaderSize_def)

text \<open>C15: \<open>List\<close> never panics, whatever bytes the file has and whatever size the caller passes; and
  what it returns is well formed: every entry has a blob type other than the invalid one, an ID of
  32 bytes and a length of 32 bits, and the offsets are those of blobs stored one after the other
  from the start of the file.\<close>

theorem List_total_wellformed:
  assumes "aes_key_size (kEnc k)"
  shows "\<not> is_panic (List P k (bytes_ReadAt f) sz) \<and>
    (\<forall>bs hs. List P k (bytes_ReadAt f) sz = Ok (bs, hs) \<longrightarrow>
      list_all packable bs \<and> with_offsets 0 bs = bs)"
proof -
  have "\<not> is_panic (List P k (bytes_ReadAt f) sz)"
    using assms osfile.rd_length [of f] osfile.rd_no_panic [of f] by (intro List_no_panic) auto
  moreover have "list_all packable bs \<and> with_offsets 0 bs = bs"
    if "List P k (bytes_ReadAt f) sz = Ok (bs, hs)" for bs hs
    using that list_loop_wellformed [of _ 0 "[]" bs] by (auto simp: List_def res_simps Let_def split: if_splits)
  ultimately show ?thesis by blast
qed

theorem List_total_wellformed_witness:
  "\<not> is_panic (List toy_prims toy_key (bytes_ReadAt (replicate 80 9)) 99)"
  using List_total_wellformed [of toy_key toy_prims "replicate 80 9" 99] toy_key_ok
  by (simp add: key_ok_simps)

end
