(* ===== verification/IndexMap.thy ===== *)
theory IndexMap
  imports Blobs
begin

text \<open>
  \<open>repository/indexmap.go\<close>: the chained hash table from blob IDs to index entries, which may hold
  several entries with the same ID.

  A chain of \<open>indexEntry\<close>s linked by \<open>next\<close> is the list of its entries, head first; the table is the
  list of its chains. The free list is the number of unused entries that are left of the batch
  allocated last. \<open>mh\<close> is the hash function of \<open>hash/maphash\<close> under the seed that the map's \<open>Hash\<close>
  value draws at its first use; nothing is assumed of it. \<open>numentries\<close> counts entries that are in
  memory, far below 64 bits.

  The locale \<open>entry_map\<close> is the contract of the table: a multiset of entries, found by key.
\<close>

section \<open>The table\<close>

record indexEntry =
  eID :: ID
  packIndex :: nat
  eOffset :: uint32
  eLength :: uint32

record indexMap =
  buckets :: "indexEntry list list"
  numentries :: nat
  mh :: "ID \<Rightarrow> uint"
  free :: nat

definition growthFactor :: nat where "growthFactor = 2"

definition maxLoad :: nat where "maxLoad = 4"

definition initialBuckets :: nat where "initialBuckets = 64"

definition entryAllocBatch :: nat where "entryAllocBatch = 256"

text \<open>The zero value of the struct, with the hash function its seed will give.\<close>

definition new_indexMap :: "(ID \<Rightarrow> uint) \<Rightarrow> indexMap" where
  "new_indexMap h = \<lparr>buckets = [], numentries = 0, mh = h, free = 0\<rparr>"

text \<open>
  \<open>hash\<close>, a position in \<open>buckets\<close>: the mask is \<open>len - 1\<close> in 64-bit arithmetic. The position is in
  range for every table with at least one bucket (\<open>hash_less\<close> below).
\<close>

definition im_hash :: "indexMap \<Rightarrow> ID \<Rightarrow> nat" where
  "im_hash m i = unat (mh m i AND (of_nat (length (buckets m)) - 1))"

definition im_init :: "indexMap \<Rightarrow> indexMap" where
  "im_init m = m\<lparr>buckets := replicate initialBuckets []\<rparr>"

text \<open>\<open>buckets[h]\<close> with an entry put in front of its chain.\<close>

definition prepend :: "indexMap \<Rightarrow> nat \<Rightarrow> indexEntry \<Rightarrow> indexMap" where
  "prepend m h e = m\<lparr>buckets := (buckets m)[h := e # buckets m ! h]\<rparr>"

definition im_grow :: "indexMap \<Rightarrow> indexMap" where
  "im_grow m =
     (let old = buckets m;
          m0 = m\<lparr>buckets := replicate (growthFactor * length (buckets m)) []\<rparr>
      in fold (\<lambda>chain m. fold (\<lambda>e m. prepend m (im_hash m (eID e)) e) chain m) old m0)"

definition newEntry :: "indexMap \<Rightarrow> indexMap" where
  "newEntry m = (let fr = (if free m = 0 then entryAllocBatch else free m) in m\<lparr>free := fr - 1\<rparr>)"

definition im_add :: "indexMap \<Rightarrow> ID \<Rightarrow> nat \<Rightarrow> uint32 \<Rightarrow> uint32 \<Rightarrow> indexMap" where
  "im_add m i packIdx offset len =
     (let m1 = (if numentries m = 0 then im_init m
                else if numentries m \<ge> maxLoad * length (buckets m) then im_grow m
                else m);
          h = im_hash m1 i;
          m2 = newEntry m1;
          m3 = prepend m2 h \<lparr>eID = i, packIndex = packIdx, eOffset = offset, eLength = len\<rparr>
      in m3\<lparr>numentries := numentries m3 + 1\<rparr>)"

definition im_len :: "indexMap \<Rightarrow> nat" where
  "im_len m = numentries m"

text \<open>
  \<open>foreach\<close>: \<open>fn\<close> works on the caller's variables \<open>s\<close> and says whether to go on.
\<close>

primrec foreach_chain :: "(indexEntry \<Rightarrow> 's \<Rightarrow> 's \<times> bool) \<Rightarrow> indexEntry list \<Rightarrow> 's \<Rightarrow> 's \<times> bool" where
  "foreach_chain fn [] s = (s, True)"
| "foreach_chain fn (e # es) s =
     (case fn e s of (s', cont) \<Rightarrow> if \<not> cont then (s', False) else foreach_chain fn es s')"

primrec foreach_buckets :: "(indexEntry \<Rightarrow> 's \<Rightarrow> 's \<times> bool) \<Rightarrow> indexEntry list list \<Rightarrow> 's \<Rightarrow> 's" where
  "foreach_buckets fn [] s = s"
| "foreach_buckets fn (c # cs) s =
     (case foreach_chain fn c s of (s', cont) \<Rightarrow> if \<not> cont then s' else foreach_buckets fn cs s')"

definition foreach :: "indexMap \<Rightarrow> (indexEntry \<Rightarrow> 's \<Rightarrow> 's \<times> bool) \<Rightarrow> 's \<Rightarrow> 's" where
  "foreach m fn s = foreach_buckets fn (buckets m) s"

definition foreachWithID :: "indexMap \<Rightarrow> ID \<Rightarrow> (indexEntry \<Rightarrow> 's \<Rightarrow> 's) \<Rightarrow> 's \<Rightarrow> 's" where
  "foreachWithID m i fn s =
     (if length (buckets m) = 0 then s
      else fold (\<lambda>e s. if eID e \<noteq> i then s else fn e s) (buckets m ! im_hash m i) s)"

primrec chain_get :: "indexEntry list \<Rightarrow> ID \<Rightarrow> indexEntry option" where
  "chain_get [] i = None"
| "chain_get (e # es) i = (if eID e = i then Some e else chain_get es i)"

definition im_get :: "indexMap \<Rightarrow> ID \<Rightarrow> indexEntry option" where
  "im_get m i =
     (if length (buckets m) = 0 then None else chain_get (buckets m ! im_hash m i) i)"

section \<open>The contract\<close>

text \<open>
  A collection of entries with a key: \<open>all\<close> enumerates it, \<open>having\<close> enumerates the entries with a
  key, \<open>get1\<close> finds one of them. Only the multiset of the entries is promised: the order in which
  entries with one key appear is not.
\<close>

locale entry_map =
  fixes new :: 'm
    and ins :: "'m \<Rightarrow> 'e \<Rightarrow> 'm"
    and key :: "'e \<Rightarrow> 'k"
    and all :: "'m \<Rightarrow> 'e list"
    and having :: "'m \<Rightarrow> 'k \<Rightarrow> 'e list"
    and get1 :: "'m \<Rightarrow> 'k \<Rightarrow> 'e option"
    and count :: "'m \<Rightarrow> nat"
    and inv :: "'m \<Rightarrow> bool"
  assumes inv_new: "inv new"
    and inv_ins: "inv m \<Longrightarrow> inv (ins m e)"
    and all_new: "all new = []"
    and all_ins: "inv m \<Longrightarrow> mset (all (ins m e)) = add_mset e (mset (all m))"
    and having_eq: "inv m \<Longrightarrow> having m k = filter (\<lambda>e. key e = k) (all m)"
    and get1_None: "inv m \<Longrightarrow> get1 m k = None \<longleftrightarrow> having m k = []"
    and get1_Some: "inv m \<Longrightarrow> get1 m k = Some e \<Longrightarrow> e \<in> set (having m k)"
    and count_eq: "inv m \<Longrightarrow> count m = length (all m)"
begin

lemma inv_fold_ins: "inv m \<Longrightarrow> inv (fold (\<lambda>e m. ins m e) es m)"
  by (induction es arbitrary: m) (auto intro: inv_ins)

lemma all_fold_ins:
  "inv m \<Longrightarrow> mset (all (fold (\<lambda>e m. ins m e) es m)) = mset es + mset (all m)"
  by (induction es arbitrary: m) (auto simp: all_ins inv_ins)

lemma set_all_ins: "inv m \<Longrightarrow> set (all (ins m e)) = insert e (set (all m))"
  by (metis all_ins set_mset_add_mset_insert set_mset_mset)

lemma having_ins_other: "inv m \<Longrightarrow> key e \<noteq> k \<Longrightarrow> mset (having (ins m e) k) = mset (having m k)"
  by (simp add: having_eq inv_ins all_ins)

lemma having_ins_same: "inv m \<Longrightarrow> mset (having (ins m e) (key e)) = add_mset e (mset (having m (key e)))"
  by (simp add: having_eq inv_ins all_ins)

lemma get1_iff: "inv m \<Longrightarrow> get1 m k \<noteq> None \<longleftrightarrow> (\<exists>e \<in> set (all m). key e = k)"
  by (auto simp: get1_None having_eq filter_empty_conv)

lemma count_ins: "inv m \<Longrightarrow> count (ins m e) = Suc (count m)"
  by (metis all_ins count_eq inv_ins size_add_mset size_mset)

end

section \<open>Lemmas: the table implements the contract\<close>

lemma unat_mask_less: "0 < n \<Longrightarrow> unat (of_nat n - 1 :: uint) < n"
proof (cases "of_nat n = (0 :: uint)")
  case True
  assume "0 < n"
  with True have "2 ^ 64 \<le> n" by (auto simp: word_of_nat_eq_0_iff dest: dvd_imp_le)
  moreover have "unat (of_nat n - 1 :: uint) < 2 ^ 64"
    using unsigned_less [of "of_nat n - 1 :: uint", where 'a = nat] by simp
  ultimately show ?thesis by linarith
next
  case False
  then have "unat (of_nat n - 1 :: uint) = unat (of_nat n :: uint) - 1" by (rule unat_minus_one)
  moreover have "unat (of_nat n :: uint) \<le> n" by (simp add: unat_of_nat)
  moreover have "unat (of_nat n :: uint) \<noteq> 0" using False by (simp add: unat_eq_zero)
  ultimately show ?thesis by linarith
qed

lemma hash_less:
  assumes "buckets m \<noteq> []"
  shows "im_hash m i < length (buckets m)"
proof -
  have "mh m i AND (of_nat (length (buckets m)) - 1) \<le> of_nat (length (buckets m)) - 1"
    by (rule word_and_le1)
  then show ?thesis
    using unat_mask_less [of "length (buckets m)"] assms
    by (simp add: im_hash_def word_le_nat_alt)
qed

text \<open>Every entry is in the chain its ID hashes to.\<close>

definition placed :: "indexMap \<Rightarrow> bool" where
  "placed m \<longleftrightarrow> (\<forall>h < length (buckets m). \<forall>e \<in> set (buckets m ! h). im_hash m (eID e) = h)"

definition im_inv :: "indexMap \<Rightarrow> bool" where
  "im_inv m \<longleftrightarrow>
     placed m \<and> numentries m = length (concat (buckets m)) \<and>
     (buckets m = [] \<or> (\<exists>k. length (buckets m) = initialBuckets * 2 ^ k)) \<and>
     numentries m \<le> maxLoad * length (buckets m)"

definition im_all :: "indexMap \<Rightarrow> indexEntry list" where
  "im_all m = foreach m (\<lambda>e es. (es @ [e], True)) []"

definition im_having :: "indexMap \<Rightarrow> ID \<Rightarrow> indexEntry list" where
  "im_having m i = foreachWithID m i (\<lambda>e es. es @ [e]) []"

lemma foreach_chain_fold:
  "\<forall>e s. snd (fn e s) \<Longrightarrow> foreach_chain fn es s = (fold (\<lambda>e s. fst (fn e s)) es s, True)"
  by (induction es arbitrary: s) (auto simp: case_prod_beta)

lemma foreach_fold:
  assumes "\<forall>e s. snd (fn e s)"
  shows "foreach m fn s = fold (\<lambda>e s. fst (fn e s)) (concat (buckets m)) s"
proof -
  have "foreach_buckets fn cs s = fold (\<lambda>e s. fst (fn e s)) (concat cs) s" for cs
    by (induction cs arbitrary: s) (auto simp: foreach_chain_fold [OF assms])
  then show ?thesis by (simp add: foreach_def)
qed

lemma fold_snoc: "fold (\<lambda>e es. es @ [e]) xs ys = ys @ xs"
  by (induction xs arbitrary: ys) auto

lemma im_all_eq: "im_all m = concat (buckets m)"
  by (simp add: im_all_def foreach_fold fold_snoc)

lemma foreach_all:
  "\<forall>e s. snd (fn e s) \<Longrightarrow> foreach m fn s = fold (\<lambda>e s. fst (fn e s)) (im_all m) s"
  by (simp add: foreach_fold im_all_eq)

lemma fold_if_filter: "fold (\<lambda>e s. if \<not> P e then s else f e s) xs s = fold f (filter P xs) s"
  by (induction xs arbitrary: s) auto

lemma filter_concat_unique:
  assumes "h < length cs" "\<And>j x. j < length cs \<Longrightarrow> j \<noteq> h \<Longrightarrow> x \<in> set (cs ! j) \<Longrightarrow> \<not> P x"
  shows "filter P (concat cs) = filter P (cs ! h)"
  using assms
proof (induction cs arbitrary: h)
  case (Cons c cs)
  show ?case
  proof (cases h)
    case 0
    have "\<not> P x" if "x \<in> set (concat cs)" for x
      using that Cons.prems(2) [of "Suc j" for j] 0 by (fastforce simp: in_set_conv_nth)
    then have "filter P (concat cs) = []" by (auto simp: filter_empty_conv)
    with 0 show ?thesis by simp
  next
    case (Suc k)
    have "filter P c = []" using Cons.prems(2) [of 0] Suc by (auto simp: filter_empty_conv)
    moreover have "filter P (concat cs) = filter P (cs ! k)"
      using Cons.prems(2) [of "Suc j" for j] Cons.prems(1) Suc by (intro Cons.IH) auto
    ultimately show ?thesis using Suc by simp
  qed
qed simp

lemma foreachWithID_having:
  assumes "im_inv m"
  shows "foreachWithID m i fn s = fold fn (filter (\<lambda>e. eID e = i) (im_all m)) s"
proof (cases "buckets m = []")
  case False
  then have "filter (\<lambda>e. eID e = i) (concat (buckets m)) = filter (\<lambda>e. eID e = i) (buckets m ! im_hash m i)"
    using assms hash_less [OF False] by (intro filter_concat_unique) (auto simp: im_inv_def placed_def)
  with False show ?thesis
    by (simp add: foreachWithID_def im_all_eq fold_if_filter [where P = "\<lambda>e. eID e = i"])
qed (simp add: foreachWithID_def im_all_eq)

lemma im_having_eq: "im_inv m \<Longrightarrow> im_having m i = filter (\<lambda>e. eID e = i) (im_all m)"
  by (simp add: im_having_def foreachWithID_having fold_snoc)

lemma chain_get_None: "chain_get es i = None \<longleftrightarrow> filter (\<lambda>e. eID e = i) es = []"
  by (induction es) auto

lemma chain_get_Some: "chain_get es i = Some e \<Longrightarrow> e \<in> set (filter (\<lambda>e. eID e = i) es)"
  by (induction es) (auto split: if_splits)

lemma im_get_chain:
  assumes "im_inv m"
  shows "im_get m i = chain_get (im_having m i) i"
proof -
  have f: "chain_get (filter (\<lambda>e. eID e = i) es) i = chain_get es i" for es
    by (induction es) auto
  show ?thesis
    by (cases "buckets m = []")
      (simp_all add: im_get_def im_having_def foreachWithID_def fold_if_filter
        [where P = "\<lambda>e. eID e = i"] fold_snoc f)
qed

lemma im_hash_cong [simp]:
  "im_hash (m\<lparr>free := a\<rparr>) i = im_hash m i" "im_hash (m\<lparr>numentries := c\<rparr>) i = im_hash m i"
  by (simp_all add: im_hash_def)

lemma prepend_simps [simp]:
  "length (buckets (prepend m h e)) = length (buckets m)" "mh (prepend m h e) = mh m"
  "numentries (prepend m h e) = numentries m" "free (prepend m h e) = free m"
  "im_hash (prepend m h e) i = im_hash m i"
  by (simp_all add: prepend_def im_hash_def)

lemma mset_concat_update:
  "h < length cs \<Longrightarrow> mset (concat (cs[h := x # cs ! h])) = add_mset x (mset (concat cs))"
proof (induction cs arbitrary: h)
  case (Cons c cs)
  then show ?case by (cases h) auto
qed simp

lemma prepend_entries:
  "h < length (buckets m) \<Longrightarrow>
    mset (concat (buckets (prepend m h e))) = add_mset e (mset (concat (buckets m)))"
  by (simp add: prepend_def mset_concat_update)

lemma prepend_bucket:
  "buckets (prepend m h e) ! j = (if j = h \<and> h < length (buckets m) then e # buckets m ! h else buckets m ! j)"
  by (auto simp: prepend_def nth_list_update list_update_beyond not_less)

lemma prepend_placed: "placed m \<Longrightarrow> placed (prepend m (im_hash m (eID e)) e)"
  using hash_less [of m "eID e"]
  by (cases "buckets m = []")
    (auto simp: placed_def nth_list_update im_hash_cong prepend_simps(5) set_ConsD
      simp: prepend_bucket split: if_splits)

definition rehash :: "indexEntry list \<Rightarrow> indexMap \<Rightarrow> indexMap" where
  "rehash es m = fold (\<lambda>e m. prepend m (im_hash m (eID e)) e) es m"

lemma rehash_simps [simp]:
  "length (buckets (rehash es m)) = length (buckets m)" "mh (rehash es m) = mh m"
  "numentries (rehash es m) = numentries m" "free (rehash es m) = free m"
  unfolding rehash_def by (induction es arbitrary: m) simp_all

lemma rehash_placed: "placed m \<Longrightarrow> placed (rehash es m)"
  unfolding rehash_def by (induction es arbitrary: m) (simp_all add: prepend_placed)

lemma rehash_entries:
  "buckets m \<noteq> [] \<Longrightarrow> mset (concat (buckets (rehash es m))) = mset es + mset (concat (buckets m))"
proof (induction es arbitrary: m)
  case (Cons e es)
  let ?m = "prepend m (im_hash m (eID e)) e"
  have "buckets ?m \<noteq> []" using Cons.prems by (simp flip: length_greater_0_conv)
  from Cons.IH [OF this] show ?case
    using prepend_entries [OF hash_less [OF Cons.prems]] by (simp add: rehash_def)
qed (simp add: rehash_def)

lemma grow_rehash:
  "im_grow m = rehash (im_all m) (m\<lparr>buckets := replicate (growthFactor * length (buckets m)) []\<rparr>)"
proof -
  have "fold (\<lambda>c m. fold f c m) cs m = fold f (concat cs) m" for f :: "indexEntry \<Rightarrow> indexMap \<Rightarrow> indexMap" and cs m
    by (induction cs arbitrary: m) auto
  then show ?thesis by (simp add: im_grow_def rehash_def im_all_eq Let_def)
qed

lemma concat_replicate_Nil [simp]: "concat (replicate n []) = []"
  by (induction n) auto

lemma placed_empty: "placed (m\<lparr>buckets := replicate n []\<rparr>)"
  by (simp add: placed_def)

lemma grow_entries:
  assumes "buckets m \<noteq> []"
  shows "mset (concat (buckets (im_grow m))) = mset (concat (buckets m))"
proof -
  let ?m = "m\<lparr>buckets := replicate (growthFactor * length (buckets m)) []\<rparr>"
  have "buckets ?m \<noteq> []" using assms by (simp add: growthFactor_def)
  from rehash_entries [OF this, of "im_all m"] show ?thesis by (simp add: grow_rehash im_all_eq)
qed

lemma grow_simps [simp]:
  "length (buckets (im_grow m)) = growthFactor * length (buckets m)" "placed (im_grow m)"
  "numentries (im_grow m) = numentries m" "free (im_grow m) = free m" "mh (im_grow m) = mh m"
  by (simp_all add: grow_rehash rehash_placed placed_empty)

text \<open>The table \<open>add\<close> works on, after its \<open>switch\<close>.\<close>

definition make_room :: "indexMap \<Rightarrow> indexMap" where
  "make_room m =
     (if numentries m = 0 then im_init m
      else if numentries m \<ge> maxLoad * length (buckets m) then im_grow m
      else m)"

lemma make_room:
  assumes "im_inv m"
  shows "placed (make_room m)" "buckets (make_room m) \<noteq> []" "mh (make_room m) = mh m"
    "\<exists>k. length (buckets (make_room m)) = initialBuckets * 2 ^ k"
    "mset (concat (buckets (make_room m))) = mset (concat (buckets m))"
    "numentries (make_room m) = numentries m" "numentries m < maxLoad * length (buckets (make_room m))"
proof -
  consider "numentries m = 0" | "numentries m \<noteq> 0" "numentries m \<ge> maxLoad * length (buckets m)"
    | "numentries m \<noteq> 0" "numentries m < maxLoad * length (buckets m)" by linarith
  then have "placed (make_room m) \<and> buckets (make_room m) \<noteq> [] \<and> mh (make_room m) = mh m \<and>
    (\<exists>k. length (buckets (make_room m)) = initialBuckets * 2 ^ k) \<and>
    mset (concat (buckets (make_room m))) = mset (concat (buckets m)) \<and>
    numentries (make_room m) = numentries m \<and> numentries m < maxLoad * length (buckets (make_room m))"
  proof cases
    case 1
    then have "concat (buckets m) = []" using assms by (simp add: im_inv_def)
    with 1 show ?thesis
      by (auto simp: make_room_def im_init_def placed_empty initialBuckets_def maxLoad_def
          intro: exI [of _ 0])
  next
    case 2
    then have ne: "buckets m \<noteq> []" using assms by (auto simp: im_inv_def)
    then obtain k where "length (buckets m) = initialBuckets * 2 ^ k" using assms by (auto simp: im_inv_def)
    then have "length (buckets (im_grow m)) = initialBuckets * 2 ^ Suc k" by (simp add: growthFactor_def)
    then have "\<exists>k. length (buckets (im_grow m)) = initialBuckets * 2 ^ k" by blast
    moreover have "numentries m < maxLoad * (growthFactor * length (buckets m))"
      using assms ne by (cases "buckets m") (auto simp: im_inv_def growthFactor_def maxLoad_def)
    moreover have "buckets (im_grow m) \<noteq> []"
      using ne grow_simps(1) [of m] by (auto simp: growthFactor_def simp flip: length_greater_0_conv)
    ultimately show ?thesis using 2 ne by (simp add: make_room_def grow_entries)
  next
    case 3
    then show ?thesis using assms by (auto simp: make_room_def im_inv_def)
  qed
  then show "placed (make_room m)" "buckets (make_room m) \<noteq> []" "mh (make_room m) = mh m"
    "\<exists>k. length (buckets (make_room m)) = initialBuckets * 2 ^ k"
    "mset (concat (buckets (make_room m))) = mset (concat (buckets m))"
    "numentries (make_room m) = numentries m" "numentries m < maxLoad * length (buckets (make_room m))"
    by blast+
qed

lemma im_add_make_room:
  "im_add m i p off len =
    (let m2 = newEntry (make_room m);
         m3 = prepend m2 (im_hash (make_room m) i) \<lparr>eID = i, packIndex = p, eOffset = off, eLength = len\<rparr>
     in m3\<lparr>numentries := numentries m3 + 1\<rparr>)"
  by (simp add: im_add_def make_room_def Let_def)

lemma newEntry_simps [simp]:
  "buckets (newEntry m) = buckets m" "mh (newEntry m) = mh m" "numentries (newEntry m) = numentries m"
  "im_hash (newEntry m) i = im_hash m i"
  by (simp_all add: newEntry_def Let_def)

lemma placed_cong:
  "buckets m = buckets m' \<Longrightarrow> mh m = mh m' \<Longrightarrow> placed m = placed m'"
  by (simp add: placed_def im_hash_def)

lemma im_add_entries:
  assumes "im_inv m"
  shows "mset (concat (buckets (im_add m i p off len))) =
    add_mset \<lparr>eID = i, packIndex = p, eOffset = off, eLength = len\<rparr> (mset (concat (buckets m)))"
  using prepend_entries [of "im_hash (make_room m) i" "newEntry (make_room m)"]
    hash_less [OF make_room(2) [OF assms]] make_room(5) [OF assms]
  by (simp add: im_add_make_room Let_def)

lemma im_add_inv:
  assumes "im_inv m"
  shows "im_inv (im_add m i p off len)"
proof -
  let ?r = "make_room m" and ?e = "\<lparr>eID = i, packIndex = p, eOffset = off, eLength = len\<rparr>"
  let ?p = "prepend (newEntry ?r) (im_hash (newEntry ?r) (eID ?e)) ?e"
  have add: "im_add m i p off len = ?p\<lparr>numentries := numentries m + 1\<rparr>"
    using make_room(6) [OF assms] by (simp add: im_add_make_room Let_def)
  have "placed (newEntry ?r)"
    using make_room(1) [OF assms] placed_cong [of "newEntry ?r" ?r] by simp
  then have "placed ?p" by (rule prepend_placed)
  then have "placed (im_add m i p off len)"
    using placed_cong [of ?p "im_add m i p off len"] by (simp add: add)
  moreover have "numentries (im_add m i p off len) = length (concat (buckets (im_add m i p off len)))"
    using arg_cong [OF im_add_entries [OF assms, of i p off len], of size] assms
    by (simp add: im_inv_def add del: length_concat)
  moreover have "length (buckets (im_add m i p off len)) = length (buckets ?r)" by (simp add: add)
  ultimately show ?thesis
    using make_room(4,7) [OF assms] by (auto simp: im_inv_def add)
qed

lemma mh_im_add [simp]: "im_inv m \<Longrightarrow> mh (im_add m i p off len) = mh m"
  using make_room(3) by (simp add: im_add_make_room Let_def)

lemma im_inv_new: "im_inv (new_indexMap h)"
  by (simp add: im_inv_def new_indexMap_def placed_def)

definition im_insert :: "indexMap \<Rightarrow> indexEntry \<Rightarrow> indexMap" where
  "im_insert m e = im_add m (eID e) (packIndex e) (eOffset e) (eLength e)"

interpretation im: entry_map "new_indexMap h" im_insert eID im_all im_having im_get im_len im_inv for h
proof
  show "im_inv (new_indexMap h)" by (rule im_inv_new)
  show "im_all (new_indexMap h) = []" by (simp add: im_all_eq new_indexMap_def)
next
  fix m e k
  assume m: "im_inv m"
  show "im_inv (im_insert m e)" using im_add_inv [OF m] by (simp add: im_insert_def)
  show "mset (im_all (im_insert m e)) = add_mset e (mset (im_all m))"
    using im_add_entries [OF m] by (simp add: im_insert_def im_all_eq)
  show h: "im_having m k = filter (\<lambda>e. eID e = k) (im_all m)" using m by (rule im_having_eq)
  show "im_get m k = None \<longleftrightarrow> im_having m k = []"
    by (simp add: im_get_chain [OF m] chain_get_None h)
  show "im_get m k = Some e \<Longrightarrow> e \<in> set (im_having m k)"
    using chain_get_Some by (fastforce simp: im_get_chain [OF m])
  show "im_len m = length (im_all m)" using m by (simp add: im_len_def im_all_eq im_inv_def)
qed

definition add_all :: "indexEntry list \<Rightarrow> indexMap \<Rightarrow> indexMap" where
  "add_all es m = fold (\<lambda>e m. im_add m (eID e) (packIndex e) (eOffset e) (eLength e)) es m"

section \<open>Properties\<close>

text \<open>C13: The hash table is a multimap: after adding any sequence of entries to an empty table,
  \<open>foreach\<close> visits exactly the added entries (with their multiplicities), \<open>foreachWithID\<close> exactly
  those with the given ID, \<open>get\<close> finds an entry if and only if one was added with that ID, \<open>len\<close> is
  the number of entries; the number of buckets stays a power of two and the load is at most
  \<open>maxLoad\<close> entries per bucket, whatever the hash function is.\<close>

theorem indexMap_correct:
  "let m = add_all es (new_indexMap h) in
    mset (im_all m) = mset es \<and>
    mset (im_having m i) = filter_mset (\<lambda>e. eID e = i) (mset es) \<and>
    (im_get m i \<noteq> None \<longleftrightarrow> i \<in> eID ` set es) \<and>
    im_len m = length es \<and>
    (buckets m = [] \<or> (\<exists>k. length (buckets m) = 64 * 2 ^ k)) \<and>
    im_len m \<le> maxLoad * length (buckets m)"
proof -
  let ?m = "add_all es (new_indexMap h)"
  have b: "?m = fold (\<lambda>e m. im_insert m e) es (new_indexMap h)"
    by (simp add: add_all_def im_insert_def)
  have inv: "im_inv ?m" unfolding b by (rule im.inv_fold_ins [OF im_inv_new])
  have all: "mset (im_all ?m) = mset es"
    unfolding b using im.all_fold_ins [OF im_inv_new] by (simp add: im.all_new)
  then have "set (im_all ?m) = set es" by (metis set_mset_mset)
  moreover have "length (im_all ?m) = length es" using all by (metis size_mset)
  moreover have "(buckets ?m = [] \<or> (\<exists>k. length (buckets ?m) = 64 * 2 ^ k)) \<and>
    numentries ?m \<le> maxLoad * length (buckets ?m)"
    using inv unfolding im_inv_def initialBuckets_def by blast
  ultimately show ?thesis
    using inv all im.get1_iff [OF inv, of i] im.count_eq [OF inv]
    by (auto simp: im.having_eq im_len_def Let_def)
qed

end
