(* ===== verification/Index.thy ===== *)
theory Index
  imports IndexMap Crypto
begin

text \<open>
  \<open>repository/index.go\<close>: the in-memory index, from blob handles to the packs that hold the blobs.

  The mutex is not modelled: every method holds it for its whole body, so a method is one atomic
  step. A channel that a goroutine fills is the list of the values it yields while its context is
  not cancelled. Reading \<open>packs\<close> out of range is a panic of the model as it is of the code; the
  invariant \<open>idx_inv\<close>, which every operation keeps, rules it out. What \<open>encoding/json\<close> makes of an
  index file is an argument of \<open>DecodeIndex\<close>.

  Abstractly an index is the multiset of the \<open>PackedBlob\<close>s it knows (\<open>idx_blobs\<close>): the lemmas say
  what each operation does to it, and the locale \<open>blob_index\<close> is the contract its clients use.
\<close>

section \<open>State\<close>

record Index =
  byType :: "BlobType \<Rightarrow> indexMap"
  idx_packs :: IDs
  idx_mixedPacks :: IDSet
  packIDToIndex :: "ID \<rightharpoonup> nat"
  idx_final :: bool
  idx_ids :: IDs
  idx_supersedes :: IDs
  idx_created :: int

text \<open>\<open>hs\<close>: the hash functions of the three maps; \<open>now\<close>: the clock, in nanoseconds.\<close>

definition NewIndex :: "(BlobType \<Rightarrow> ID \<Rightarrow> uint) \<Rightarrow> int \<Rightarrow> Index" where
  "NewIndex hs now =
     \<lparr>byType = (\<lambda>t. new_indexMap (hs t)), idx_packs = [], idx_mixedPacks = NewIDSet [],
      packIDToIndex = Map.empty, idx_final = False, idx_ids = [], idx_supersedes = [],
      idx_created = now\<rparr>"

definition addToPacks :: "Index \<Rightarrow> ID \<Rightarrow> Index \<times> nat" where
  "addToPacks idx i = (idx\<lparr>idx_packs := idx_packs idx @ [i]\<rparr>, length (idx_packs idx @ [i]) - 1)"

definition maxuint32 :: uint where "maxuint32 = 0xFFFFFFFF"

definition idx_store :: "Index \<Rightarrow> nat \<Rightarrow> Blob \<Rightarrow> Index res" where
  "idx_store idx packIdx blob =
     (if bOffset blob > maxuint32 \<or> bLength blob > maxuint32
      then Panic ''offset or length does not fit in uint32. You have packs > 4GB!''
      else
        (let m = byType idx (bType blob)
         in Ok (idx\<lparr>byType := (byType idx)
           (bType blob := im_add m (bID blob) packIdx (ucast (bOffset blob)) (ucast (bLength blob)))\<rparr>)))"

definition Index_Final :: "Index \<Rightarrow> bool" where
  "Index_Final idx = idx_final idx"

definition indexMaxBlobs :: nat where "indexMaxBlobs = 50000"

text \<open>Ten minutes.\<close>

definition indexMaxAge :: int where "indexMaxAge = 10 * 60 * 1000000000"

definition IndexFull :: "int \<Rightarrow> Index \<Rightarrow> bool" where
  "IndexFull now idx =
     (let blobs = fold (\<lambda>typ n. n + im_len (byType idx typ)) all_types 0;
          age = now - idx_created idx
      in age \<ge> indexMaxAge \<or> blobs \<ge> indexMaxBlobs)"

section \<open>Storing\<close>

definition Index_Store :: "Index \<Rightarrow> PackedBlob \<Rightarrow> Index res" where
  "Index_Store idx pb =
     (if idx_final idx then Panic ''store new item in finalized index''
      else
        (let (idx1, packIdx) =
           (case packIDToIndex idx (PackID pb) of
              Some n \<Rightarrow> (idx, n)
            | None \<Rightarrow>
                (let (idx', n) = addToPacks idx (PackID pb)
                 in (idx'\<lparr>packIDToIndex := (packIDToIndex idx')(PackID pb \<mapsto> n)\<rparr>, n)))
         in idx_store idx1 packIdx (blob_of pb)))"

definition Index_StorePack :: "Index \<Rightarrow> ID \<Rightarrow> Blob list \<Rightarrow> Index res" where
  "Index_StorePack idx i blobs =
     (if idx_final idx then Panic ''store new item in finalized index''
      else
        (let (idx1, packIdx) = addToPacks idx i
         in fold_r (\<lambda>blob idx. idx_store idx packIdx blob) blobs idx1))"

section \<open>Queries\<close>

definition toPackedBlob :: "Index \<Rightarrow> indexEntry \<Rightarrow> BlobType \<Rightarrow> PackedBlob res" where
  "toPackedBlob idx e t =
     map_r (\<lambda>p. \<lparr>bID = eID e, bType = t, bLength = ucast (eLength e), bOffset = ucast (eOffset e), PackID = p\<rparr>)
       (index_r (idx_packs idx) (int (packIndex e)))"

definition Index_Lookup :: "Index \<Rightarrow> BlobHandle \<Rightarrow> PackedBlob list \<Rightarrow> PackedBlob list res" where
  "Index_Lookup idx bh pbs0 =
     foreachWithID (byType idx (bType bh)) (bID bh)
       (\<lambda>e r. bind_r r (\<lambda>pbs. map_r (\<lambda>b. pbs @ [b]) (toPackedBlob idx e (bType bh)))) (Ok pbs0)"

definition Index_ListPack :: "Index \<Rightarrow> ID \<Rightarrow> PackedBlob list res" where
  "Index_ListPack idx i =
     fold (\<lambda>typ r. foreach (byType idx typ)
       (\<lambda>e r. (bind_r r (\<lambda>pbs.
          bind_r (index_r (idx_packs idx) (int (packIndex e))) (\<lambda>p.
            if p = i then map_r (\<lambda>b. pbs @ [b]) (toPackedBlob idx e typ) else Ok pbs)), True)) r)
       all_types (Ok [])"

definition Index_Has :: "Index \<Rightarrow> BlobHandle \<Rightarrow> bool" where
  "Index_Has idx bh = (im_get (byType idx (bType bh)) (bID bh) \<noteq> None)"

definition Index_LookupSize :: "Index \<Rightarrow> BlobHandle \<Rightarrow> uint \<times> bool" where
  "Index_LookupSize idx bh =
     (case im_get (byType idx (bType bh)) (bID bh) of
        None \<Rightarrow> (0, False)
      | Some e \<Rightarrow> (word_of_int (PlaintextLength (uint (eLength e))), True))"

definition Index_Supersedes :: "Index \<Rightarrow> IDs" where
  "Index_Supersedes idx = idx_supersedes idx"

definition Index_AddToSupersedes :: "Index \<Rightarrow> IDs \<Rightarrow> Index res" where
  "Index_AddToSupersedes idx is =
     (if idx_final idx then Err (Errorf ''index already finalized'')
      else Ok (idx\<lparr>idx_supersedes := idx_supersedes idx @ is\<rparr>))"

definition Index_Each :: "Index \<Rightarrow> PackedBlob list res" where
  "Index_Each idx =
     fold (\<lambda>typ r. foreach (byType idx typ)
       (\<lambda>e r. (bind_r r (\<lambda>pbs. map_r (\<lambda>b. pbs @ [b]) (toPackedBlob idx e typ)), True)) r)
       all_types (Ok [])"

text \<open>
  \<open>EachByPack\<close>: \<open>byPack\<close> is the list of its keys and values in the order the keys were inserted,
  one of the orders in which Go may range over the map.
\<close>

primrec bypack_append :: "ID \<Rightarrow> 'e \<Rightarrow> (ID \<times> 'e list) list \<Rightarrow> (ID \<times> 'e list) list" where
  "bypack_append p e [] = [(p, [e])]"
| "bypack_append p e (q # qs) =
     (if fst q = p then (fst q, snd q @ [e]) # qs else q # bypack_append p e qs)"

definition eachByPack_type :: "Index \<Rightarrow> IDSet \<Rightarrow> BlobType \<Rightarrow> (ID \<times> Blob list) list res" where
  "eachByPack_type idx packBlacklist typ =
     bind_r (foreach (byType idx typ)
       (\<lambda>e r. (bind_r r (\<lambda>byPack.
          bind_r (index_r (idx_packs idx) (int (packIndex e))) (\<lambda>packID.
            if \<not> idx_final idx \<or> \<not> IDSet_Has packBlacklist packID
            then Ok (bypack_append packID e byPack) else Ok byPack)), True)) (Ok []))
     (mapM_r (\<lambda>(packID, pack).
       map_r (\<lambda>bs. (packID, bs)) (mapM_r (\<lambda>e. map_r blob_of (toPackedBlob idx e typ)) pack)))"

definition Index_EachByPack :: "Index \<Rightarrow> IDSet \<Rightarrow> (ID \<times> Blob list) list res" where
  "Index_EachByPack idx packBlacklist =
     map_r concat (mapM_r (eachByPack_type idx packBlacklist) all_types)"

definition Index_Packs :: "Index \<Rightarrow> IDSet" where
  "Index_Packs idx = fold (\<lambda>packID s. IDSet_Insert s packID) (idx_packs idx) (NewIDSet [])"

definition Index_Count :: "Index \<Rightarrow> BlobType \<Rightarrow> nat" where
  "Index_Count idx t = im_len (byType idx t)"

definition Index_MixedPacks :: "Index \<Rightarrow> IDSet" where
  "Index_MixedPacks idx = idx_mixedPacks idx"

section \<open>Finalizing and merging\<close>

definition Index_Finalize :: "Index \<Rightarrow> Index" where
  "Index_Finalize idx = idx\<lparr>idx_final := True, packIDToIndex := Map.empty\<rparr>"

definition Index_IDs :: "Index \<Rightarrow> IDs res" where
  "Index_IDs idx = (if \<not> idx_final idx then Err (Errorf ''index not finalized'') else Ok (idx_ids idx))"

definition Index_SetID :: "Index \<Rightarrow> ID \<Rightarrow> Index res" where
  "Index_SetID idx i =
     (if \<not> idx_final idx then Err (Errorf ''index is not final'')
      else if length (idx_ids idx) > 0 then Err (Errorf ''ID already set'')
      else Ok (idx\<lparr>idx_ids := idx_ids idx @ [i]\<rparr>))"

definition hasIdenticalEntry :: "Index \<Rightarrow> Index \<Rightarrow> BlobType \<Rightarrow> indexEntry \<Rightarrow> bool res" where
  "hasIdenticalEntry idx idx2 typ e2 =
     foreachWithID (byType idx typ) (eID e2)
       (\<lambda>e r. bind_r r (\<lambda>found.
          bind_r (toPackedBlob idx e typ) (\<lambda>b.
          bind_r (toPackedBlob idx2 e2 typ) (\<lambda>b2.
            Ok (if bLength b = bLength b2 \<and> bOffset b = bOffset b2 \<and> PackID b = PackID b2
                then True else found))))) (Ok False)"

definition merge_entry :: "Index \<Rightarrow> nat \<Rightarrow> BlobType \<Rightarrow> indexEntry \<Rightarrow> Index \<Rightarrow> Index res" where
  "merge_entry idx2 packlen typ e2 idx =
     bind_r (hasIdenticalEntry idx idx2 typ e2) (\<lambda>has.
       Ok (if \<not> has
           then idx\<lparr>byType := (byType idx)
             (typ := im_add (byType idx typ) (eID e2) (packIndex e2 + packlen) (eOffset e2) (eLength e2))\<rparr>
           else idx))"

definition merge_type :: "Index \<Rightarrow> nat \<Rightarrow> BlobType \<Rightarrow> Index res \<Rightarrow> Index res" where
  "merge_type idx2 packlen typ r0 =
     foreach (byType idx2 typ) (\<lambda>e2 r. (bind_r r (merge_entry idx2 packlen typ e2), True)) r0"

definition Index_merge :: "Index \<Rightarrow> Index \<Rightarrow> Index res" where
  "Index_merge idx idx2 =
     (if \<not> idx_final idx2 then Err (Errorf ''index to merge is not final'')
      else
        (let packlen = length (idx_packs idx);
             idx1 = idx\<lparr>idx_packs := idx_packs idx @ idx_packs idx2\<rparr>
         in map_r (\<lambda>idx.
              idx\<lparr>idx_mixedPacks := IDSet_Merge (idx_mixedPacks idx) (idx_mixedPacks idx2),
                  idx_ids := idx_ids idx @ idx_ids idx2,
                  idx_supersedes := idx_supersedes idx @ idx_supersedes idx2\<rparr>)
              (fold (merge_type idx2 packlen) all_types (Ok idx1))))"

section \<open>Serialization\<close>

record blobJSON =
  bjID :: ID
  bjType :: BlobType
  bjOffset :: uint
  bjLength :: uint

record packJSON =
  pjID :: ID
  pjBlobs :: "blobJSON list"

record jsonIndex =
  jsSupersedes :: IDs
  jsPacks :: "packJSON list"

text \<open>
  The map \<open>packs\<close> of \<open>generatePackList\<close> holds pointers to the elements of \<open>list\<close>, under their IDs:
  appending to the blobs of \<open>packs[packID]\<close> changes the element of the list with that ID.
\<close>

primrec packlist_add :: "ID \<Rightarrow> blobJSON \<Rightarrow> packJSON list \<Rightarrow> packJSON list" where
  "packlist_add packID b [] = [\<lparr>pjID = packID, pjBlobs = [b]\<rparr>]"
| "packlist_add packID b (p # ps) =
     (if pjID p = packID then p\<lparr>pjBlobs := pjBlobs p @ [b]\<rparr> # ps else p # packlist_add packID b ps)"

definition generatePackList :: "Index \<Rightarrow> packJSON list res" where
  "generatePackList idx =
     fold (\<lambda>typ r. foreach (byType idx typ)
       (\<lambda>e r. (bind_r r (\<lambda>lst.
          bind_r (index_r (idx_packs idx) (int (packIndex e))) (\<lambda>packID.
            if ID_IsNull packID then Panic ''null pack id''
            else Ok (packlist_add packID
              \<lparr>bjID = eID e, bjType = typ, bjOffset = ucast (eOffset e), bjLength = ucast (eLength e)\<rparr> lst))),
          True)) r)
       all_types (Ok [])"

text \<open>\<open>encode\<close>: the value that is handed to the JSON encoder.\<close>

definition Index_encode :: "Index \<Rightarrow> jsonIndex res" where
  "Index_encode idx =
     bind_r (generatePackList idx) (\<lambda>lst. Ok \<lparr>jsSupersedes = idx_supersedes idx, jsPacks = lst\<rparr>)"

text \<open>The body of the loop over the packs, the same in \<open>DecodeIndex\<close> and \<open>decodeOldIndex\<close>.\<close>

definition decode_blob :: "nat \<Rightarrow> blobJSON \<Rightarrow> Index \<times> bool \<times> bool \<Rightarrow> (Index \<times> bool \<times> bool) res" where
  "decode_blob packID blob s =
     (let (idx, data, tree) = s in
      map_r (\<lambda>idx.
        (case bjType blob of
           DataBlob \<Rightarrow> (idx, True, tree)
         | TreeBlob \<Rightarrow> (idx, data, True)
         | InvalidBlob \<Rightarrow> (idx, data, tree)))
        (idx_store idx packID
          \<lparr>bID = bjID blob, bType = bjType blob, bLength = bjLength blob, bOffset = bjOffset blob\<rparr>))"

definition decode_pack :: "packJSON \<Rightarrow> Index \<Rightarrow> Index res" where
  "decode_pack pack idx =
     (let (idx1, packID) = addToPacks idx (pjID pack) in
      bind_r (fold_r (decode_blob packID) (pjBlobs pack) (idx1, False, False))
        (\<lambda>(idx, data, tree).
          if data \<and> tree then Ok (idx\<lparr>idx_mixedPacks := IDSet_Insert (idx_mixedPacks idx) (pjID pack)\<rparr>)
          else Ok idx))"

text \<open>
  What \<open>json.Unmarshal\<close> returns: the decoded value, an \<open>UnmarshalTypeError\<close> with its field \<open>Value\<close>,
  or another error.
\<close>

datatype 'a unmarshalled = Unmarshalled 'a | UnmarshalTypeError string | UnmarshalError string

fun isErrOldIndex :: "'a unmarshalled \<Rightarrow> bool" where
  "isErrOldIndex (UnmarshalTypeError v) = (v = ''array'')"
| "isErrOldIndex _ = False"

definition decodeOldIndex ::
  "(BlobType \<Rightarrow> ID \<Rightarrow> uint) \<Rightarrow> int \<Rightarrow> packJSON list unmarshalled \<Rightarrow> Index res" where
  "decodeOldIndex hs now js =
     (case js of
        Unmarshalled lst \<Rightarrow>
          bind_r (fold_r decode_pack lst (NewIndex hs now)) (\<lambda>idx. Ok (idx\<lparr>idx_final := True\<rparr>))
      | UnmarshalTypeError v \<Rightarrow> Err (Wrap (ErrOther v) ''Decode'')
      | UnmarshalError v \<Rightarrow> Err (Wrap (ErrOther v) ''Decode''))"

text \<open>
  \<open>js\<close> and \<open>old\<close>: what \<open>json.Unmarshal\<close> makes of the buffer as a \<open>jsonIndex\<close> and as a list of packs.
  The result has the flag \<open>oldFormat\<close>.
\<close>

definition DecodeIndex ::
  "(BlobType \<Rightarrow> ID \<Rightarrow> uint) \<Rightarrow> int \<Rightarrow> jsonIndex unmarshalled \<Rightarrow> packJSON list unmarshalled \<Rightarrow> ID \<Rightarrow>
    (Index \<times> bool) res" where
  "DecodeIndex hs now js old i =
     (case js of
        Unmarshalled idxJSON \<Rightarrow>
          bind_r (fold_r decode_pack (jsPacks idxJSON) (NewIndex hs now)) (\<lambda>idx.
            Ok (idx\<lparr>idx_supersedes := jsSupersedes idxJSON, idx_ids := idx_ids idx @ [i], idx_final := True\<rparr>,
                False))
      | UnmarshalTypeError v \<Rightarrow>
          if isErrOldIndex js then map_r (\<lambda>idx. (idx, True)) (decodeOldIndex hs now old)
          else Err (Wrap (ErrOther v) ''DecodeIndex'')
      | UnmarshalError v \<Rightarrow> Err (Wrap (ErrOther v) ''DecodeIndex''))"

section \<open>The abstraction and the invariant\<close>

definition packed :: "Index \<Rightarrow> BlobType \<Rightarrow> indexEntry \<Rightarrow> PackedBlob" where
  "packed idx t e =
     \<lparr>bID = eID e, bType = t, bLength = ucast (eLength e), bOffset = ucast (eOffset e),
      PackID = idx_packs idx ! packIndex e\<rparr>"

definition type_blobs :: "Index \<Rightarrow> BlobType \<Rightarrow> PackedBlob list" where
  "type_blobs idx t = map (packed idx t) (im_all (byType idx t))"

definition blob_list :: "Index \<Rightarrow> PackedBlob list" where
  "blob_list idx = concat (map (type_blobs idx) all_types)"

definition idx_blobs :: "Index \<Rightarrow> PackedBlob multiset" where
  "idx_blobs idx = mset (blob_list idx)"

definition idx_inv :: "Index \<Rightarrow> bool" where
  "idx_inv idx \<longleftrightarrow>
     (\<forall>t. im_inv (byType idx t) \<and>
          (\<forall>e \<in> set (im_all (byType idx t)). packIndex e < length (idx_packs idx))) \<and>
     distinct (idx_mixedPacks idx) \<and>
     (\<forall>i n. packIDToIndex idx i = Some n \<longrightarrow> n < length (idx_packs idx) \<and> idx_packs idx ! n = i)"

text \<open>A blob whose position fits into an index entry.\<close>

definition fits :: "'a Blob_scheme \<Rightarrow> bool" where
  "fits b \<longleftrightarrow> bOffset b \<le> maxuint32 \<and> bLength b \<le> maxuint32"

definition in_pack :: "ID \<Rightarrow> Blob \<Rightarrow> PackedBlob" where
  "in_pack p b = \<lparr>bID = bID b, bType = bType b, bLength = bLength b, bOffset = bOffset b, PackID = p\<rparr>"

lemma packed_simps [simp]:
  "bID (packed idx t e) = eID e" "bType (packed idx t e) = t"
  by (simp_all add: packed_def)

lemma in_pack_simps [simp]:
  "bID (in_pack p b) = bID b" "bType (in_pack p b) = bType b" "PackID (in_pack p b) = p"
  "bLength (in_pack p b) = bLength b" "bOffset (in_pack p b) = bOffset b" "handle_of (in_pack p b) = handle_of b"
  "blob_of (in_pack p b) = b"
  by (simp_all add: in_pack_def handle_of_def blob_of_def)

lemma fits_in_pack [simp]: "fits (in_pack p b) = fits b"
  by (simp add: fits_def)

lemma in_pack_blob_of [simp]: "in_pack (PackID pb) (blob_of pb) = pb"
  by (simp add: in_pack_def)

lemma set_all_types: "set all_types = UNIV"
  by (auto simp: all_types_def intro: BlobType.exhaust)

lemma mset_idx_blobs: "idx_blobs idx = (\<Sum>t\<leftarrow>all_types. mset (type_blobs idx t))"
  by (simp add: idx_blobs_def blob_list_def all_types_def)

lemma mem_idx_blobs: "b \<in># idx_blobs idx \<longleftrightarrow> (\<exists>e \<in> set (im_all (byType idx (bType b))). b = packed idx (bType b) e)"
  by (auto simp: idx_blobs_def blob_list_def type_blobs_def set_all_types)

lemma toPackedBlob_ok: "packIndex e < length (idx_packs idx) \<Longrightarrow> toPackedBlob idx e t = Ok (packed idx t e)"
  by (simp add: toPackedBlob_def index_r_def packed_def)

lemma idx_inv_entry:
  "idx_inv idx \<Longrightarrow> e \<in> set (im_all (byType idx t)) \<Longrightarrow>
    packIndex e < length (idx_packs idx) \<and> toPackedBlob idx e t = Ok (packed idx t e)"
  by (simp add: idx_inv_def toPackedBlob_ok)

lemma idx_inv_map [simp]: "idx_inv idx \<Longrightarrow> im_inv (byType idx t)"
  by (simp add: idx_inv_def)

text \<open>Loops that collect results in a slice.\<close>

lemma fold_collect:
  "\<forall>e \<in> set es. f e = Ok (g e) \<Longrightarrow>
    fold (\<lambda>e r. bind_r r (\<lambda>acc. map_r (\<lambda>b. acc @ [b]) (f e))) es (Ok a) = Ok (a @ map g es)"
  by (induction es arbitrary: a) auto

text \<open>Loops that look for an element.\<close>

lemma fold_found:
  "\<forall>e \<in> set es. \<forall>b. f e (Ok b) = Ok (b \<or> P e) \<Longrightarrow> fold f es (Ok b) = Ok (b \<or> (\<exists>e \<in> set es. P e))"
  by (induction es arbitrary: b) auto

section \<open>Lemmas: queries\<close>

lemma NewIndex_inv [simp]: "idx_inv (NewIndex hs now)"
  using im.all_new by (simp add: idx_inv_def NewIndex_def im_inv_new)

lemma NewIndex_simps [simp]:
  "idx_packs (NewIndex hs now) = []" "idx_mixedPacks (NewIndex hs now) = []" "idx_ids (NewIndex hs now) = []"
  "idx_final (NewIndex hs now) = False" "idx_supersedes (NewIndex hs now) = []" "idx_created (NewIndex hs now) = now"
  by (simp_all add: NewIndex_def NewIDSet_def)

lemma NewIndex_blobs [simp]: "idx_blobs (NewIndex hs now) = {#}"
  using im.all_new by (simp add: mset_idx_blobs type_blobs_def NewIndex_def all_types_def)

lemma Lookup_eq:
  assumes "idx_inv idx"
  shows "Index_Lookup idx bh pbs = Ok (pbs @ filter (\<lambda>b. handle_of b = bh) (type_blobs idx (bType bh)))"
proof -
  have f: "filter (\<lambda>b. handle_of b = bh) (type_blobs idx (bType bh)) =
    map (packed idx (bType bh)) (filter (\<lambda>e. eID e = bID bh) (im_all (byType idx (bType bh))))"
    by (simp add: type_blobs_def filter_map o_def handle_of_eq)
  show ?thesis
    unfolding Index_Lookup_def foreachWithID_having [OF idx_inv_map [OF assms]] f
    by (rule fold_collect) (simp add: idx_inv_entry [OF assms])
qed

lemma filter_type_blobs:
  "filter (\<lambda>b. handle_of b = bh) (blob_list idx) = filter (\<lambda>b. handle_of b = bh) (type_blobs idx (bType bh))"
proof -
  have "filter (\<lambda>b. handle_of b = bh) (type_blobs idx t) = []" if "t \<noteq> bType bh" for t
    using that by (auto simp: filter_empty_conv type_blobs_def handle_of_eq)
  then show ?thesis
    by (cases "bType bh") (simp_all add: blob_list_def all_types_def)
qed

lemma Lookup_blobs:
  "idx_inv idx \<Longrightarrow> Index_Lookup idx bh pbs = Ok (pbs @ filter (\<lambda>b. handle_of b = bh) (blob_list idx))"
  by (simp add: Lookup_eq filter_type_blobs)

lemma Has_iff: "idx_inv idx \<Longrightarrow> Index_Has idx bh \<longleftrightarrow> (\<exists>b \<in># idx_blobs idx. handle_of b = bh)"
  using im.get1_iff [OF idx_inv_map, of idx "bType bh" "bID bh"]
  by (auto simp: Index_Has_def mem_idx_blobs handle_of_eq Bex_def intro!: exI [of _ "packed idx (bType bh) e" for e])

lemma fold_types: "fold f all_types s = f TreeBlob (f DataBlob (f InvalidBlob s))"
  by (simp add: all_types_def)

lemma Each_eq:
  assumes "idx_inv idx"
  shows "Index_Each idx = Ok (blob_list idx)"
proof -
  have "foreach (byType idx t) (\<lambda>e r. (bind_r r (\<lambda>pbs. map_r (\<lambda>b. pbs @ [b]) (toPackedBlob idx e t)), True)) (Ok a)
      = Ok (a @ type_blobs idx t)" for t a
    unfolding type_blobs_def
    by (simp add: foreach_all, rule fold_collect) (simp add: idx_inv_entry [OF assms])
  then show ?thesis by (simp add: Index_Each_def fold_types blob_list_def all_types_def)
qed

lemma ListPack_eq:
  assumes "idx_inv idx"
  shows "Index_ListPack idx i = Ok (filter (\<lambda>b. PackID b = i) (blob_list idx))"
proof -
  have "fold (\<lambda>e r. bind_r r (\<lambda>pbs. bind_r (index_r (idx_packs idx) (int (packIndex e))) (\<lambda>p.
      if p = i then map_r (\<lambda>b. pbs @ [b]) (toPackedBlob idx e t) else Ok pbs))) es (Ok a)
    = Ok (a @ filter (\<lambda>b. PackID b = i) (map (packed idx t) es))"
    if "\<forall>e \<in> set es. packIndex e < length (idx_packs idx)" for t a es
    using that by (induction es arbitrary: a) (auto simp: index_r_def toPackedBlob_ok packed_def)
  then have "foreach (byType idx t) (\<lambda>e r. (bind_r r (\<lambda>pbs. bind_r (index_r (idx_packs idx) (int (packIndex e))) (\<lambda>p.
      if p = i then map_r (\<lambda>b. pbs @ [b]) (toPackedBlob idx e t) else Ok pbs)), True)) (Ok a)
    = Ok (a @ filter (\<lambda>b. PackID b = i) (type_blobs idx t))" for t a
    using idx_inv_entry [OF assms] by (simp add: foreach_all type_blobs_def)
  then show ?thesis by (simp add: Index_ListPack_def fold_types blob_list_def all_types_def)
qed

section \<open>Lemmas: storing\<close>

text \<open>Adding packs at the end does not change what the entries refer to.\<close>

lemma packed_append_packs:
  "idx_inv idx \<Longrightarrow> idx_packs idx' = idx_packs idx @ ps \<Longrightarrow> byType idx' = byType idx \<Longrightarrow>
    blob_list idx' = blob_list idx"
  unfolding blob_list_def type_blobs_def
  by (intro arg_cong [where f = concat] map_cong)
    (auto simp: packed_def nth_append idx_inv_entry)

lemma ucast_small: "w \<le> maxuint32 \<Longrightarrow> ucast (ucast (w :: uint) :: uint32) = w"
proof -
  assume "w \<le> maxuint32"
  then have "unat w \<le> 0xFFFFFFFF" by (simp add: maxuint32_def word_le_nat_alt)
  then show ?thesis by (intro ucast_ucast_small) simp
qed

lemma add_entry_blobs:
  assumes "idx_inv idx"
  shows "idx_blobs (idx\<lparr>byType := (byType idx)(t := im_add (byType idx t) i p off len)\<rparr>) =
    add_mset (packed idx t \<lparr>eID = i, packIndex = p, eOffset = off, eLength = len\<rparr>) (idx_blobs idx)"
proof -
  let ?e = "\<lparr>eID = i, packIndex = p, eOffset = off, eLength = len\<rparr>"
  let ?idx = "idx\<lparr>byType := (byType idx)(t := im_add (byType idx t) i p off len)\<rparr>"
  have same: "packed ?idx = packed idx" by (intro ext) (simp add: packed_def)
  have "mset (type_blobs ?idx t) = add_mset (packed idx t ?e) (mset (type_blobs idx t))"
    using im.all_ins [OF idx_inv_map [OF assms], of t ?e]
    by (simp add: type_blobs_def im_insert_def same)
  moreover have "type_blobs ?idx u = type_blobs idx u" if "u \<noteq> t" for u
    using that by (simp add: type_blobs_def same)
  ultimately show ?thesis
    by (cases t) (simp_all add: mset_idx_blobs all_types_def)
qed

lemma add_entry_inv:
  assumes "idx_inv idx" "p < length (idx_packs idx)"
  shows "idx_inv (idx\<lparr>byType := (byType idx)(t := im_add (byType idx t) i p off len)\<rparr>)"
  using assms im_add_inv [OF idx_inv_map [OF assms(1)], of t i p off len]
    im.set_all_ins [OF idx_inv_map [OF assms(1)], of t "\<lparr>eID = i, packIndex = p, eOffset = off, eLength = len\<rparr>"]
  by (auto simp: idx_inv_def im_insert_def)

lemma idx_store_ok:
  assumes "idx_inv idx" "p < length (idx_packs idx)" "fits b"
  obtains B where "idx_store idx p b = Ok (idx\<lparr>byType := B\<rparr>)" "idx_inv (idx\<lparr>byType := B\<rparr>)"
    "idx_blobs (idx\<lparr>byType := B\<rparr>) = add_mset (in_pack (idx_packs idx ! p) b) (idx_blobs idx)"
proof -
  let ?idx = "idx\<lparr>byType := (byType idx)
      (bType b := im_add (byType idx (bType b)) (bID b) p (ucast (bOffset b)) (ucast (bLength b)))\<rparr>"
  have "idx_store idx p b = Ok ?idx"
    using assms(3) by (simp add: idx_store_def fits_def not_less Let_def)
  moreover have "idx_blobs ?idx = add_mset (in_pack (idx_packs idx ! p) b) (idx_blobs idx)"
    using assms(3) by (simp add: add_entry_blobs [OF assms(1)] packed_def in_pack_def fits_def ucast_small)
  moreover have "idx_inv ?idx" using assms by (intro add_entry_inv)
  ultimately show thesis using that by simp
qed

lemma idx_store_panic: "\<not> fits b \<Longrightarrow> is_panic (idx_store idx p b)"
  by (auto simp: idx_store_def fits_def not_le)

lemma idx_store_all:
  assumes "idx_inv idx" "p < length (idx_packs idx)" "\<forall>b \<in> set bs. fits b"
  shows "\<exists>B. fold_r (\<lambda>b idx. idx_store idx p b) bs idx = Ok (idx\<lparr>byType := B\<rparr>) \<and>
    idx_inv (idx\<lparr>byType := B\<rparr>) \<and>
    idx_blobs (idx\<lparr>byType := B\<rparr>) = mset (map (in_pack (idx_packs idx ! p)) bs) + idx_blobs idx"
  using assms
proof (induction bs arbitrary: idx)
  case Nil
  then show ?case by (intro exI [of _ "byType idx"]) simp
next
  case (Cons b bs)
  obtain B where 1: "idx_store idx p b = Ok (idx\<lparr>byType := B\<rparr>)" "idx_inv (idx\<lparr>byType := B\<rparr>)"
    "idx_blobs (idx\<lparr>byType := B\<rparr>) = add_mset (in_pack (idx_packs idx ! p) b) (idx_blobs idx)"
    using idx_store_ok Cons.prems by (metis list.set_intros(1))
  show ?case using Cons.IH [of "idx\<lparr>byType := B\<rparr>"] Cons.prems 1 by auto
qed

lemma addToPacks_inv:
  assumes "idx_inv idx" "addToPacks idx i = (idx1, n)"
  shows "idx_inv idx1" "idx_blobs idx1 = idx_blobs idx" "n < length (idx_packs idx1)" "idx_packs idx1 ! n = i"
    "idx1 = idx\<lparr>idx_packs := idx_packs idx @ [i]\<rparr>" "n = length (idx_packs idx)"
  using assms packed_append_packs [OF assms(1), of idx1 "[i]"]
  by (auto simp: addToPacks_def idx_inv_def idx_blobs_def nth_append less_Suc_eq)

lemma StorePack_ok:
  assumes "idx_inv idx" "\<not> idx_final idx" "\<forall>b \<in> set bs. fits b"
  shows "\<exists>idx'. Index_StorePack idx i bs = Ok idx' \<and> idx_inv idx' \<and>
    idx_blobs idx' = mset (map (in_pack i) bs) + idx_blobs idx \<and>
    idx_packs idx' = idx_packs idx @ [i] \<and> \<not> idx_final idx' \<and> idx_ids idx' = idx_ids idx \<and>
    idx_supersedes idx' = idx_supersedes idx \<and> idx_mixedPacks idx' = idx_mixedPacks idx"
proof -
  obtain idx1 n where a: "addToPacks idx i = (idx1, n)" by fastforce
  note A = addToPacks_inv [OF assms(1) a]
  show ?thesis
    using idx_store_all [OF A(1,3) assms(3)] A(2,4) a assms(2) by (auto simp: Index_StorePack_def A(5))
qed

lemma StorePack_Ok_fits: "Index_StorePack idx i bs = Ok idx' \<Longrightarrow> \<forall>b \<in> set bs. fits b"
proof -
  have "fold_r (\<lambda>b idx. idx_store idx n b) bs idx1 = Ok idx' \<Longrightarrow> \<forall>b \<in> set bs. fits b" for n idx1
  proof (induction bs arbitrary: idx1)
    case (Cons b bs)
    then show ?case using idx_store_panic [of b idx1 n] by (cases "fits b") (auto simp: res_simps)
  qed simp
  then show "Index_StorePack idx i bs = Ok idx' \<Longrightarrow> \<forall>b \<in> set bs. fits b"
    by (auto simp: Index_StorePack_def case_prod_beta split: if_splits)
qed

lemma Store_ok:
  assumes "idx_inv idx" "\<not> idx_final idx" "fits pb"
  shows "\<exists>idx'. Index_Store idx pb = Ok idx' \<and> idx_inv idx' \<and> \<not> idx_final idx' \<and>
    idx_blobs idx' = add_mset pb (idx_blobs idx)"
proof -
  have f: "fits (blob_of pb)" using assms(3) by (simp add: fits_def)
  show ?thesis
  proof (cases "packIDToIndex idx (PackID pb)")
    case (Some n)
    then have n: "n < length (idx_packs idx)" "idx_packs idx ! n = PackID pb"
      using assms(1) by (auto simp: idx_inv_def)
    obtain B where "idx_store idx n (blob_of pb) = Ok (idx\<lparr>byType := B\<rparr>)" "idx_inv (idx\<lparr>byType := B\<rparr>)"
      "idx_blobs (idx\<lparr>byType := B\<rparr>) = add_mset pb (idx_blobs idx)"
      using idx_store_ok [OF assms(1) n(1) f] by (metis n(2) in_pack_blob_of)
    then show ?thesis using Some assms(2) by (simp add: Index_Store_def)
  next
    case None
    obtain idx1 n where a: "addToPacks idx (PackID pb) = (idx1, n)" by fastforce
    note A = addToPacks_inv [OF assms(1) a]
    let ?idx1 = "idx1\<lparr>packIDToIndex := (packIDToIndex idx1)(PackID pb \<mapsto> n)\<rparr>"
    have i1: "idx_inv ?idx1" using A(1,3,4) by (auto simp: idx_inv_def)
    have b1: "idx_blobs ?idx1 = idx_blobs idx"
      using packed_append_packs [OF A(1), of ?idx1 "[]"] A(2) by (simp add: idx_blobs_def)
    obtain B where "idx_store ?idx1 n (blob_of pb) = Ok (?idx1\<lparr>byType := B\<rparr>)"
      "idx_inv (?idx1\<lparr>byType := B\<rparr>)" "idx_blobs (?idx1\<lparr>byType := B\<rparr>) = add_mset pb (idx_blobs idx)"
      using idx_store_ok [OF i1 _ f, of n] A(3,4) b1 by auto
    moreover have "\<not> idx_final idx1" using assms(2) by (simp add: A(5))
    ultimately show ?thesis using None assms(2) a by (simp add: Index_Store_def)
  qed
qed

lemma Finalize_ok:
  assumes "idx_inv idx"
  shows "idx_inv (Index_Finalize idx)" "blob_list (Index_Finalize idx) = blob_list idx" "idx_final (Index_Finalize idx)"
    "idx_ids (Index_Finalize idx) = idx_ids idx" "idx_packs (Index_Finalize idx) = idx_packs idx"
    "idx_supersedes (Index_Finalize idx) = idx_supersedes idx"
  using assms packed_append_packs [OF assms, of "Index_Finalize idx" "[]"]
  by (simp_all add: Index_Finalize_def idx_inv_def)

section \<open>Lemmas: merging\<close>

text \<open>Adding the blobs of a list that are not yet there, each once.\<close>

definition add_new :: "'b multiset \<Rightarrow> 'b list \<Rightarrow> 'b multiset" where
  "add_new M bs = M + mset_set (set bs - set_mset M)"

lemma set_add_new [simp]: "set_mset (add_new M bs) = set_mset M \<union> set bs"
  by (auto simp: add_new_def)

lemma add_new_Nil [simp]: "add_new M [] = M"
  by (simp add: add_new_def)

lemma add_new_append: "add_new M (as @ bs) = add_new (add_new M as) bs"
proof -
  have "mset_set (set as \<union> set bs - set_mset M) =
    mset_set (set as - set_mset M) + mset_set (set bs - (set_mset M \<union> set as))"
    by (subst mset_set_Union [symmetric]) (auto intro: arg_cong [where f = mset_set])
  then have "add_new M (as @ bs) = add_new M as + mset_set (set bs - set_mset (add_new M as))"
    by (simp add: add_new_def [of M] ac_simps)
  then show ?thesis by (simp add: add_new_def [of "add_new M as"])
qed

lemma add_new_single: "add_new M [b] = (if b \<in># M then M else add_mset b M)"
  by (simp add: add_new_def insert_Diff_if)

lemma add_new_Cons: "add_new M (b # bs) = add_new (if b \<in># M then M else add_mset b M) bs"
  using add_new_append [of M "[b]" bs] by (simp add: add_new_single)

lemma packed_eq_iff:
  "bLength (packed idx t e) = bLength (packed idx2 t e2) \<and> bOffset (packed idx t e) = bOffset (packed idx2 t e2) \<and>
    PackID (packed idx t e) = PackID (packed idx2 t e2) \<and> eID e = eID e2 \<longleftrightarrow> packed idx t e = packed idx2 t e2"
  by (auto simp: packed_def)

lemma hasIdenticalEntry_eq:
  assumes "idx_inv idx" "packIndex e2 < length (idx_packs idx2)"
  shows "hasIdenticalEntry idx idx2 t e2 = Ok (packed idx2 t e2 \<in># idx_blobs idx)"
proof -
  let ?f = "\<lambda>e r. bind_r r (\<lambda>found. bind_r (toPackedBlob idx e t) (\<lambda>b. bind_r (toPackedBlob idx2 e2 t) (\<lambda>b2.
     Ok (if bLength b = bLength b2 \<and> bOffset b = bOffset b2 \<and> PackID b = PackID b2 then True else found))))"
  have one: "?f e (Ok found) = Ok (found \<or> packed idx t e = packed idx2 t e2)"
    if "eID e = eID e2" "packIndex e < length (idx_packs idx)" for e found
    using that assms(2) packed_eq_iff [of idx t e idx2 e2] by (simp add: toPackedBlob_ok)
  let ?es = "filter (\<lambda>e. eID e = eID e2) (im_all (byType idx t))"
  have "\<forall>e \<in> set ?es. \<forall>b. ?f e (Ok b) = Ok (b \<or> packed idx t e = packed idx2 t e2)"
    using one idx_inv_entry [OF assms(1)] by (intro ballI allI one) auto
  then have "hasIdenticalEntry idx idx2 t e2 = Ok (False \<or> (\<exists>e \<in> set ?es. packed idx t e = packed idx2 t e2))"
    unfolding hasIdenticalEntry_def foreachWithID_having [OF idx_inv_map [OF assms(1)]] by (rule fold_found)
  moreover have "(\<exists>e \<in> set ?es. packed idx t e = packed idx2 t e2) \<longleftrightarrow> packed idx2 t e2 \<in># idx_blobs idx"
    using packed_eq_iff [of idx t _ idx2 e2] by (simp add: mem_idx_blobs) metis
  ultimately show ?thesis by simp
qed

lemma merge_entry_ok:
  assumes "idx_inv idx" "idx_packs idx = ps @ idx_packs idx2" "packIndex e < length (idx_packs idx2)"
  obtains B where "merge_entry idx2 (length ps) t e idx = Ok (idx\<lparr>byType := B\<rparr>)"
    "idx_inv (idx\<lparr>byType := B\<rparr>)"
    "idx_blobs (idx\<lparr>byType := B\<rparr>) = add_new (idx_blobs idx) [packed idx2 t e]"
proof (cases "packed idx2 t e \<in># idx_blobs idx")
  case True
  then have "merge_entry idx2 (length ps) t e idx = Ok (idx\<lparr>byType := byType idx\<rparr>)"
    by (simp add: merge_entry_def hasIdenticalEntry_eq [OF assms(1,3)])
  with True assms(1) show thesis using that [of "byType idx"] by (simp add: add_new_single)
next
  case False
  let ?B = "(byType idx)(t := im_add (byType idx t) (eID e) (packIndex e + length ps) (eOffset e) (eLength e))"
  have "packed idx t \<lparr>eID = eID e, packIndex = packIndex e + length ps, eOffset = eOffset e, eLength = eLength e\<rparr>
    = packed idx2 t e"
    using assms(2,3) by (simp add: packed_def nth_append)
  then have "idx_blobs (idx\<lparr>byType := ?B\<rparr>) = add_new (idx_blobs idx) [packed idx2 t e]"
    using False add_entry_blobs [OF assms(1)] by (simp add: add_new_single)
  moreover have "merge_entry idx2 (length ps) t e idx = Ok (idx\<lparr>byType := ?B\<rparr>)"
    using False by (simp add: merge_entry_def hasIdenticalEntry_eq [OF assms(1,3)])
  moreover have "idx_inv (idx\<lparr>byType := ?B\<rparr>)"
    using assms by (intro add_entry_inv) simp_all
  ultimately show thesis using that by blast
qed

lemma merge_entries_ok:
  assumes "idx_inv idx" "idx_packs idx = ps @ idx_packs idx2"
    and "\<forall>e \<in> set es. packIndex e < length (idx_packs idx2)"
  shows "\<exists>B. fold (\<lambda>e r. bind_r r (merge_entry idx2 (length ps) t e)) es (Ok idx) = Ok (idx\<lparr>byType := B\<rparr>) \<and>
    idx_inv (idx\<lparr>byType := B\<rparr>) \<and>
    idx_blobs (idx\<lparr>byType := B\<rparr>) = add_new (idx_blobs idx) (map (packed idx2 t) es)"
  using assms
proof (induction es arbitrary: idx)
  case Nil
  then show ?case by (intro exI [of _ "byType idx"]) simp
next
  case (Cons e es)
  have e: "packIndex e < length (idx_packs idx2)" using Cons.prems(3) by simp
  obtain B1 where 1: "merge_entry idx2 (length ps) t e idx = Ok (idx\<lparr>byType := B1\<rparr>)"
    "idx_inv (idx\<lparr>byType := B1\<rparr>)"
    "idx_blobs (idx\<lparr>byType := B1\<rparr>) = add_new (idx_blobs idx) [packed idx2 t e]"
    using merge_entry_ok [OF Cons.prems(1,2) e] by blast
  show ?case
    using Cons.IH [OF 1(2)] Cons.prems(2,3) 1(1,3)
      add_new_append [of "idx_blobs idx" "[packed idx2 t e]" "map (packed idx2 t) es"] by auto
qed

lemma merge_type_ok:
  assumes "idx_inv idx" "idx_inv idx2" "idx_packs idx = ps @ idx_packs idx2" "packlen = length ps"
  obtains B where "merge_type idx2 packlen t (Ok idx) = Ok (idx\<lparr>byType := B\<rparr>)"
    "idx_inv (idx\<lparr>byType := B\<rparr>)"
    "idx_blobs (idx\<lparr>byType := B\<rparr>) = add_new (idx_blobs idx) (type_blobs idx2 t)"
proof -
  have "\<forall>e \<in> set (im_all (byType idx2 t)). packIndex e < length (idx_packs idx2)"
    using idx_inv_entry [OF assms(2)] by blast
  from merge_entries_ok [OF assms(1,3) this, of t] show thesis
    using that by (auto simp: merge_type_def foreach_all type_blobs_def assms(4))
qed

lemma merge_ok:
  assumes "idx_inv idx" "idx_inv idx2" "idx_final idx2"
  shows "\<exists>idx'. Index_merge idx idx2 = Ok idx' \<and> idx_inv idx' \<and>
    idx_blobs idx' = add_new (idx_blobs idx) (blob_list idx2) \<and>
    idx_packs idx' = idx_packs idx @ idx_packs idx2 \<and> idx_final idx' = idx_final idx \<and>
    idx_ids idx' = idx_ids idx @ idx_ids idx2 \<and> idx_supersedes idx' = idx_supersedes idx @ idx_supersedes idx2 \<and>
    set (idx_mixedPacks idx') = set (idx_mixedPacks idx) \<union> set (idx_mixedPacks idx2)"
proof -
  let ?i = "idx\<lparr>idx_packs := idx_packs idx @ idx_packs idx2\<rparr>"
  have i: "idx_inv ?i" using assms(1) by (fastforce simp: idx_inv_def nth_append)
  have b: "idx_blobs ?i = idx_blobs idx"
    using packed_append_packs [OF assms(1), of ?i] by (simp add: idx_blobs_def)
  note step = merge_type_ok [where ps = "idx_packs idx" and packlen = "length (idx_packs idx)", OF _ assms(2)]
  obtain B1 where 1: "merge_type idx2 (length (idx_packs idx)) InvalidBlob (Ok ?i) = Ok (?i\<lparr>byType := B1\<rparr>)"
    "idx_inv (?i\<lparr>byType := B1\<rparr>)" "idx_blobs (?i\<lparr>byType := B1\<rparr>) = add_new (idx_blobs idx) (type_blobs idx2 InvalidBlob)"
    using step [OF i, of InvalidBlob] b by auto
  obtain B2 where 2: "merge_type idx2 (length (idx_packs idx)) DataBlob (Ok (?i\<lparr>byType := B1\<rparr>)) = Ok (?i\<lparr>byType := B2\<rparr>)"
    "idx_inv (?i\<lparr>byType := B2\<rparr>)" "idx_blobs (?i\<lparr>byType := B2\<rparr>) = add_new (idx_blobs (?i\<lparr>byType := B1\<rparr>)) (type_blobs idx2 DataBlob)"
    using step [OF 1(2), of DataBlob] by auto
  obtain B3 where 3: "merge_type idx2 (length (idx_packs idx)) TreeBlob (Ok (?i\<lparr>byType := B2\<rparr>)) = Ok (?i\<lparr>byType := B3\<rparr>)"
    "idx_inv (?i\<lparr>byType := B3\<rparr>)" "idx_blobs (?i\<lparr>byType := B3\<rparr>) = add_new (idx_blobs (?i\<lparr>byType := B2\<rparr>)) (type_blobs idx2 TreeBlob)"
    using step [OF 2(2), of TreeBlob] by auto
  let ?r = "?i\<lparr>byType := B3, idx_mixedPacks := IDSet_Merge (idx_mixedPacks idx) (idx_mixedPacks idx2),
     idx_ids := idx_ids idx @ idx_ids idx2, idx_supersedes := idx_supersedes idx @ idx_supersedes idx2\<rparr>"
  have "Index_merge idx idx2 = Ok ?r"
    using 1(1) 2(1) 3(1) assms(3) by (simp add: Index_merge_def fold_types Let_def)
  moreover have "idx_inv ?r" using 3(2) distinct_IDSet_Merge by (simp add: idx_inv_def)
  moreover have "idx_blobs ?r = idx_blobs (?i\<lparr>byType := B3\<rparr>)"
    using packed_append_packs [OF 3(2), of ?r "[]"] by (simp add: idx_blobs_def)
  moreover have "idx_blobs (?i\<lparr>byType := B3\<rparr>) = add_new (idx_blobs idx) (blob_list idx2)"
    by (simp add: 1(3) 2(3) 3(3) blob_list_def all_types_def flip: add_new_append)
  ultimately show ?thesis by (intro exI [of _ ?r]) simp
qed

section \<open>Lemmas: serialization\<close>

definition bj_blob :: "blobJSON \<Rightarrow> Blob" where
  "bj_blob b = \<lparr>bID = bjID b, bType = bjType b, bLength = bjLength b, bOffset = bjOffset b\<rparr>"

text \<open>The blobs a list of packs describes.\<close>

definition json_blobs :: "packJSON list \<Rightarrow> PackedBlob list" where
  "json_blobs ps = concat (map (\<lambda>p. map (\<lambda>b. in_pack (pjID p) (bj_blob b)) (pjBlobs p)) ps)"

lemma bj_blob_simps [simp]:
  "bID (bj_blob b) = bjID b" "bType (bj_blob b) = bjType b" "bLength (bj_blob b) = bjLength b"
  "bOffset (bj_blob b) = bjOffset b"
  by (simp_all add: bj_blob_def)

lemma json_blobs_simps [simp]:
  "json_blobs [] = []"
  "json_blobs (p # ps) = map (\<lambda>b. in_pack (pjID p) (bj_blob b)) (pjBlobs p) @ json_blobs ps"
  by (simp_all add: json_blobs_def)

lemma packlist_add_blobs:
  "mset (json_blobs (packlist_add p b l)) = add_mset (in_pack p (bj_blob b)) (mset (json_blobs l))"
  by (induction l) auto

lemma packlist_add_ids:
  "map pjID (packlist_add p b l) = (if p \<in> pjID ` set l then map pjID l else map pjID l @ [p])"
  by (induction l) auto

lemma packlist_add_wf:
  "distinct (map pjID l) \<and> (\<forall>q \<in> set l. pjBlobs q \<noteq> []) \<Longrightarrow>
    distinct (map pjID (packlist_add p b l)) \<and> (\<forall>q \<in> set (packlist_add p b l). pjBlobs q \<noteq> [])"
proof (intro conjI)
  assume l: "distinct (map pjID l) \<and> (\<forall>q \<in> set l. pjBlobs q \<noteq> [])"
  then show "distinct (map pjID (packlist_add p b l))" by (auto simp: packlist_add_ids)
  show "\<forall>q \<in> set (packlist_add p b l). pjBlobs q \<noteq> []" using l by (induction l) auto
qed

text \<open>The body of the loop of \<open>generatePackList\<close> on an entry of the index.\<close>

lemma generate_entries:
  assumes "\<forall>e \<in> set es. packIndex e < length (idx_packs idx) \<and> idx_packs idx ! packIndex e \<noteq> nullID"
  shows "\<exists>l'. fold (\<lambda>e r. bind_r r (\<lambda>lst. bind_r (index_r (idx_packs idx) (int (packIndex e))) (\<lambda>packID.
            if ID_IsNull packID then Panic ''null pack id''
            else Ok (packlist_add packID
              \<lparr>bjID = eID e, bjType = t, bjOffset = ucast (eOffset e), bjLength = ucast (eLength e)\<rparr> lst))))
          es (Ok l) = Ok l' \<and>
    mset (json_blobs l') = mset (map (packed idx t) es) + mset (json_blobs l) \<and>
    (distinct (map pjID l) \<and> (\<forall>q \<in> set l. pjBlobs q \<noteq> []) \<longrightarrow>
      distinct (map pjID l') \<and> (\<forall>q \<in> set l'. pjBlobs q \<noteq> []))"
  using assms
proof (induction es arbitrary: l)
  case (Cons e es)
  let ?b = "\<lparr>bjID = eID e, bjType = t, bjOffset = ucast (eOffset e), bjLength = ucast (eLength e)\<rparr>"
  let ?l = "packlist_add (idx_packs idx ! packIndex e) ?b l"
  have b: "in_pack (idx_packs idx ! packIndex e) (bj_blob ?b) = packed idx t e"
    by (simp add: in_pack_def bj_blob_def packed_def)
  have "index_r (idx_packs idx) (int (packIndex e)) = Ok (idx_packs idx ! packIndex e)"
    "\<not> ID_IsNull (idx_packs idx ! packIndex e)"
    using Cons.prems by (auto simp: index_r_def ID_IsNull_def)
  then show ?case
    using Cons.IH [of ?l] Cons.prems packlist_add_wf [of l "idx_packs idx ! packIndex e" ?b]
    by (auto simp: packlist_add_blobs b)
qed simp

lemma generatePackList_ok:
  assumes "idx_inv idx" "\<forall>b \<in># idx_blobs idx. PackID b \<noteq> nullID"
  shows "\<exists>l. generatePackList idx = Ok l \<and> mset (json_blobs l) = idx_blobs idx \<and>
    distinct (map pjID l) \<and> (\<forall>q \<in> set l. pjBlobs q \<noteq> [])"
proof -
  have ne: "packIndex e < length (idx_packs idx) \<and> idx_packs idx ! packIndex e \<noteq> nullID"
    if "e \<in> set (im_all (byType idx t))" for e t
  proof -
    have "packed idx t e \<in># idx_blobs idx" using that by (auto simp: mem_idx_blobs)
    with assms(2) have "PackID (packed idx t e) \<noteq> nullID" by blast
    then show ?thesis using idx_inv_entry [OF assms(1) that] by (simp add: packed_def)
  qed
  let ?g = "\<lambda>t. foreach (byType idx t) (\<lambda>e r. (bind_r r (\<lambda>lst.
          bind_r (index_r (idx_packs idx) (int (packIndex e))) (\<lambda>packID.
            if ID_IsNull packID then Panic ''null pack id''
            else Ok (packlist_add packID
              \<lparr>bjID = eID e, bjType = t, bjOffset = ucast (eOffset e), bjLength = ucast (eLength e)\<rparr> lst))), True))"
  let ?wf = "\<lambda>l. distinct (map pjID l) \<and> (\<forall>q \<in> set l. pjBlobs q \<noteq> [])"
  have step: "\<exists>l'. ?g t (Ok l) = Ok l' \<and> mset (json_blobs l') = mset (type_blobs idx t) + mset (json_blobs l) \<and>
      (?wf l \<longrightarrow> ?wf l')" for t l
    using generate_entries [of "im_all (byType idx t)" idx t l] ne by (simp add: foreach_all type_blobs_def)
  obtain l1 where 1: "?g InvalidBlob (Ok []) = Ok l1" "mset (json_blobs l1) = mset (type_blobs idx InvalidBlob)" "?wf l1"
    using step [of InvalidBlob "[]"] by auto
  obtain l2 where 2: "?g DataBlob (Ok l1) = Ok l2" "?wf l2"
    "mset (json_blobs l2) = mset (type_blobs idx DataBlob) + mset (json_blobs l1)"
    using step [of DataBlob l1] 1(3) by blast
  obtain l3 where 3: "?g TreeBlob (Ok l2) = Ok l3" "?wf l3"
    "mset (json_blobs l3) = mset (type_blobs idx TreeBlob) + mset (json_blobs l2)"
    using step [of TreeBlob l2] 2(2) by blast
  have "generatePackList idx = Ok l3" unfolding generatePackList_def fold_types 1(1) 2(1) by (rule 3(1))
  moreover have "mset (json_blobs l3) = idx_blobs idx"
    by (simp add: 3(3) 2(3) 1(2) mset_idx_blobs all_types_def ac_simps)
  ultimately show ?thesis using 3(2) by blast
qed

text \<open>The loop over the blobs of one pack in \<open>DecodeIndex\<close>.\<close>

lemma decode_blobs:
  assumes "idx_inv idx" "p < length (idx_packs idx)" "\<forall>b \<in> set bs. fits (bj_blob b)"
  shows "\<exists>B. fold_r (decode_blob p) bs (idx, d, t) =
      Ok (idx\<lparr>byType := B\<rparr>, d \<or> DataBlob \<in> bjType ` set bs, t \<or> TreeBlob \<in> bjType ` set bs) \<and>
    idx_inv (idx\<lparr>byType := B\<rparr>) \<and>
    idx_blobs (idx\<lparr>byType := B\<rparr>) = mset (map (\<lambda>b. in_pack (idx_packs idx ! p) (bj_blob b)) bs) + idx_blobs idx"
  using assms
proof (induction bs arbitrary: idx d t)
  case Nil
  then show ?case by (intro exI [of _ "byType idx"]) simp
next
  case (Cons b bs)
  obtain B where 1: "idx_store idx p (bj_blob b) = Ok (idx\<lparr>byType := B\<rparr>)" "idx_inv (idx\<lparr>byType := B\<rparr>)"
    "idx_blobs (idx\<lparr>byType := B\<rparr>) = add_mset (in_pack (idx_packs idx ! p) (bj_blob b)) (idx_blobs idx)"
    using idx_store_ok [OF Cons.prems(1,2)] Cons.prems(3) by (metis list.set_intros(1))
  show ?case
    using Cons.IH [OF 1(2), of "d \<or> bjType b = DataBlob" "t \<or> bjType b = TreeBlob"] Cons.prems(2,3) 1
    by (cases "bjType b") (auto simp: bj_blob_def decode_blob_def)
qed

definition is_mixed :: "packJSON \<Rightarrow> bool" where
  "is_mixed p \<longleftrightarrow> DataBlob \<in> bjType ` set (pjBlobs p) \<and> TreeBlob \<in> bjType ` set (pjBlobs p)"

lemma decode_pack_ok:
  assumes "idx_inv idx" "\<forall>b \<in> set (pjBlobs p). fits (bj_blob b)"
  shows "\<exists>idx'. decode_pack p idx = Ok idx' \<and> idx_inv idx' \<and>
    idx_blobs idx' = mset (json_blobs [p]) + idx_blobs idx \<and> idx_packs idx' = idx_packs idx @ [pjID p] \<and>
    set (idx_mixedPacks idx') = set (idx_mixedPacks idx) \<union> (if is_mixed p then {pjID p} else {}) \<and>
    idx_ids idx' = idx_ids idx"
proof -
  obtain idx1 n where a: "addToPacks idx (pjID p) = (idx1, n)" by fastforce
  note A = addToPacks_inv [OF assms(1) a]
  obtain B where D: "fold_r (decode_blob n) (pjBlobs p) (idx1, False, False) =
      Ok (idx1\<lparr>byType := B\<rparr>, DataBlob \<in> bjType ` set (pjBlobs p), TreeBlob \<in> bjType ` set (pjBlobs p))"
    and i: "idx_inv (idx1\<lparr>byType := B\<rparr>)"
    and b: "idx_blobs (idx1\<lparr>byType := B\<rparr>) = mset (json_blobs [p]) + idx_blobs idx"
    using decode_blobs [OF A(1,3) assms(2), of False False] A(2,4) by auto
  have B: "decode_pack p idx = (if is_mixed p
      then Ok (idx1\<lparr>byType := B, idx_mixedPacks := IDSet_Insert (idx_mixedPacks idx1) (pjID p)\<rparr>)
      else Ok (idx1\<lparr>byType := B\<rparr>))"
    by (simp add: decode_pack_def a is_mixed_def D)
  let ?r = "idx1\<lparr>byType := B, idx_mixedPacks := IDSet_Insert (idx_mixedPacks idx1) (pjID p)\<rparr>"
  have "idx_inv ?r" using i idset.inv_ins [of "idx_mixedPacks idx1"] by (simp add: idx_inv_def)
  moreover have "idx_blobs ?r = idx_blobs (idx1\<lparr>byType := B\<rparr>)"
    using packed_append_packs [OF i, of ?r "[]"] by (simp add: idx_blobs_def)
  ultimately show ?thesis using B i b by (cases "is_mixed p") (simp_all add: A(5) insert_absorb)
qed

lemma decode_packs_ok:
  assumes "idx_inv idx" "\<forall>b \<in> set (json_blobs ps). fits b"
  shows "\<exists>idx'. fold_r decode_pack ps idx = Ok idx' \<and> idx_inv idx' \<and>
    idx_blobs idx' = mset (json_blobs ps) + idx_blobs idx \<and> idx_packs idx' = idx_packs idx @ map pjID ps \<and>
    set (idx_mixedPacks idx') = set (idx_mixedPacks idx) \<union> pjID ` {p \<in> set ps. is_mixed p} \<and>
    idx_ids idx' = idx_ids idx"
  using assms
proof (induction ps arbitrary: idx)
  case (Cons p ps)
  have "\<forall>b \<in> set (pjBlobs p). fits (bj_blob b)"
    using Cons.prems(2) by (metis (no_types, lifting) UnCI fits_in_pack image_eqI json_blobs_simps(2) list.set_map set_append)
  then obtain idx1 where 1: "decode_pack p idx = Ok idx1" "idx_inv idx1"
    "idx_blobs idx1 = mset (json_blobs [p]) + idx_blobs idx" "idx_packs idx1 = idx_packs idx @ [pjID p]"
    "set (idx_mixedPacks idx1) = set (idx_mixedPacks idx) \<union> (if is_mixed p then {pjID p} else {})"
    "idx_ids idx1 = idx_ids idx"
    using decode_pack_ok [OF Cons.prems(1)] by blast
  obtain idx2 where 2: "fold_r decode_pack ps idx1 = Ok idx2" "idx_inv idx2"
    "idx_blobs idx2 = mset (json_blobs ps) + idx_blobs idx1" "idx_packs idx2 = idx_packs idx1 @ map pjID ps"
    "set (idx_mixedPacks idx2) = set (idx_mixedPacks idx1) \<union> pjID ` {p \<in> set ps. is_mixed p}"
    "idx_ids idx2 = idx_ids idx1"
    using Cons.IH [OF 1(2)] Cons.prems(2) by auto
  have "set (idx_mixedPacks idx2) = set (idx_mixedPacks idx) \<union> pjID ` {q \<in> set (p # ps). is_mixed q}"
    by (auto simp: 2(5) 1(5))
  with 1 2 show ?case by (intro exI [of _ idx2]) (simp add: ac_simps)
qed simp

lemma DecodeIndex_ok:
  assumes "\<forall>b \<in> set (json_blobs (jsPacks js)). fits b"
  shows "\<exists>idx. DecodeIndex hs now (Unmarshalled js) old i = Ok (idx, False) \<and> idx_inv idx \<and>
    idx_blobs idx = mset (json_blobs (jsPacks js)) \<and> idx_final idx \<and> idx_ids idx = [i] \<and>
    idx_supersedes idx = jsSupersedes js \<and> idx_packs idx = map pjID (jsPacks js) \<and>
    set (idx_mixedPacks idx) = pjID ` {p \<in> set (jsPacks js). is_mixed p}"
proof -
  obtain idx where 1: "fold_r decode_pack (jsPacks js) (NewIndex hs now) = Ok idx" "idx_inv idx"
    "idx_blobs idx = mset (json_blobs (jsPacks js))" "idx_packs idx = map pjID (jsPacks js)"
    "set (idx_mixedPacks idx) = pjID ` {p \<in> set (jsPacks js). is_mixed p}" "idx_ids idx = []"
    using decode_packs_ok [OF NewIndex_inv assms, of hs now] by auto
  let ?r = "idx\<lparr>idx_supersedes := jsSupersedes js, idx_ids := idx_ids idx @ [i], idx_final := True\<rparr>"
  have "idx_inv ?r" using 1(2) by (simp add: idx_inv_def)
  moreover have "idx_blobs ?r = idx_blobs idx"
    using packed_append_packs [OF 1(2), of ?r "[]"] by (simp add: idx_blobs_def)
  ultimately show ?thesis using 1 by (intro exI [of _ ?r]) (simp add: DecodeIndex_def)
qed

lemma idx_blobs_fit: "b \<in># idx_blobs idx \<Longrightarrow> fits b"
proof -
  have le: "ucast (w :: uint32) \<le> maxuint32" for w
    using unat_ucast_32_64 [of w] by (simp add: maxuint32_def word_le_nat_alt)
  assume "b \<in># idx_blobs idx"
  then obtain e where "b = packed idx (bType b) e" by (auto simp: mem_idx_blobs)
  then show ?thesis by (metis le fits_def packed_def Blob.select_convs(1,2))
qed

section \<open>Lemmas: listing by pack\<close>

definition bypack_entries :: "(ID \<times> 'e list) list \<Rightarrow> (ID \<times> 'e) list" where
  "bypack_entries l = concat (map (\<lambda>(p, es). map (Pair p) es) l)"

lemma bypack_append_entries:
  "mset (bypack_entries (bypack_append p e l)) = add_mset (p, e) (mset (bypack_entries l))"
  by (induction l) (auto simp: bypack_entries_def)

text \<open>The blobs that a list of results of \<open>EachByPack\<close> describes.\<close>

definition grouped_blobs :: "(ID \<times> Blob list) list \<Rightarrow> PackedBlob list" where
  "grouped_blobs l = concat (map (\<lambda>(p, bs). map (in_pack p) bs) l)"

lemma grouped_blobs_append [simp]: "grouped_blobs (l @ l') = grouped_blobs l @ grouped_blobs l'"
  by (simp add: grouped_blobs_def)

lemma grouped_blobs_entries: "grouped_blobs l = map (\<lambda>(p, b). in_pack p b) (bypack_entries l)"
  by (induction l) (auto simp: grouped_blobs_def bypack_entries_def)

lemma bypack_collect:
  assumes "\<forall>e \<in> set es. packIndex e < length (idx_packs idx)"
  shows "\<exists>l'. fold (\<lambda>e r. bind_r r (\<lambda>byPack. bind_r (index_r (idx_packs idx) (int (packIndex e))) (\<lambda>packID.
        if keep packID then Ok (bypack_append packID e byPack) else Ok byPack))) es (Ok l) = Ok l' \<and>
      mset (bypack_entries l') =
        mset (map (\<lambda>e. (idx_packs idx ! packIndex e, e)) (filter (\<lambda>e. keep (idx_packs idx ! packIndex e)) es)) +
        mset (bypack_entries l)"
  using assms
proof (induction es arbitrary: l)
  case (Cons e es)
  let ?p = "idx_packs idx ! packIndex e"
  have "index_r (idx_packs idx) (int (packIndex e)) = Ok ?p" using Cons.prems by (simp add: index_r_def)
  then show ?case
    using Cons.IH [of "if keep ?p then bypack_append ?p e l else l"] Cons.prems
    by (auto simp: bypack_append_entries)
qed simp

lemma eachByPack_type_ok:
  assumes "idx_inv idx"
  shows "\<exists>l. eachByPack_type idx bl t = Ok l \<and> mset (grouped_blobs l) =
    filter_mset (\<lambda>b. \<not> idx_final idx \<or> PackID b \<notin> set bl) (mset (type_blobs idx t))"
proof -
  let ?keep = "\<lambda>p. \<not> idx_final idx \<or> \<not> IDSet_Has bl p"
  let ?es = "im_all (byType idx t)"
  have valid: "\<forall>e \<in> set ?es. packIndex e < length (idx_packs idx)" using idx_inv_entry [OF assms] by blast
  obtain byPack where col: "foreach (byType idx t) (\<lambda>e r. (bind_r r (\<lambda>byPack.
      bind_r (index_r (idx_packs idx) (int (packIndex e))) (\<lambda>packID.
        if ?keep packID then Ok (bypack_append packID e byPack) else Ok byPack)), True)) (Ok []) = Ok byPack"
    and ent: "mset (bypack_entries byPack) =
      mset (map (\<lambda>e. (idx_packs idx ! packIndex e, e)) (filter (\<lambda>e. ?keep (idx_packs idx ! packIndex e)) ?es))"
    using bypack_collect [OF valid, of ?keep "[]"] by (auto simp: foreach_all bypack_entries_def)
  have "set (bypack_entries byPack) =
    set (map (\<lambda>e. (idx_packs idx ! packIndex e, e)) (filter (\<lambda>e. ?keep (idx_packs idx ! packIndex e)) ?es))"
    by (rule mset_eq_setD [OF ent])
  then have P: "(p, e) \<in> set (bypack_entries byPack) \<Longrightarrow> packIndex e < length (idx_packs idx)" for p e
    using valid by auto
  let ?g = "\<lambda>(p, es). (p, map (\<lambda>e. blob_of (packed idx t e)) es)"
  have ok: "mapM_r (\<lambda>(packID, pack). map_r (\<lambda>bs. (packID, bs)) (mapM_r (\<lambda>e. map_r blob_of (toPackedBlob idx e t)) pack))
      byPack = Ok (map ?g byPack)"
  proof (rule mapM_r_Ok, clarify)
    fix p es
    assume "(p, es) \<in> set byPack"
    then have "\<forall>e \<in> set es. (p, e) \<in> set (bypack_entries byPack)" by (auto simp: bypack_entries_def)
    then have "mapM_r (\<lambda>e. map_r blob_of (toPackedBlob idx e t)) es = Ok (map (\<lambda>e. blob_of (packed idx t e)) es)"
      using P by (intro mapM_r_Ok) (auto simp: toPackedBlob_ok)
    then show "map_r (\<lambda>bs. (p, bs)) (mapM_r (\<lambda>e. map_r blob_of (toPackedBlob idx e t)) es) =
      Ok (p, map (\<lambda>e. blob_of (packed idx t e)) es)" by simp
  qed
  have "bypack_entries (map ?g byPack) = map (\<lambda>(p, e). (p, blob_of (packed idx t e))) (bypack_entries byPack)"
    by (induction byPack) (auto simp: bypack_entries_def)
  then have "grouped_blobs (map ?g byPack) =
      map (\<lambda>(p, e). in_pack p (blob_of (packed idx t e))) (bypack_entries byPack)"
    by (simp add: grouped_blobs_entries o_def case_prod_beta)
  then have "mset (grouped_blobs (map ?g byPack)) =
      image_mset (\<lambda>(p, e). in_pack p (blob_of (packed idx t e))) (mset (bypack_entries byPack))"
    by simp
  also have "\<dots> = mset (map (packed idx t) (filter (\<lambda>e. ?keep (idx_packs idx ! packIndex e)) ?es))"
    unfolding ent mset_map multiset.map_comp
    by (intro image_mset_cong) (simp add: in_pack_def packed_def blob_of_def)
  also have "map (packed idx t) (filter (\<lambda>e. ?keep (idx_packs idx ! packIndex e)) ?es) =
      filter (\<lambda>b. \<not> idx_final idx \<or> PackID b \<notin> set bl) (type_blobs idx t)"
    by (simp add: type_blobs_def filter_map o_def packed_def)
  finally show ?thesis using col ok by (simp add: eachByPack_type_def)
qed

lemma EachByPack_ok:
  assumes "idx_inv idx"
  shows "\<exists>l. Index_EachByPack idx bl = Ok l \<and> mset (grouped_blobs l) =
    filter_mset (\<lambda>b. \<not> idx_final idx \<or> PackID b \<notin> set bl) (idx_blobs idx)"
proof -
  note T = eachByPack_type_ok [OF assms, of bl]
  obtain l1 l2 l3 where "eachByPack_type idx bl InvalidBlob = Ok l1" "eachByPack_type idx bl DataBlob = Ok l2"
    "eachByPack_type idx bl TreeBlob = Ok l3"
    and "mset (grouped_blobs l1) = filter_mset (\<lambda>b. \<not> idx_final idx \<or> PackID b \<notin> set bl) (mset (type_blobs idx InvalidBlob))"
    "mset (grouped_blobs l2) = filter_mset (\<lambda>b. \<not> idx_final idx \<or> PackID b \<notin> set bl) (mset (type_blobs idx DataBlob))"
    "mset (grouped_blobs l3) = filter_mset (\<lambda>b. \<not> idx_final idx \<or> PackID b \<notin> set bl) (mset (type_blobs idx TreeBlob))"
    using T [of InvalidBlob] T [of DataBlob] T [of TreeBlob] by blast
  then show ?thesis
    by (intro exI [of _ "l1 @ l2 @ l3"]) (simp add: Index_EachByPack_def all_types_def mset_idx_blobs)
qed

section \<open>The contract of an index\<close>

text \<open>
  What the master index relies on: an index is a list of \<open>PackedBlob\<close>s, and its queries, its listing
  by pack, \<open>StorePack\<close> and \<open>merge\<close> do to that list what their names say.
\<close>

locale blob_index =
  fixes inv :: "'i \<Rightarrow> bool"
    and blobs :: "'i \<Rightarrow> PackedBlob list"
    and fin :: "'i \<Rightarrow> bool"
    and has :: "'i \<Rightarrow> BlobHandle \<Rightarrow> bool"
    and lookup :: "'i \<Rightarrow> BlobHandle \<Rightarrow> PackedBlob list \<Rightarrow> PackedBlob list res"
    and lookup_size :: "'i \<Rightarrow> BlobHandle \<Rightarrow> uint \<times> bool"
    and each :: "'i \<Rightarrow> PackedBlob list res"
    and store_pack :: "'i \<Rightarrow> ID \<Rightarrow> Blob list \<Rightarrow> 'i res"
    and mrg :: "'i \<Rightarrow> 'i \<Rightarrow> 'i res"
  assumes has_iff: "inv x \<Longrightarrow> has x bh \<longleftrightarrow> (\<exists>b \<in> set (blobs x). handle_of b = bh)"
    and lookup_eq: "inv x \<Longrightarrow> lookup x bh pbs = Ok (pbs @ filter (\<lambda>b. handle_of b = bh) (blobs x))"
    and lookup_size_found: "inv x \<Longrightarrow> snd (lookup_size x bh) = has x bh"
    and lookup_size_eq: "inv x \<Longrightarrow> has x bh \<Longrightarrow>
      \<exists>b \<in> set (blobs x). handle_of b = bh \<and> fst (lookup_size x bh) = bLength b - 32"
    and each_eq: "inv x \<Longrightarrow> each x = Ok (blobs x)"
    and store_pack_ok: "inv x \<Longrightarrow> \<not> fin x \<Longrightarrow> \<forall>b \<in> set bs. fits b \<Longrightarrow>
      \<exists>y. store_pack x p bs = Ok y \<and> inv y \<and> \<not> fin y \<and> mset (blobs y) = mset (map (in_pack p) bs) + mset (blobs x)"
    and mrg_ok: "inv x \<Longrightarrow> inv y \<Longrightarrow> fin y \<Longrightarrow>
      \<exists>z. mrg x y = Ok z \<and> inv z \<and> fin z = fin x \<and> mset (blobs z) = add_new (mset (blobs x)) (blobs y)"

lemma LookupSize_found: "snd (Index_LookupSize idx bh) = Index_Has idx bh"
  by (simp add: Index_LookupSize_def Index_Has_def split: option.split)

lemma LookupSize_eq:
  assumes "idx_inv idx" "Index_Has idx bh"
  shows "\<exists>b \<in># idx_blobs idx. handle_of b = bh \<and> fst (Index_LookupSize idx bh) = bLength b - 32"
proof -
  obtain e where e: "im_get (byType idx (bType bh)) (bID bh) = Some e"
    using assms(2) by (auto simp: Index_Has_def)
  then have m: "e \<in> set (im_all (byType idx (bType bh)))" "eID e = bID bh"
    using im.get1_Some [OF idx_inv_map [OF assms(1)] e] im.having_eq [OF idx_inv_map [OF assms(1)]] by auto
  let ?b = "packed idx (bType bh) e"
  have "?b \<in># idx_blobs idx" using m(1) by (auto simp: mem_idx_blobs)
  moreover have "handle_of ?b = bh" using m(2) by (simp add: handle_of_eq)
  moreover have "word_of_int (uint (eLength e) - 32) = (ucast (eLength e) - 32 :: uint)"
    by (simp only: ucast_eq of_int_diff of_int_numeral)
  ultimately show ?thesis
    using e by (intro bexI [of _ ?b]) (auto simp: Index_LookupSize_def PlaintextLength_def size_defs packed_def)
qed

interpretation index: blob_index idx_inv blob_list idx_final Index_Has Index_Lookup Index_LookupSize
  Index_Each Index_StorePack Index_merge
proof
  fix x bh pbs
  assume x: "idx_inv x"
  show has: "Index_Has x bh \<longleftrightarrow> (\<exists>b \<in> set (blob_list x). handle_of b = bh)"
    using Has_iff [OF x] by (simp add: idx_blobs_def)
  show "Index_Lookup x bh pbs = Ok (pbs @ filter (\<lambda>b. handle_of b = bh) (blob_list x))"
    by (rule Lookup_blobs [OF x])
  show "snd (Index_LookupSize x bh) = Index_Has x bh" by (rule LookupSize_found)
  show "Index_Has x bh \<Longrightarrow> \<exists>b \<in> set (blob_list x). handle_of b = bh \<and> fst (Index_LookupSize x bh) = bLength b - 32"
    using LookupSize_eq [OF x] by (simp add: idx_blobs_def)
  show "Index_Each x = Ok (blob_list x)" by (rule Each_eq [OF x])
next
  fix x p bs
  assume "idx_inv x" "\<not> idx_final x" "\<forall>b \<in> set bs. fits (b :: Blob)"
  then show "\<exists>y. Index_StorePack x p bs = Ok y \<and> idx_inv y \<and> \<not> idx_final y \<and>
      mset (blob_list y) = mset (map (in_pack p) bs) + mset (blob_list x)"
    using StorePack_ok by (simp add: idx_blobs_def) blast
next
  fix x y
  assume "idx_inv x" "idx_inv y" "idx_final y"
  then show "\<exists>z. Index_merge x y = Ok z \<and> idx_inv z \<and> idx_final z = idx_final x \<and>
      mset (blob_list z) = add_new (mset (blob_list x)) (blob_list y)"
    using merge_ok [of x y] by (auto simp: idx_blobs_def)
qed

text \<open>A small index for concrete evaluations.\<close>

definition toy_blob :: Blob where
  "toy_blob = \<lparr>bID = replicate 32 7, bType = DataBlob, bLength = 40, bOffset = 0\<rparr>"

definition toy_index :: Index where
  "toy_index =
     (case Index_StorePack (NewIndex (\<lambda>_ _. 0) 0) (replicate 32 1) [toy_blob] of
        Ok idx \<Rightarrow> Index_Finalize idx | _ \<Rightarrow> NewIndex (\<lambda>_ _. 0) 0)"

lemma toy_index_inv:
  "idx_inv toy_index" "idx_final toy_index" "idx_blobs toy_index = {#in_pack (replicate 32 1) toy_blob#}"
proof -
  have "fits toy_blob" by (simp add: fits_def toy_blob_def maxuint32_def)
  then obtain idx where i: "Index_StorePack (NewIndex (\<lambda>_ _. 0) 0) (replicate 32 1) [toy_blob] = Ok idx" "idx_inv idx"
    "idx_blobs idx = {#in_pack (replicate 32 1) toy_blob#}"
    using StorePack_ok [of "NewIndex (\<lambda>_ _. 0) 0" "[toy_blob]" "replicate 32 1"] by auto
  show "idx_inv toy_index" "idx_final toy_index" "idx_blobs toy_index = {#in_pack (replicate 32 1) toy_blob#}"
    using Finalize_ok [OF i(2)] i by (simp_all add: toy_index_def idx_blobs_def)
qed

section \<open>Properties\<close>

text \<open>Storing a pack in an index that is not final adds exactly its blobs: afterwards \<open>Lookup\<close> of
  any handle finds the stored blobs with that handle in addition to what it found before, \<open>Has\<close>
  knows exactly the old and the new handles, and the index stays consistent. (Blobs within the
  32 bits that an entry has for offset and length; otherwise \<open>StorePack\<close> panics.)\<close>

theorem StorePack_Lookup:
  assumes "idx_inv idx" "\<not> idx_final idx" "\<forall>b \<in> set bs. fits b"
  shows "\<exists>idx'. Index_StorePack idx p bs = Ok idx' \<and> idx_inv idx' \<and>
    (\<forall>bh. Index_Has idx' bh \<longleftrightarrow> Index_Has idx bh \<or> bh \<in> handle_of ` set bs) \<and>
    (\<forall>bh. \<exists>old new. Index_Lookup idx bh [] = Ok old \<and> Index_Lookup idx' bh [] = Ok new \<and>
      mset new = mset (map (in_pack p) (filter (\<lambda>b. handle_of b = bh) bs)) + mset old)"
proof -
  obtain y where y: "Index_StorePack idx p bs = Ok y" "idx_inv y"
    "mset (blob_list y) = mset (map (in_pack p) bs) + mset (blob_list idx)"
    using index.store_pack_ok [OF assms] by blast
  have s: "set (blob_list y) = in_pack p ` set bs \<union> set (blob_list idx)"
    using arg_cong [OF y(3), of set_mset] by simp
  have "mset (filter (\<lambda>b. handle_of b = bh) (blob_list y)) =
      mset (map (in_pack p) (filter (\<lambda>b. handle_of b = bh) bs)) + mset (filter (\<lambda>b. handle_of b = bh) (blob_list idx))" for bh
    using arg_cong [OF y(3), of "filter_mset (\<lambda>b. handle_of b = bh)"]
    by (simp add: filter_mset_image_mset o_def)
  moreover have "Index_Has y bh \<longleftrightarrow> Index_Has idx bh \<or> bh \<in> handle_of ` set bs" for bh
    unfolding index.has_iff [OF y(2)] index.has_iff [OF assms(1)] s by (auto simp: bex_Un)
  ultimately show ?thesis
    using y(1,2) index.lookup_eq [OF y(2)] index.lookup_eq [OF assms(1)] by auto
qed

theorem StorePack_Lookup_witness:
  "\<exists>idx'. Index_StorePack (NewIndex (\<lambda>_ _. 0) 0) (replicate 32 1) [toy_blob] = Ok idx' \<and>
    Index_Has idx' (handle_of toy_blob)"
  using StorePack_Lookup [of "NewIndex (\<lambda>_ _. 0) 0" "[toy_blob]" "replicate 32 1"]
  by (auto simp: fits_def toy_blob_def maxuint32_def)

text \<open>C11: Merging a final index into an index adds each blob of the other index that is not yet there
  exactly once, so that exact duplicates (same handle, pack, offset and length) are removed and
  nothing is lost; the packs, the IDs and the superseded IDs are those of both.\<close>

theorem merge_adds_missing:
  assumes "idx_inv idx" "idx_inv idx2" "idx_final idx2"
  shows "\<exists>idx'. Index_merge idx idx2 = Ok idx' \<and> idx_inv idx' \<and>
    (\<forall>b. count (idx_blobs idx') b =
      (if b \<in># idx_blobs idx then count (idx_blobs idx) b else if b \<in># idx_blobs idx2 then 1 else 0)) \<and>
    (\<forall>bh. Index_Has idx' bh \<longleftrightarrow> Index_Has idx bh \<or> Index_Has idx2 bh) \<and>
    idx_packs idx' = idx_packs idx @ idx_packs idx2 \<and> idx_ids idx' = idx_ids idx @ idx_ids idx2 \<and>
    idx_supersedes idx' = idx_supersedes idx @ idx_supersedes idx2"
proof -
  obtain z where z: "Index_merge idx idx2 = Ok z" "idx_inv z" "idx_blobs z = add_new (idx_blobs idx) (blob_list idx2)"
    "idx_packs z = idx_packs idx @ idx_packs idx2" "idx_ids z = idx_ids idx @ idx_ids idx2"
    "idx_supersedes z = idx_supersedes idx @ idx_supersedes idx2"
    using merge_ok [OF assms] by blast
  have "count (idx_blobs z) b =
      (if b \<in># idx_blobs idx then count (idx_blobs idx) b else if b \<in># idx_blobs idx2 then 1 else 0)" for b
    unfolding z(3) add_new_def by (auto simp: count_mset_set' idx_blobs_def [of idx2] not_in_iff)
  moreover have "Index_Has z bh \<longleftrightarrow> Index_Has idx bh \<or> Index_Has idx2 bh" for bh
    using Has_iff [OF z(2), of bh] Has_iff [OF assms(1), of bh] Has_iff [OF assms(2), of bh]
    by (auto simp: z(3) idx_blobs_def [of idx2])
  ultimately show ?thesis using z by blast
qed

theorem merge_adds_missing_witness:
  "\<exists>idx'. Index_merge toy_index toy_index = Ok idx' \<and> idx_blobs idx' = {#in_pack (replicate 32 1) toy_blob#}"
proof -
  obtain idx' where "Index_merge toy_index toy_index = Ok idx'"
    and c: "\<forall>b. count (idx_blobs idx') b = (if b \<in># idx_blobs toy_index then count (idx_blobs toy_index) b else 0)"
    using merge_adds_missing [of toy_index toy_index] toy_index_inv(1,2) by auto
  moreover have "idx_blobs idx' = idx_blobs toy_index"
    using c by (intro multiset_eqI) (simp add: not_in_iff)
  ultimately show ?thesis by (simp add: toy_index_inv(3))
qed



end
