(* ===== verification/MasterIndex.thy ===== *)
theory MasterIndex
  imports Index Pack
begin

text \<open>
  \<open>repository/master_index.go\<close>: the collection of all indexes of a repository and of the handles of
  the blobs that are being saved.

  A pointer to an index of the collection is its position in \<open>mi.idx\<close>. As in \<open>Index\<close>, a method holds
  the mutex for its whole body and is one atomic step. \<open>hs\<close> and \<open>now\<close> (or \<open>clk\<close>, the reading of the
  clock at each step of a loop) are what \<open>NewIndex\<close> draws from its environment.

  The lemmas over lists of indexes are proved from the contract \<open>blob_index\<close>. The relation \<open>mi_step\<close>
  has one rule for each operation that changes the collection; along its runs a handle never becomes
  unknown again, so that \<open>addPending\<close> grants it once.
\<close>

section \<open>State and queries\<close>

record MasterIndex =
  mi_idx :: "Index list"
  pendingBlobs :: BlobSet

definition NewMasterIndex :: "(BlobType \<Rightarrow> ID \<Rightarrow> uint) \<Rightarrow> int \<Rightarrow> MasterIndex" where
  "NewMasterIndex hs now = \<lparr>mi_idx = [Index_Finalize (NewIndex hs now)], pendingBlobs = NewBlobSet []\<rparr>"

definition MI_Lookup :: "MasterIndex \<Rightarrow> BlobHandle \<Rightarrow> PackedBlob list res" where
  "MI_Lookup mi bh = fold_r (\<lambda>idx pbs. Index_Lookup idx bh pbs) (mi_idx mi) []"

primrec lookupSize_loop :: "Index list \<Rightarrow> BlobHandle \<Rightarrow> uint \<times> bool" where
  "lookupSize_loop [] bh = (0, False)"
| "lookupSize_loop (idx # idxs) bh =
     (let (sz, found) = Index_LookupSize idx bh in if found then (sz, found) else lookupSize_loop idxs bh)"

definition MI_LookupSize :: "MasterIndex \<Rightarrow> BlobHandle \<Rightarrow> uint \<times> bool" where
  "MI_LookupSize mi bh = lookupSize_loop (mi_idx mi) bh"

definition addPending :: "MasterIndex \<Rightarrow> BlobHandle \<Rightarrow> MasterIndex \<times> bool" where
  "addPending mi bh =
     (if BlobSet_Has (pendingBlobs mi) bh then (mi, False)
      else if list_ex (\<lambda>idx. Index_Has idx bh) (mi_idx mi) then (mi, False)
      else (mi\<lparr>pendingBlobs := BlobSet_Insert (pendingBlobs mi) bh\<rparr>, True))"

definition MI_Has :: "MasterIndex \<Rightarrow> BlobHandle \<Rightarrow> bool" where
  "MI_Has mi bh =
     (if BlobSet_Has (pendingBlobs mi) bh then True
      else list_ex (\<lambda>idx. Index_Has idx bh) (mi_idx mi))"

definition IsMixedPack :: "MasterIndex \<Rightarrow> ID \<Rightarrow> bool" where
  "IsMixedPack mi packID = list_ex (\<lambda>idx. IDSet_Has (Index_MixedPacks idx) packID) (mi_idx mi)"

definition MI_Packs :: "MasterIndex \<Rightarrow> IDSet \<Rightarrow> IDSet" where
  "MI_Packs mi packBlacklist =
     fold (\<lambda>idx packs.
       let idxPacks = Index_Packs idx;
           idxPacks' = (if idx_final idx then IDSet_Sub idxPacks packBlacklist else idxPacks)
       in IDSet_Merge packs idxPacks')
       (mi_idx mi) (NewIDSet [])"

definition MI_Each :: "MasterIndex \<Rightarrow> PackedBlob list res" where
  "MI_Each mi = fold_r (\<lambda>idx acc. map_r (\<lambda>pbs. acc @ pbs) (Index_Each idx)) (mi_idx mi) []"

definition packSize_step :: "bool \<Rightarrow> PackedBlob \<Rightarrow> (ID \<rightharpoonup> int) \<Rightarrow> (ID \<rightharpoonup> int)" where
  "packSize_step onlyHdr blob packSize =
     (let sz = (case packSize (PackID blob) of Some s \<Rightarrow> s | None \<Rightarrow> int HeaderSize);
          sz' = (if \<not> onlyHdr then sz + uint (bLength blob) else sz)
      in packSize(PackID blob \<mapsto> sz' + int EntrySize))"

definition MI_PackSize :: "MasterIndex \<Rightarrow> bool \<Rightarrow> (ID \<rightharpoonup> int) res" where
  "MI_PackSize mi onlyHdr = map_r (\<lambda>bs. fold (packSize_step onlyHdr) bs Map.empty) (MI_Each mi)"

definition MI_Count :: "MasterIndex \<Rightarrow> BlobType \<Rightarrow> nat" where
  "MI_Count mi t = fold (\<lambda>idx sum. sum + Index_Count idx t) (mi_idx mi) 0"

definition MI_All :: "MasterIndex \<Rightarrow> Index list" where
  "MI_All mi = mi_idx mi"

section \<open>Changes\<close>

definition MI_Insert :: "MasterIndex \<Rightarrow> Index \<Rightarrow> MasterIndex" where
  "MI_Insert mi idx = mi\<lparr>mi_idx := mi_idx mi @ [idx]\<rparr>"

primrec storePack_loop :: "Index \<Rightarrow> ID \<Rightarrow> Blob list \<Rightarrow> Index list \<Rightarrow> Index list res" where
  "storePack_loop newIdx i blobs [] = map_r (\<lambda>x. [x]) (Index_StorePack newIdx i blobs)"
| "storePack_loop newIdx i blobs (idx # idxs) =
     (if \<not> Index_Final idx then map_r (\<lambda>x. x # idxs) (Index_StorePack idx i blobs)
      else map_r (\<lambda>xs. idx # xs) (storePack_loop newIdx i blobs idxs))"

definition MI_StorePack ::
  "(BlobType \<Rightarrow> ID \<Rightarrow> uint) \<Rightarrow> int \<Rightarrow> MasterIndex \<Rightarrow> ID \<Rightarrow> Blob list \<Rightarrow> MasterIndex res" where
  "MI_StorePack hs now mi i blobs =
     (let pending = fold (\<lambda>blob s. BlobSet_Delete s (handle_of blob)) blobs (pendingBlobs mi)
      in map_r (\<lambda>idxs. mi\<lparr>mi_idx := idxs, pendingBlobs := pending\<rparr>)
           (storePack_loop (NewIndex hs now) i blobs (mi_idx mi)))"

text \<open>The positions of the indexes that were finalized are returned.\<close>

definition finalize_where :: "(Index \<Rightarrow> bool) \<Rightarrow> MasterIndex \<Rightarrow> MasterIndex \<times> nat list" where
  "finalize_where p mi =
     (mi\<lparr>mi_idx := map (\<lambda>idx. if p idx then Index_Finalize idx else idx) (mi_idx mi)\<rparr>,
      filter (\<lambda>j. p (mi_idx mi ! j)) [0..<length (mi_idx mi)])"

definition FinalizeNotFinalIndexes :: "MasterIndex \<Rightarrow> MasterIndex \<times> nat list" where
  "FinalizeNotFinalIndexes mi = finalize_where (\<lambda>idx. \<not> Index_Final idx) mi"

definition FinalizeFullIndexes :: "int \<Rightarrow> MasterIndex \<Rightarrow> MasterIndex \<times> nat list" where
  "FinalizeFullIndexes now mi = finalize_where (\<lambda>idx. \<not> Index_Final idx \<and> IndexFull now idx) mi"

text \<open>
  \<open>MergeFinalIndexes\<close> works in place: \<open>newIdx\<close> is a slice of length \<open>n\<close> over the array of \<open>mi.idx\<close>, so
  that appending to it writes into the array, at a position that has been read already. \<open>None\<close> is a
  nil pointer.
\<close>

function mergeFinal_loop :: "nat \<Rightarrow> nat \<Rightarrow> Index option list \<Rightarrow> (Index option list \<times> nat) res" where
  "mergeFinal_loop i n arr =
     (if i \<ge> length arr then Ok (arr, n)
      else
        (case arr ! i of
           None \<Rightarrow> Panic ''nil pointer dereference''
         | Some idx \<Rightarrow>
             (let arr1 = arr[i := None] in
              if \<not> Index_Final idx then mergeFinal_loop (i + 1) (n + 1) (arr1[n := Some idx])
              else
                (case arr1 ! 0 of
                   None \<Rightarrow> Panic ''nil pointer dereference''
                 | Some idx0 \<Rightarrow>
                     (case Index_merge idx0 idx of
                        Ok idx0' \<Rightarrow> mergeFinal_loop (i + 1) n (arr1[0 := Some idx0'])
                      | Err e \<Rightarrow> Err (Wrap e ''MergeFinalIndexes: %w'')
                      | Panic m \<Rightarrow> Panic m)))))"
  by pat_completeness auto
termination
  by (relation "measure (\<lambda>(i, n, arr). length arr - i)") auto

definition MergeFinalIndexes :: "MasterIndex \<Rightarrow> MasterIndex res" where
  "MergeFinalIndexes mi =
     bind_r (slice_to (map Some (mi_idx mi)) 1) (\<lambda>newIdx.
     bind_r (mergeFinal_loop 1 (length newIdx) (map Some (mi_idx mi))) (\<lambda>(arr, n).
       Ok (mi\<lparr>mi_idx := map the (take n arr)\<rparr>)))"

section \<open>Saving\<close>

text \<open>
  \<open>Save\<close>: the goroutine that rebuilds the indexes, as the list of the indexes it sends to its workers;
  \<open>k\<close> counts the steps of the loop, for the clock.
\<close>

definition save_pack ::
  "(BlobType \<Rightarrow> ID \<Rightarrow> uint) \<Rightarrow> (nat \<Rightarrow> int) \<Rightarrow> ID \<times> Blob list \<Rightarrow> Index \<times> Index list \<times> nat \<Rightarrow>
    (Index \<times> Index list \<times> nat) res" where
  "save_pack hs clk pbs s =
     (let (newIndex, out, k) = s in
      bind_r (Index_StorePack newIndex (fst pbs) (snd pbs)) (\<lambda>newIndex'.
        if IndexFull (clk k) newIndex' then Ok (NewIndex hs (clk k), out @ [newIndex'], k + 1)
        else Ok (newIndex', out, k + 1)))"

definition save_index ::
  "(BlobType \<Rightarrow> ID \<Rightarrow> uint) \<Rightarrow> (nat \<Rightarrow> int) \<Rightarrow> IDSet \<Rightarrow> Index \<Rightarrow> IDSet \<times> Index \<times> Index list \<times> nat \<Rightarrow>
    (IDSet \<times> Index \<times> Index list \<times> nat) res" where
  "save_index hs clk packBlacklist idx s =
     (let (obsolete, newIndex, out, k) = s in
      bind_r
        (if Index_Final idx
         then bind_r (Index_IDs idx) (\<lambda>ids.
              bind_r (Index_AddToSupersedes newIndex ids) (\<lambda>newIndex'.
                Ok (IDSet_Merge obsolete (NewIDSet ids), newIndex')))
         else Ok (obsolete, newIndex))
        (\<lambda>(obsolete', newIndex').
          bind_r (Index_EachByPack idx packBlacklist) (\<lambda>l.
          bind_r (fold_r (save_pack hs clk) l (newIndex', out, k)) (\<lambda>s'. Ok (obsolete', s')))))"

definition rebuild ::
  "(BlobType \<Rightarrow> ID \<Rightarrow> uint) \<Rightarrow> (nat \<Rightarrow> int) \<Rightarrow> MasterIndex \<Rightarrow> IDSet \<Rightarrow> IDs \<Rightarrow> (IDSet \<times> Index list) res" where
  "rebuild hs clk mi packBlacklist extraObsolete =
     bind_r (fold_r (save_index hs clk packBlacklist) (mi_idx mi)
         (NewIDSet [], NewIndex hs (clk 0), [], 1)) (\<lambda>(obsolete, newIndex, out, k).
     bind_r (Index_AddToSupersedes newIndex extraObsolete) (\<lambda>newIndex'.
       Ok (IDSet_Merge obsolete (NewIDSet extraObsolete), out @ [newIndex'])))"

text \<open>
  The workers finalize and save what they receive; \<open>saveIndex\<close> is \<open>SaveIndex\<close> on the state \<open>'r\<close> of
  the repository. Indexes are saved in the order in which they were sent, one of the orders that the
  workers may take.
\<close>

definition MI_Save ::
  "(BlobType \<Rightarrow> ID \<Rightarrow> uint) \<Rightarrow> (nat \<Rightarrow> int) \<Rightarrow> (Index \<Rightarrow> 'r \<Rightarrow> 'r res) \<Rightarrow>
    MasterIndex \<Rightarrow> IDSet \<Rightarrow> IDs \<Rightarrow> 'r \<Rightarrow> (IDSet \<times> 'r) res" where
  "MI_Save hs clk saveIndex mi packBlacklist extraObsolete r =
     bind_r (rebuild hs clk mi packBlacklist extraObsolete) (\<lambda>(obsolete, out).
     bind_r (fold_r (\<lambda>idx r. saveIndex (Index_Finalize idx) r) out r) (\<lambda>r'. Ok (obsolete, r')))"

declare mergeFinal_loop.simps [simp del]

section \<open>Lemmas: lists of indexes\<close>

context blob_index
begin

lemma lookup_all:
  "\<forall>x \<in> set xs. inv x \<Longrightarrow>
    fold_r (\<lambda>x pbs. lookup x bh pbs) xs pbs = Ok (pbs @ filter (\<lambda>b. handle_of b = bh) (concat (map blobs xs)))"
  by (induction xs arbitrary: pbs) (auto simp: lookup_eq)

lemma has_any:
  "\<forall>x \<in> set xs. inv x \<Longrightarrow>
    list_ex (\<lambda>x. has x bh) xs \<longleftrightarrow> bh \<in> handle_of ` set (concat (map blobs xs))"
  by (induction xs) (auto simp: has_iff)

lemma each_all:
  "\<forall>x \<in> set xs. inv x \<Longrightarrow>
    fold_r (\<lambda>x acc. map_r (\<lambda>pbs. acc @ pbs) (each x)) xs acc = Ok (acc @ concat (map blobs xs))"
  by (induction xs arbitrary: acc) (auto simp: each_eq)

text \<open>Merging a list of final indexes into one, one after the other.\<close>

lemma mrg_all:
  assumes "inv x" "\<forall>y \<in> set ys. inv y \<and> fin y"
  shows "\<exists>z. fold_r (\<lambda>y x. mrg x y) ys x = Ok z \<and> inv z \<and> fin z = fin x \<and>
    mset (blobs z) = add_new (mset (blobs x)) (concat (map blobs ys))"
  using assms
proof (induction ys arbitrary: x)
  case (Cons y ys)
  obtain z where z: "mrg x y = Ok z" "inv z" "fin z = fin x" "mset (blobs z) = add_new (mset (blobs x)) (blobs y)"
    using mrg_ok [of x y] Cons.prems by auto
  then show ?case using Cons.IH [of z] Cons.prems by (auto simp: add_new_append)
qed simp

end

definition mi_blobs :: "MasterIndex \<Rightarrow> PackedBlob list" where
  "mi_blobs mi = concat (map blob_list (mi_idx mi))"

definition mi_inv :: "MasterIndex \<Rightarrow> bool" where
  "mi_inv mi \<longleftrightarrow>
     (\<forall>idx \<in> set (mi_idx mi). idx_inv idx) \<and> distinct (pendingBlobs mi) \<and>
     mi_idx mi \<noteq> [] \<and> idx_final (hd (mi_idx mi))"

lemma mi_inv_idx: "mi_inv mi \<Longrightarrow> \<forall>idx \<in> set (mi_idx mi). idx_inv idx"
  by (simp add: mi_inv_def)

lemma NewMasterIndex_inv: "mi_inv (NewMasterIndex hs now)"
  by (simp add: mi_inv_def NewMasterIndex_def Finalize_ok)

lemma MI_Lookup_eq: "mi_inv mi \<Longrightarrow> MI_Lookup mi bh = Ok (filter (\<lambda>b. handle_of b = bh) (mi_blobs mi))"
  using index.lookup_all [OF mi_inv_idx] by (simp add: MI_Lookup_def mi_blobs_def)

lemma any_Has:
  "mi_inv mi \<Longrightarrow> list_ex (\<lambda>idx. Index_Has idx bh) (mi_idx mi) \<longleftrightarrow> bh \<in> handle_of ` set (mi_blobs mi)"
  using index.has_any [OF mi_inv_idx] by (simp add: mi_blobs_def)

lemma MI_Has_iff:
  "mi_inv mi \<Longrightarrow> MI_Has mi bh \<longleftrightarrow> bh \<in> set (pendingBlobs mi) \<or> bh \<in> handle_of ` set (mi_blobs mi)"
  by (simp add: MI_Has_def any_Has)

lemma MI_Each_eq: "mi_inv mi \<Longrightarrow> MI_Each mi = Ok (mi_blobs mi)"
  using index.each_all [OF mi_inv_idx] by (simp add: MI_Each_def mi_blobs_def)

lemma lookupSize_loop_eq:
  "\<forall>idx \<in> set idxs. idx_inv idx \<Longrightarrow>
    (if list_ex (\<lambda>idx. Index_Has idx bh) idxs
     then snd (lookupSize_loop idxs bh) \<and>
       (\<exists>b \<in> set (concat (map blob_list idxs)). handle_of b = bh \<and> fst (lookupSize_loop idxs bh) = bLength b - 32)
     else lookupSize_loop idxs bh = (0, False))"
proof (induction idxs)
  case (Cons idx idxs)
  then show ?case
    using index.lookup_size_found [of idx bh] index.lookup_size_eq [of idx bh]
    by (cases "Index_Has idx bh") (auto simp: case_prod_beta Let_def prod_eq_iff bex_Un)
qed simp

section \<open>Lemmas: the operations keep the invariant and the known handles\<close>

definition known :: "MasterIndex \<Rightarrow> BlobHandle set" where
  "known mi = set (pendingBlobs mi) \<union> handle_of ` set (mi_blobs mi)"

lemma MI_Has_known: "mi_inv mi \<Longrightarrow> MI_Has mi bh \<longleftrightarrow> bh \<in> known mi"
  by (simp add: MI_Has_iff known_def)

lemma addPending_ok:
  assumes "mi_inv mi" "addPending mi bh = (mi', ok)"
  shows "mi_inv mi'" "known mi' = insert bh (known mi)" "ok \<longleftrightarrow> \<not> MI_Has mi bh" "mi_idx mi' = mi_idx mi"
proof -
  have eq: "addPending mi bh =
    (if MI_Has mi bh then (mi, False) else (mi\<lparr>pendingBlobs := BlobSet_Insert (pendingBlobs mi) bh\<rparr>, True))"
    by (simp add: addPending_def MI_Has_def)
  have "mi_inv (mi\<lparr>pendingBlobs := BlobSet_Insert (pendingBlobs mi) bh\<rparr>)"
    using assms(1) blobset.inv_ins [of "pendingBlobs mi" bh] by (simp add: mi_inv_def)
  moreover have "known (mi\<lparr>pendingBlobs := BlobSet_Insert (pendingBlobs mi) bh\<rparr>) = insert bh (known mi)"
    by (simp add: known_def mi_blobs_def)
  ultimately show "mi_inv mi'" "known mi' = insert bh (known mi)" "ok \<longleftrightarrow> \<not> MI_Has mi bh" "mi_idx mi' = mi_idx mi"
    using assms MI_Has_known [OF assms(1), of bh]
    by (auto simp: eq insert_absorb split: if_splits)
qed

lemma storePack_loop_ok:
  assumes "\<forall>idx \<in> set idxs. idx_inv idx" "idx_inv new" "\<not> idx_final new" "\<forall>b \<in> set bs. fits b"
  shows "\<exists>idxs'. storePack_loop new i bs idxs = Ok idxs' \<and> (\<forall>idx \<in> set idxs'. idx_inv idx) \<and>
    (idx_blobs new = {#} \<longrightarrow>
      mset (concat (map blob_list idxs')) = mset (map (in_pack i) bs) + mset (concat (map blob_list idxs))) \<and>
    (idxs \<noteq> [] \<longrightarrow> idxs' \<noteq> [] \<and> idx_final (hd idxs') = idx_final (hd idxs))"
  using assms
proof (induction idxs)
  case Nil
  then show ?case using index.store_pack_ok [of new bs i] by (auto simp: idx_blobs_def)
next
  case (Cons idx idxs)
  show ?case
  proof (cases "idx_final idx")
    case True
    obtain idxs' where "storePack_loop new i bs idxs = Ok idxs'" "\<forall>idx \<in> set idxs'. idx_inv idx"
      "idx_blobs new = {#} \<longrightarrow>
        mset (concat (map blob_list idxs')) = mset (map (in_pack i) bs) + mset (concat (map blob_list idxs))"
      using Cons.IH Cons.prems by auto
    with True Cons.prems(1) show ?thesis
      by (intro exI [of _ "idx # idxs'"]) (simp add: Index_Final_def)
  next
    case False
    then obtain y where "Index_StorePack idx i bs = Ok y" "idx_inv y" "\<not> idx_final y"
      "mset (blob_list y) = mset (map (in_pack i) bs) + mset (blob_list idx)"
      using index.store_pack_ok [of idx bs i] Cons.prems by auto
    with False Cons.prems(1) show ?thesis
      by (intro exI [of _ "y # idxs"]) (simp add: Index_Final_def)
  qed
qed

lemma set_fold_Delete: "set (fold (\<lambda>b s. BlobSet_Delete s (f b)) bs s) = set s - f ` set bs"
  by (induction bs arbitrary: s) auto

lemma distinct_fold_Delete: "distinct s \<Longrightarrow> distinct (fold (\<lambda>b s. BlobSet_Delete s (f b)) bs s)"
  by (induction bs arbitrary: s) (auto simp: BlobSet_Delete_def gomap_delete_def)

lemma MI_StorePack_ok:
  assumes "mi_inv mi" "\<forall>b \<in> set bs. fits b"
  shows "\<exists>mi'. MI_StorePack hs now mi i bs = Ok mi' \<and> mi_inv mi' \<and>
    mset (mi_blobs mi') = mset (map (in_pack i) bs) + mset (mi_blobs mi) \<and>
    set (pendingBlobs mi') = set (pendingBlobs mi) - handle_of ` set bs"
proof -
  obtain idxs' where "storePack_loop (NewIndex hs now) i bs (mi_idx mi) = Ok idxs'"
    "\<forall>idx \<in> set idxs'. idx_inv idx"
    "mset (concat (map blob_list idxs')) = mset (map (in_pack i) bs) + mset (mi_blobs mi)"
    "idxs' \<noteq> [] \<and> idx_final (hd idxs')"
    using storePack_loop_ok [OF mi_inv_idx [OF assms(1)] NewIndex_inv _ assms(2), of hs now i] assms(1)
    by (auto simp: mi_inv_def mi_blobs_def)
  then show ?thesis
    using assms(1) distinct_fold_Delete [of "pendingBlobs mi"]
    by (auto simp: MI_StorePack_def mi_inv_def mi_blobs_def set_fold_Delete Let_def)
qed

lemma storePack_loop_fits:
  "storePack_loop new i bs idxs = Ok idxs' \<Longrightarrow> \<forall>b \<in> set bs. fits b"
  by (induction idxs arbitrary: idxs') (auto simp: res_simps dest: StorePack_Ok_fits split: if_splits)

lemma MI_StorePack_known:
  assumes "mi_inv mi" "MI_StorePack hs now mi i bs = Ok mi'"
  shows "mi_inv mi'" "known mi' = known mi \<union> handle_of ` set bs"
proof -
  have "\<forall>b \<in> set bs. fits b"
    using assms(2) storePack_loop_fits by (auto simp: MI_StorePack_def Let_def res_simps)
  then have *: "mi_inv mi' \<and> mset (mi_blobs mi') = mset (map (in_pack i) bs) + mset (mi_blobs mi) \<and>
      set (pendingBlobs mi') = set (pendingBlobs mi) - handle_of ` set bs"
    using MI_StorePack_ok [OF assms(1), of bs hs now i] assms(2) by auto
  then show "mi_inv mi'" by simp
  from * have "set (mi_blobs mi') = in_pack i ` set bs \<union> set (mi_blobs mi)"
    by (metis set_mset_mset set_mset_union set_map)
  with * show "known mi' = known mi \<union> handle_of ` set bs" by (auto simp: known_def image_Un image_image)
qed

lemma finalize_where_ok:
  assumes "mi_inv mi" "finalize_where p mi = (mi', js)"
  shows "mi_inv mi'" "mi_blobs mi' = mi_blobs mi" "pendingBlobs mi' = pendingBlobs mi" "known mi' = known mi"
proof -
  have "map blob_list (mi_idx mi') = map blob_list (mi_idx mi)"
    using assms by (auto simp: finalize_where_def mi_inv_def Finalize_ok)
  then show b: "mi_blobs mi' = mi_blobs mi" by (simp add: mi_blobs_def)
  show pb: "pendingBlobs mi' = pendingBlobs mi" using assms(2) by (auto simp: finalize_where_def)
  show "mi_inv mi'"
    using assms by (auto simp: finalize_where_def mi_inv_def Finalize_ok hd_map)
  show "known mi' = known mi" by (simp add: known_def b pb)
qed

section \<open>Lemmas: merging in place\<close>

text \<open>
  The array during the loop: the index to merge into, the indexes kept so far, nil pointers, and the
  indexes not yet visited.
\<close>

definition merge_arr :: "Index \<Rightarrow> Index list \<Rightarrow> nat \<Rightarrow> Index list \<Rightarrow> Index option list" where
  "merge_arr m keep gap rest = map Some (m # keep) @ replicate gap None @ map Some rest"

lemma merge_arr_read:
  "merge_arr m keep gap (x # rest) ! (Suc (length keep) + gap) = Some x"
  "(merge_arr m keep gap (x # rest))[Suc (length keep) + gap := None] = merge_arr m keep (Suc gap) rest"
  by (simp_all add: merge_arr_def nth_append list_update_append replicate_append_same [symmetric])

lemma merge_arr_keep:
  "(merge_arr m keep (Suc gap) rest)[Suc (length keep) := Some x] = merge_arr m (keep @ [x]) gap rest"
  by (simp add: merge_arr_def list_update_append)

lemma merge_arr_merge:
  "merge_arr m keep gap rest ! 0 = Some m" "(merge_arr m keep gap rest)[0 := Some m'] = merge_arr m' keep gap rest"
  by (simp_all add: merge_arr_def)

lemma length_merge_arr: "length (merge_arr m keep gap rest) = Suc (length keep) + gap + length rest"
  by (simp add: merge_arr_def)

lemma mergeFinal_loop_ok:
  assumes "idx_inv m" "\<forall>x \<in> set rest. idx_inv x"
  shows "\<exists>m' gap'. mergeFinal_loop (Suc (length keep) + gap) (Suc (length keep)) (merge_arr m keep gap rest) =
      Ok (merge_arr m' (keep @ filter (\<lambda>x. \<not> idx_final x) rest) gap' [],
          Suc (length (keep @ filter (\<lambda>x. \<not> idx_final x) rest))) \<and>
    fold_r (\<lambda>y x. Index_merge x y) (filter idx_final rest) m = Ok m'"
  using assms
proof (induction rest arbitrary: m keep gap)
  case Nil
  then show ?case
    by (intro exI [of _ m] exI [of _ gap])
      (subst mergeFinal_loop.simps, simp add: length_merge_arr)
next
  case (Cons x rest)
  let ?i = "Suc (length keep) + gap"
  have lt: "\<not> ?i \<ge> length (merge_arr m keep gap (x # rest))" by (simp add: length_merge_arr)
  show ?case
  proof (cases "idx_final x")
    case False
    have "mergeFinal_loop ?i (Suc (length keep)) (merge_arr m keep gap (x # rest)) =
        mergeFinal_loop (Suc (length (keep @ [x])) + gap) (Suc (length (keep @ [x]))) (merge_arr m (keep @ [x]) gap rest)"
      by (subst mergeFinal_loop.simps)
        (use False lt in \<open>simp add: merge_arr_read [simplified] merge_arr_keep Index_Final_def\<close>)
    then show ?thesis using Cons.IH [of m "keep @ [x]" gap] Cons.prems False by simp
  next
    case True
    obtain m1 where m1: "Index_merge m x = Ok m1" "idx_inv m1"
      using index.mrg_ok [of m x] Cons.prems True by auto
    have "mergeFinal_loop ?i (Suc (length keep)) (merge_arr m keep gap (x # rest)) =
        mergeFinal_loop (Suc (length keep) + Suc gap) (Suc (length keep)) (merge_arr m1 keep (Suc gap) rest)"
      by (subst mergeFinal_loop.simps)
        (use True lt m1 in \<open>simp add: merge_arr_read [simplified] merge_arr_merge Index_Final_def\<close>)
    then show ?thesis using Cons.IH [OF m1(2), of keep "Suc gap"] Cons.prems True m1(1) by simp
  qed
qed

text \<open>\<open>MergeFinalIndexes\<close> is the functional description: one index with all final ones merged, and the others.\<close>

lemma MergeFinalIndexes_eq:
  assumes "mi_inv mi" "mi_idx mi = m # rest"
  shows "\<exists>m'. MergeFinalIndexes mi = Ok (mi\<lparr>mi_idx := m' # filter (\<lambda>x. \<not> idx_final x) rest\<rparr>) \<and>
    fold_r (\<lambda>y x. Index_merge x y) (filter idx_final rest) m = Ok m'"
proof -
  have inv: "idx_inv m" "\<forall>x \<in> set rest. idx_inv x" using assms by (auto simp: mi_inv_def)
  obtain m' gap' where l: "mergeFinal_loop 1 1 (map Some (m # rest)) =
      Ok (merge_arr m' (filter (\<lambda>x. \<not> idx_final x) rest) gap' [], Suc (length (filter (\<lambda>x. \<not> idx_final x) rest)))"
    and m': "fold_r (\<lambda>y x. Index_merge x y) (filter idx_final rest) m = Ok m'"
    using mergeFinal_loop_ok [OF inv, of "[]" 0] by (auto simp: merge_arr_def)
  have "slice_to (map Some (m # rest)) 1 = Ok [Some m]" by (simp add: slice_to_def slice_def)
  with l have "MergeFinalIndexes mi = Ok (mi\<lparr>mi_idx := m' # filter (\<lambda>x. \<not> idx_final x) rest\<rparr>)"
    by (simp add: MergeFinalIndexes_def assms(2) merge_arr_def o_def)
  with m' show ?thesis by blast
qed

lemma MergeFinalIndexes_ok:
  assumes "mi_inv mi"
  shows "\<exists>mi'. MergeFinalIndexes mi = Ok mi' \<and> mi_inv mi' \<and> set (mi_blobs mi') = set (mi_blobs mi) \<and>
    pendingBlobs mi' = pendingBlobs mi"
proof -
  obtain m rest where mr: "mi_idx mi = m # rest" using assms by (cases "mi_idx mi") (auto simp: mi_inv_def)
  have inv: "idx_inv m" "\<forall>x \<in> set (filter idx_final rest). idx_inv x \<and> idx_final x" "idx_final m"
    using assms mr by (auto simp: mi_inv_def)
  obtain m' where m: "MergeFinalIndexes mi = Ok (mi\<lparr>mi_idx := m' # filter (\<lambda>x. \<not> idx_final x) rest\<rparr>)"
    "fold_r (\<lambda>y x. Index_merge x y) (filter idx_final rest) m = Ok m'"
    using MergeFinalIndexes_eq [OF assms mr] by blast
  then have m': "idx_inv m'" "idx_final m'"
    "mset (blob_list m') = add_new (mset (blob_list m)) (concat (map blob_list (filter idx_final rest)))"
    using index.mrg_all [OF inv(1,2)] inv(3) by auto
  have "set (blob_list m') = set (blob_list m) \<union> set (concat (map blob_list (filter idx_final rest)))"
    using arg_cong [OF m'(3), of set_mset] by simp
  then have "set (mi_blobs (mi\<lparr>mi_idx := m' # filter (\<lambda>x. \<not> idx_final x) rest\<rparr>)) = set (mi_blobs mi)"
    by (auto simp: mi_blobs_def mr)
  moreover have "mi_inv (mi\<lparr>mi_idx := m' # filter (\<lambda>x. \<not> idx_final x) rest\<rparr>)"
    using assms mr m' by (auto simp: mi_inv_def)
  ultimately show ?thesis using m by auto
qed

section \<open>Runs\<close>

text \<open>
  One step of the master index; the label is the handle that \<open>addPending\<close> granted to its caller, who
  then saves the blob.
\<close>

inductive mi_step :: "MasterIndex \<Rightarrow> BlobHandle option \<Rightarrow> MasterIndex \<Rightarrow> bool" where
  pend: "addPending mi bh = (mi', ok) \<Longrightarrow> mi_step mi (if ok then Some bh else None) mi'"
| store: "MI_StorePack hs now mi i bs = Ok mi' \<Longrightarrow> mi_step mi None mi'"
| insrt: "idx_inv idx \<Longrightarrow> mi_step mi None (MI_Insert mi idx)"
| final: "FinalizeNotFinalIndexes mi = (mi', js) \<Longrightarrow> mi_step mi None mi'"
| full: "FinalizeFullIndexes now mi = (mi', js) \<Longrightarrow> mi_step mi None mi'"
| mergeFinal: "MergeFinalIndexes mi = Ok mi' \<Longrightarrow> mi_step mi None mi'"

inductive mi_run :: "MasterIndex \<Rightarrow> BlobHandle list \<Rightarrow> MasterIndex \<Rightarrow> bool" where
  stop: "mi_run mi [] mi"
| quiet: "mi_step mi None mi1 \<Longrightarrow> mi_run mi1 gs mi' \<Longrightarrow> mi_run mi gs mi'"
| grant: "mi_step mi (Some bh) mi1 \<Longrightarrow> mi_run mi1 gs mi' \<Longrightarrow> mi_run mi (bh # gs) mi'"

inductive_cases mi_run_ConsE: "mi_run mi (bh # gs) mi'"

lemma mi_step_ok:
  assumes "mi_step mi l mi'" "mi_inv mi"
  shows "mi_inv mi' \<and> known mi \<subseteq> known mi' \<and> (\<forall>bh. l = Some bh \<longrightarrow> bh \<notin> known mi \<and> bh \<in> known mi')"
  using assms
proof (induction rule: mi_step.induct)
  case (pend mi bh mi' ok)
  then show ?case using addPending_ok [OF pend(2,1)] MI_Has_known [OF pend(2)] by auto
next
  case (store hs now mi i bs mi')
  then show ?case using MI_StorePack_known by blast
next
  case (insrt idx mi)
  then show ?case by (auto simp: mi_inv_def MI_Insert_def known_def mi_blobs_def)
next
  case (final mi mi' js)
  then show ?case using finalize_where_ok unfolding FinalizeNotFinalIndexes_def by blast
next
  case (full now mi mi' js)
  then show ?case using finalize_where_ok unfolding FinalizeFullIndexes_def by blast
next
  case (mergeFinal mi mi')
  then show ?case using MergeFinalIndexes_ok [of mi] by (auto simp: known_def)
qed

lemma mi_run_ok:
  assumes "mi_run mi gs mi'" "mi_inv mi"
  shows "mi_inv mi' \<and> known mi \<subseteq> known mi' \<and> distinct gs \<and> set gs \<inter> known mi = {} \<and> set gs \<subseteq> known mi'"
  using assms
proof (induction rule: mi_run.induct)
  case (quiet mi mi1 gs mi')
  then show ?case using mi_step_ok [OF quiet(1)] by blast
next
  case (grant mi bh mi1 gs mi')
  then show ?case using mi_step_ok [OF grant(1)] by fastforce
qed simp

section \<open>Lemmas: rebuilding\<close>

definition out_blobs :: "Index \<times> Index list \<times> nat \<Rightarrow> PackedBlob multiset" where
  "out_blobs s = idx_blobs (fst s) + mset (concat (map blob_list (fst (snd s))))"

definition out_supersedes :: "Index \<times> Index list \<times> nat \<Rightarrow> ID set" where
  "out_supersedes s = set (idx_supersedes (fst s)) \<union> (\<Union>idx \<in> set (fst (snd s)). set (idx_supersedes idx))"

definition out_inv :: "Index \<times> Index list \<times> nat \<Rightarrow> bool" where
  "out_inv s \<longleftrightarrow> (\<forall>idx \<in> set (fst s # fst (snd s)). idx_inv idx \<and> \<not> idx_final idx)"

lemmas out_defs = out_blobs_def out_supersedes_def out_inv_def

lemma save_pack_ok:
  assumes "out_inv s" "\<forall>b \<in> set bs. fits b"
  shows "\<exists>s'. save_pack hs clk (p, bs) s = Ok s' \<and> out_inv s' \<and>
    out_blobs s' = mset (map (in_pack p) bs) + out_blobs s \<and> out_supersedes s' = out_supersedes s"
proof -
  obtain new out k where s: "s = (new, out, k)" by (cases s)
  obtain new' where n: "Index_StorePack new p bs = Ok new'" "idx_inv new'" "\<not> idx_final new'"
    "idx_blobs new' = mset (map (in_pack p) bs) + idx_blobs new" "idx_supersedes new' = idx_supersedes new"
    using StorePack_ok [of new bs p] assms by (auto simp: s out_defs)
  show ?thesis
  proof (cases "IndexFull (clk k) new'")
    case True
    then have "save_pack hs clk (p, bs) s = Ok (NewIndex hs (clk k), out @ [new'], k + 1)"
      by (simp add: save_pack_def s n(1))
    then show ?thesis using assms(1) n by (auto simp: s out_defs idx_blobs_def [of new'])
  next
    case False
    then have "save_pack hs clk (p, bs) s = Ok (new', out, k + 1)" by (simp add: save_pack_def s n(1))
    then show ?thesis using assms(1) n by (auto simp: s out_defs)
  qed
qed

lemma save_packs_ok:
  assumes "out_inv s" "\<forall>b \<in> set (grouped_blobs l). fits b"
  shows "\<exists>s'. fold_r (save_pack hs clk) l s = Ok s' \<and> out_inv s' \<and>
    out_blobs s' = mset (grouped_blobs l) + out_blobs s \<and> out_supersedes s' = out_supersedes s"
  using assms
proof (induction l arbitrary: s)
  case (Cons x l)
  obtain p bs where x: "x = (p, bs)" by (cases x)
  have "\<forall>b \<in> set bs. fits b" using Cons.prems(2) by (auto simp: x grouped_blobs_def bex_Un ball_Un)
  then obtain s1 where 1: "save_pack hs clk (p, bs) s = Ok s1" "out_inv s1"
    "out_blobs s1 = mset (map (in_pack p) bs) + out_blobs s" "out_supersedes s1 = out_supersedes s"
    using save_pack_ok [OF Cons.prems(1)] by blast
  obtain s2 where "fold_r (save_pack hs clk) l s1 = Ok s2" "out_inv s2"
    "out_blobs s2 = mset (grouped_blobs l) + out_blobs s1" "out_supersedes s2 = out_supersedes s1"
    using Cons.IH [OF 1(2)] Cons.prems(2) by (auto simp: grouped_blobs_def)
  with 1 show ?case by (intro exI [of _ s2]) (simp add: x grouped_blobs_def)
qed (simp add: grouped_blobs_def)

lemma AddToSupersedes_ok:
  assumes "idx_inv idx" "\<not> idx_final idx"
  shows "\<exists>idx'. Index_AddToSupersedes idx is = Ok idx' \<and> idx_inv idx' \<and> \<not> idx_final idx' \<and>
    idx_blobs idx' = idx_blobs idx \<and> set (idx_supersedes idx') = set (idx_supersedes idx) \<union> set is"
proof -
  let ?i = "idx\<lparr>idx_supersedes := idx_supersedes idx @ is\<rparr>"
  have "idx_inv ?i" using assms by (simp add: idx_inv_def)
  moreover have "idx_blobs ?i = idx_blobs idx"
    using packed_append_packs [OF assms(1), of ?i "[]"] by (simp add: idx_blobs_def)
  ultimately show ?thesis using assms(2) by (simp add: Index_AddToSupersedes_def)
qed

text \<open>What an index contributes: its blobs that are not in a blacklisted pack, and its IDs if it is final.\<close>

definition kept :: "IDSet \<Rightarrow> Index \<Rightarrow> PackedBlob multiset" where
  "kept bl idx = filter_mset (\<lambda>b. \<not> idx_final idx \<or> PackID b \<notin> set bl) (idx_blobs idx)"

definition final_ids :: "Index \<Rightarrow> ID set" where
  "final_ids idx = (if idx_final idx then set (idx_ids idx) else {})"

lemma save_index_ok:
  assumes "out_inv s" "idx_inv idx"
  shows "\<exists>obs' s'. save_index hs clk bl idx (obs, s) = Ok (obs', s') \<and> out_inv s' \<and>
    out_blobs s' = kept bl idx + out_blobs s \<and> out_supersedes s' = out_supersedes s \<union> final_ids idx \<and>
    set obs' = set obs \<union> final_ids idx"
proof -
  obtain new out k where s: "s = (new, out, k)" by (cases s)
  have new: "idx_inv new" "\<not> idx_final new" using assms(1) by (auto simp: s out_defs)
  obtain new1 where n1: "Index_AddToSupersedes new (idx_ids idx) = Ok new1" "idx_inv new1" "\<not> idx_final new1"
    "idx_blobs new1 = idx_blobs new" "set (idx_supersedes new1) = set (idx_supersedes new) \<union> set (idx_ids idx)"
    using AddToSupersedes_ok [OF new] by blast
  let ?new = "if idx_final idx then new1 else new"
  let ?obs = "if idx_final idx then IDSet_Merge obs (NewIDSet (idx_ids idx)) else obs"
  have o: "out_inv (?new, out, k)" "out_blobs (?new, out, k) = out_blobs s"
    "out_supersedes (?new, out, k) = out_supersedes s \<union> final_ids idx"
    using assms(1) n1 by (auto simp: s out_defs final_ids_def)
  obtain l where l: "Index_EachByPack idx bl = Ok l" "mset (grouped_blobs l) = kept bl idx"
    using EachByPack_ok [OF assms(2), of bl] by (auto simp: kept_def)
  have "\<forall>b \<in> set (grouped_blobs l). fits b"
    using l(2) idx_blobs_fit [of _ idx] by (metis (no_types, lifting) kept_def mset_subset_eqD multiset_filter_subset set_mset_mset)
  then obtain s' where s': "fold_r (save_pack hs clk) l (?new, out, k) = Ok s'" "out_inv s'"
    "out_blobs s' = kept bl idx + out_blobs s" "out_supersedes s' = out_supersedes s \<union> final_ids idx"
    using save_packs_ok [OF o(1), of l hs clk] o(2,3) l(2) by auto
  have "save_index hs clk bl idx (obs, s) = Ok (?obs, s')"
    using n1(1) l(1) s'(1) by (simp add: save_index_def s Index_Final_def Index_IDs_def split: if_splits)
  moreover have "set ?obs = set obs \<union> final_ids idx" by (simp add: final_ids_def)
  ultimately show ?thesis using s' by blast
qed

lemma save_indexes_ok:
  assumes "out_inv s" "\<forall>idx \<in> set idxs. idx_inv idx"
  shows "\<exists>obs' s'. fold_r (save_index hs clk bl) idxs (obs, s) = Ok (obs', s') \<and> out_inv s' \<and>
    out_blobs s' = (\<Sum>idx\<leftarrow>idxs. kept bl idx) + out_blobs s \<and>
    out_supersedes s' = out_supersedes s \<union> (\<Union>idx \<in> set idxs. final_ids idx) \<and>
    set obs' = set obs \<union> (\<Union>idx \<in> set idxs. final_ids idx)"
  using assms
proof (induction idxs arbitrary: obs s)
  case (Cons idx idxs)
  obtain obs1 s1 where 1: "save_index hs clk bl idx (obs, s) = Ok (obs1, s1)" "out_inv s1"
    "out_blobs s1 = kept bl idx + out_blobs s" "out_supersedes s1 = out_supersedes s \<union> final_ids idx"
    "set obs1 = set obs \<union> final_ids idx"
    using save_index_ok [OF Cons.prems(1)] Cons.prems(2) by (metis list.set_intros(1))
  obtain obs2 s2 where "fold_r (save_index hs clk bl) idxs (obs1, s1) = Ok (obs2, s2)" "out_inv s2"
    "out_blobs s2 = (\<Sum>idx\<leftarrow>idxs. kept bl idx) + out_blobs s1"
    "out_supersedes s2 = out_supersedes s1 \<union> (\<Union>idx \<in> set idxs. final_ids idx)"
    "set obs2 = set obs1 \<union> (\<Union>idx \<in> set idxs. final_ids idx)"
    using Cons.IH [OF 1(2), of obs1] Cons.prems(2) by auto
  with 1 show ?case by (intro exI [of _ obs2] exI [of _ s2]) auto
qed simp

lemma rebuild_ok:
  assumes "mi_inv mi"
  shows "\<exists>obs out. rebuild hs clk mi bl extra = Ok (obs, out) \<and>
    (\<forall>idx \<in> set out. idx_inv idx \<and> \<not> idx_final idx) \<and>
    mset (concat (map blob_list out)) = (\<Sum>idx\<leftarrow>mi_idx mi. kept bl idx) \<and>
    set obs = (\<Union>idx \<in> set (mi_idx mi). final_ids idx) \<union> set extra \<and>
    (\<Union>idx \<in> set out. set (idx_supersedes idx)) = set obs"
proof -
  have "out_inv (NewIndex hs (clk 0), [], 1)" by (simp add: out_defs)
  from save_indexes_ok [OF this mi_inv_idx [OF assms], of hs clk bl "NewIDSet []"]
  obtain obs new out k where f: "fold_r (save_index hs clk bl) (mi_idx mi) (NewIDSet [], NewIndex hs (clk 0), [], 1) =
      Ok (obs, new, out, k)" "out_inv (new, out, k)"
    "out_blobs (new, out, k) = (\<Sum>idx\<leftarrow>mi_idx mi. kept bl idx)"
    "out_supersedes (new, out, k) = (\<Union>idx \<in> set (mi_idx mi). final_ids idx)"
    "set obs = (\<Union>idx \<in> set (mi_idx mi). final_ids idx)"
    using out_blobs_def [of "(NewIndex hs (clk 0), [], 1)"] out_supersedes_def [of "(NewIndex hs (clk 0), [], 1)"]
    by auto
  obtain new' where n: "Index_AddToSupersedes new extra = Ok new'" "idx_inv new'" "\<not> idx_final new'"
    "idx_blobs new' = idx_blobs new" "set (idx_supersedes new') = set (idx_supersedes new) \<union> set extra"
    using AddToSupersedes_ok [of new extra] f(2) by (auto simp: out_defs)
  have "rebuild hs clk mi bl extra = Ok (IDSet_Merge obs (NewIDSet extra), out @ [new'])"
    using f(1) by (simp add: rebuild_def n(1))
  moreover have "mset (concat (map blob_list (out @ [new']))) = (\<Sum>idx\<leftarrow>mi_idx mi. kept bl idx)"
    using f(3) n(4) by (simp add: out_defs idx_blobs_def ac_simps)
  moreover have "(\<Union>idx \<in> set (out @ [new']). set (idx_supersedes idx)) = set obs \<union> set extra"
    using f(4,5) n(5) by (auto simp: out_defs)
  ultimately show ?thesis using f(2,5) n(2,3) by (auto simp: out_defs)
qed

section \<open>Lemmas: pack sizes\<close>

lemma packSize_fold:
  "fold (packSize_step onlyHdr) bs m p =
    (if p \<in> PackID ` set bs
     then Some ((case m p of Some s \<Rightarrow> s | None \<Rightarrow> int HeaderSize) +
       (\<Sum>b\<leftarrow>filter (\<lambda>b. PackID b = p) bs. (if onlyHdr then 0 else uint (bLength b)) + int EntrySize))
     else m p)"
proof (induction bs arbitrary: m)
  case (Cons b bs)
  have m: "packSize_step onlyHdr b m p = (if p = PackID b
      then Some ((case m p of Some s \<Rightarrow> s | None \<Rightarrow> int HeaderSize) +
        (if onlyHdr then 0 else uint (bLength b)) + int EntrySize) else m p)"
    by (simp add: packSize_step_def Let_def)
  have none: "p \<notin> PackID ` set bs \<Longrightarrow> filter (\<lambda>b. PackID b = p) bs = []"
    by (auto simp: filter_empty_conv)
  have "fold (packSize_step onlyHdr) (b # bs) m p = fold (packSize_step onlyHdr) bs (packSize_step onlyHdr b m) p"
    by simp
  then show ?case
    unfolding Cons.IH m using none
    by (cases "p = PackID b"; cases "p \<in> PackID ` set bs") (auto simp del: EntrySize_37)
qed simp

text \<open>The size of the file of a finished pack.\<close>

lemma pack_file_size:
  assumes "prims_ok P" "key_ok k"
    and add: "Packer_AddAll (Writer_Write (file_Write fault)) (NewPacker k (NewWriter [])) xs = (p, None)"
    and fin: "Packer_Finalize P (Writer_Write (file_Write fault)) r p = (p', Ok n)"
    and pk: "\<forall>b \<in> set (pkBlobs p). packable b"
    and len: "length (concat (map (\<lambda>x. snd (snd x)) xs)) < 2 ^ 64"
  shows "int (length (hw_w (pkWr p'))) = int HeaderSize + (\<Sum>b\<leftarrow>pkBlobs p. uint (bLength b) + int EntrySize)"
proof -
  let ?ds = "map (\<lambda>x. snd (snd x)) xs"
  have inv0: "packer_inv hw_w (NewPacker k (NewWriter [])) []"
    by (rule packer_inv_New) (simp add: NewWriter_def)
  note A = hashed_tmpfile.Packer_AddAll_inv [OF inv0 add, unfolded append_Nil]
  have key: "pkKey p = k" using A(3) by (simp add: NewPacker_def)
  obtain nonce hdr where N: "nonce_ok nonce" "seal_frame P k nonce (concat (map entry_bytes (pkBlobs p))) = Ok hdr"
    "hw_w (pkWr p') = concat ?ds @ hdr @ put_le32 (word_of_nat (length hdr))"
    using hashed_tmpfile.Packer_Finalize_ok [OF A(1) assms(1) _ pk fin] assms(2) key by auto
  have "length hdr = length (pkBlobs p) * 37 + 32"
    using frames.seal_length [of P k, OF _ N(2)] assms(1,2) length_header [of "pkBlobs p"] pk by (simp add: packable_def)
  moreover have "(\<Sum>b\<leftarrow>pkBlobs p. uint (bLength b)) = int (length (concat ?ds))"
  proof -
    have l: "length (pkBlobs p) = length ?ds"
      using A(1) by (auto simp: packer_inv_def dest: map_eq_imp_length_eq)
    have "map (\<lambda>b. uint (bLength b)) (pkBlobs p) = map (\<lambda>d. int (length d)) ?ds"
    proof (rule nth_equalityI)
      fix j
      assume "j < length (map (\<lambda>b. uint (bLength b)) (pkBlobs p))"
      then have j: "j < length (pkBlobs p)" by simp
      then have "unat (bLength (pkBlobs p ! j)) = length (?ds ! j)"
        using packer_inv_offsets(2) [OF A(1) _ len] l by (simp del: length_map nth_map)
      then have "uint (bLength (pkBlobs p ! j)) = int (length (?ds ! j))" by (metis uint_nat)
      then show "map (\<lambda>b. uint (bLength b)) (pkBlobs p) ! j = map (\<lambda>d. int (length d)) ?ds ! j"
        using j l by simp
    qed (use l in simp)
    then have "(\<Sum>b\<leftarrow>pkBlobs p. uint (bLength b)) = (\<Sum>d\<leftarrow>?ds. int (length d))" by (rule arg_cong)
    then show ?thesis using of_nat_length_concat [of ?ds, where 'a = int] by simp
  qed
  ultimately show ?thesis
    by (simp add: N(3) sum_list_addf sum_list_triv pack_size_defs)
qed

section \<open>Properties\<close>

text \<open>C5: Deduplication. Along every run of the master index (handles marked as pending, packs stored,
  indexes inserted, finalized and merged, in any order) \<open>addPending\<close> grants each handle at most once,
  and never one that was known at the start; a handle that is known stays known, so that \<open>Has\<close> never
  becomes false again, and the collection stays consistent.\<close>

theorem addPending_once:
  assumes "mi_inv mi" "mi_run mi gs mi'"
  shows "distinct gs \<and> (\<forall>bh. bh \<in> set gs \<longrightarrow> \<not> MI_Has mi bh) \<and>
    (\<forall>bh. MI_Has mi bh \<or> bh \<in> set gs \<longrightarrow> MI_Has mi' bh) \<and> mi_inv mi'"
  using mi_run_ok [OF assms(2,1)] MI_Has_known [OF assms(1)] MI_Has_known [of mi'] by auto

theorem addPending_once_witness:
  "MI_Has (fst (addPending (NewMasterIndex (\<lambda>_ _. 0) 0) (handle_of toy_blob))) (handle_of toy_blob)"
proof -
  let ?mi = "NewMasterIndex (\<lambda>_ _. 0) 0" and ?bh = "handle_of toy_blob"
  have "\<not> MI_Has ?mi ?bh" by code_simp
  then have "addPending ?mi ?bh = (fst (addPending ?mi ?bh), True)"
    using addPending_ok(3) [OF NewMasterIndex_inv] by (metis prod.collapse)
  from mi_step.pend [OF this] have "mi_run ?mi [?bh] (fst (addPending ?mi ?bh))"
    by (intro mi_run.grant [OF _ mi_run.stop]) simp
  from addPending_once [OF NewMasterIndex_inv this] show ?thesis by simp
qed

text \<open>C8: \<open>MergeFinalIndexes\<close>, which compacts the slice of indexes in place, never fails; its result is
  the list whose head is the first index with all other final indexes merged into it, followed by the
  indexes that are not final, in order and unchanged; and \<open>Lookup\<close> of every handle finds the same
  blobs as before.\<close>

theorem MergeFinalIndexes_correct:
  assumes "mi_inv mi"
  shows "\<exists>mi' m'. MergeFinalIndexes mi = Ok mi' \<and> mi_inv mi' \<and>
    mi_idx mi' = m' # filter (\<lambda>x. \<not> idx_final x) (tl (mi_idx mi)) \<and>
    fold_r (\<lambda>y x. Index_merge x y) (filter idx_final (tl (mi_idx mi))) (hd (mi_idx mi)) = Ok m' \<and>
    (\<forall>bh. \<exists>old new. MI_Lookup mi bh = Ok old \<and> MI_Lookup mi' bh = Ok new \<and> set new = set old) \<and>
    (\<forall>bh. MI_Has mi' bh = MI_Has mi bh)"
proof -
  obtain m rest where mr: "mi_idx mi = m # rest" using assms by (cases "mi_idx mi") (auto simp: mi_inv_def)
  obtain mi' where ok: "MergeFinalIndexes mi = Ok mi'" "mi_inv mi'" "set (mi_blobs mi') = set (mi_blobs mi)"
    "pendingBlobs mi' = pendingBlobs mi"
    using MergeFinalIndexes_ok [OF assms] by blast
  obtain m' where "mi' = mi\<lparr>mi_idx := m' # filter (\<lambda>x. \<not> idx_final x) rest\<rparr>"
    "fold_r (\<lambda>y x. Index_merge x y) (filter idx_final rest) m = Ok m'"
    using MergeFinalIndexes_eq [OF assms mr] ok(1) by auto
  then show ?thesis
    using ok mr MI_Lookup_eq [OF assms] MI_Lookup_eq [OF ok(2)] MI_Has_iff [OF assms] MI_Has_iff [OF ok(2)]
    by auto
qed

theorem MergeFinalIndexes_correct_witness:
  "\<exists>mi'. MergeFinalIndexes (MI_Insert (NewMasterIndex (\<lambda>_ _. 0) 0) toy_index) = Ok mi' \<and>
    length (mi_idx mi') = 1"
proof -
  let ?mi = "MI_Insert (NewMasterIndex (\<lambda>_ _. 0) 0) toy_index"
  have "mi_inv ?mi"
    using mi_step_ok [OF mi_step.insrt [OF toy_index_inv(1)] NewMasterIndex_inv] by blast
  from MergeFinalIndexes_correct [OF this] show ?thesis
    using toy_index_inv(2) by (auto simp: MI_Insert_def NewMasterIndex_def)
qed

text \<open>C9: Rebuilding the index loses nothing and keeps nothing it should not: the new indexes together
  hold exactly the blobs of all indexes except, for the final ones, those in blacklisted packs, with
  their multiplicities; the IDs reported as obsolete are those of all final indexes and the extra
  ones, and each of them is listed as superseded in one of the new indexes.\<close>

theorem rebuild_exact:
  assumes "mi_inv mi"
  shows "\<exists>obs out. rebuild hs clk mi bl extra = Ok (obs, out) \<and>
    mset (concat (map blob_list out)) =
      (\<Sum>idx\<leftarrow>mi_idx mi. filter_mset (\<lambda>b. \<not> idx_final idx \<or> PackID b \<notin> set bl) (idx_blobs idx)) \<and>
    set obs = (\<Union>idx \<in> {idx \<in> set (mi_idx mi). idx_final idx}. set (idx_ids idx)) \<union> set extra \<and>
    (\<Union>idx \<in> set out. set (Index_Supersedes idx)) = set obs"
proof -
  obtain obs out where "rebuild hs clk mi bl extra = Ok (obs, out)"
    "mset (concat (map blob_list out)) = (\<Sum>idx\<leftarrow>mi_idx mi. kept bl idx)"
    "set obs = (\<Union>idx \<in> set (mi_idx mi). final_ids idx) \<union> set extra"
    "(\<Union>idx \<in> set out. set (idx_supersedes idx)) = set obs"
    using rebuild_ok [OF assms] by blast
  then show ?thesis
    by (intro exI [of _ obs] exI [of _ out])
      (auto simp: kept_def [abs_def] final_ids_def Index_Supersedes_def split: if_splits)
qed

theorem rebuild_exact_witness:
  "\<exists>obs out. rebuild (\<lambda>_ _. 0) (\<lambda>_. 0) (MI_Insert (NewMasterIndex (\<lambda>_ _. 0) 0) toy_index) [] [] = Ok (obs, out) \<and>
    mset (concat (map blob_list out)) = {#in_pack (replicate 32 1) toy_blob#}"
proof -
  let ?mi = "MI_Insert (NewMasterIndex (\<lambda>_ _. 0) 0) toy_index"
  have "mi_inv ?mi"
    using mi_step_ok [OF mi_step.insrt [OF toy_index_inv(1)] NewMasterIndex_inv] by blast
  from rebuild_exact [OF this, of "\<lambda>_ _. 0" "\<lambda>_. 0" "[]" "[]"] show ?thesis
    using toy_index_inv(3) Finalize_ok(2) [OF NewIndex_inv, of "\<lambda>_ _. 0" 0] NewIndex_blobs [of "\<lambda>_ _. 0" 0]
    by (auto simp: MI_Insert_def NewMasterIndex_def idx_blobs_def)
qed

text \<open>C16: \<open>PackSize\<close> computes the size of a pack file from the index alone: if the index lists exactly
  the blobs of a finished pack under its ID, the size is the number of bytes that the packer wrote.\<close>

theorem PackSize_is_file_size:
  assumes "mi_inv mi" "prims_ok P" "key_ok k"
    and "Packer_AddAll (Writer_Write (file_Write fault)) (NewPacker k (NewWriter [])) xs = (p, None)"
    and "Packer_Finalize P (Writer_Write (file_Write fault)) r p = (p', Ok n)"
    and "\<forall>b \<in> set (pkBlobs p). packable b" "pkBlobs p \<noteq> []"
    and "length (concat (map (\<lambda>x. snd (snd x)) xs)) < 2 ^ 64"
    and "mset (filter (\<lambda>b. PackID b = i) (mi_blobs mi)) = mset (map (in_pack i) (pkBlobs p))"
  shows "\<exists>m. MI_PackSize mi False = Ok m \<and> m i = Some (int (length (hw_w (pkWr p'))))"
proof -
  let ?m = "fold (packSize_step False) (mi_blobs mi) Map.empty"
  let ?bs = "filter (\<lambda>b. PackID b = i) (mi_blobs mi)"
  have "?bs \<noteq> []" using assms(7,9) by (metis length_0_conv length_map size_mset)
  then have "i \<in> PackID ` set (mi_blobs mi)" by (auto simp: filter_empty_conv)
  then have "?m i = Some (int HeaderSize + (\<Sum>b\<leftarrow>?bs. uint (bLength b) + int EntrySize))"
    by (simp add: packSize_fold)
  also have "(\<Sum>b\<leftarrow>?bs. uint (bLength b) + int EntrySize) =
      sum_mset (image_mset (\<lambda>b. uint (bLength b) + int EntrySize) (mset ?bs))"
    by (simp flip: sum_mset_sum_list)
  also have "\<dots> = (\<Sum>b\<leftarrow>pkBlobs p. uint (bLength b) + int EntrySize)"
    unfolding assms(9) by (simp add: multiset.map_comp o_def flip: sum_mset_sum_list)
  finally show ?thesis
    using pack_file_size [OF assms(2-6,8)] by (simp add: MI_PackSize_def MI_Each_eq [OF assms(1)])
qed

theorem PackSize_is_file_size_witness:
  "\<exists>mi m. MI_StorePack (\<lambda>_ _. 0) 0 (NewMasterIndex (\<lambda>_ _. 0) 0) (replicate 32 5) (pkBlobs toy_packer) = Ok mi \<and>
    MI_PackSize mi False = Ok m \<and> m (replicate 32 5) = Some (int (length toy_pack))"
proof -
  have "\<forall>b \<in> set (pkBlobs toy_packer). fits b" by (simp add: toy_packer_blobs fits_def maxuint32_def)
  then obtain mi where mi: "MI_StorePack (\<lambda>_ _. 0) 0 (NewMasterIndex (\<lambda>_ _. 0) 0) (replicate 32 5) (pkBlobs toy_packer) = Ok mi"
    "mi_inv mi" "mset (mi_blobs mi) = mset (map (in_pack (replicate 32 5)) (pkBlobs toy_packer)) +
      mset (mi_blobs (NewMasterIndex (\<lambda>_ _. 0) 0))"
    using MI_StorePack_ok [OF NewMasterIndex_inv] by blast
  moreover have "mi_blobs (NewMasterIndex (\<lambda>_ _. 0) 0) = []" by code_simp
  ultimately have "mset (filter (\<lambda>b. PackID b = replicate 32 5) (mi_blobs mi)) =
      mset (map (in_pack (replicate 32 5)) (pkBlobs toy_packer))"
    by (simp add: filter_mset_image_mset o_def)
  moreover have "length (concat (map (\<lambda>x. snd (snd x)) toy_blobs)) < 2 ^ 64" by (simp add: toy_blobs_def)
  ultimately show ?thesis
    using PackSize_is_file_size [OF mi(2) toy_prims_ok toy_key_ok toy_packer_add toy_pack_fin] toy_packer_packable mi(1)
    by auto
qed

end
