(* ===== verification/PathFilter.thy ===== *)
theory PathFilter
  imports Prelude
begin

text \<open>
  \<open>internal/filter/filter.go\<close>: include and exclude patterns over paths, with the recursive wildcard
  \<open>**\<close> and negation.

  \<open>filepath.Match\<close>, which decides one component, is the argument \<open>fm\<close>; \<open>filepath.Clean\<close> is given
  for slash-separated paths, where \<open>filepath.ToSlash\<close> is the identity. The lemmas compare \<open>match\<close>
  with a declarative reading of a pattern: \<open>parts_match\<close> says that a list of components matches the
  parts from its first to its last component, and \<open>matches\<close> that some infix of the path does.
\<close>

section \<open>Paths\<close>

text \<open>\<open>strings.Split(p, "/")\<close>.\<close>

primrec split_on :: "'a \<Rightarrow> 'a list \<Rightarrow> 'a list list" where
  "split_on sep [] = [[]]"
| "split_on sep (c # cs) =
     (if c = sep then [] # split_on sep cs
      else (case split_on sep cs of [] \<Rightarrow> [[c]] | w # ws \<Rightarrow> (c # w) # ws))"

definition splitPath :: "string \<Rightarrow> string list" where
  "splitPath p =
     (let parts = split_on (CHR ''/'') p
      in if hd parts = '''' then ''/'' # tl parts else parts)"

text \<open>
  \<open>filepath.Clean\<close>: empty and \<open>.\<close> components are dropped, \<open>..\<close> removes the component before it, and
  is dropped at the root.
\<close>

definition clean_step :: "bool \<Rightarrow> string \<Rightarrow> string list \<Rightarrow> string list" where
  "clean_step rooted w stack =
     (if w = '''' \<or> w = ''.'' then stack
      else if w = ''..''
      then (case stack of
          w' # rest \<Rightarrow> if w' \<noteq> ''..'' then rest else w # stack
        | [] \<Rightarrow> if rooted then [] else [w])
      else w # stack)"

primrec join_slash :: "string list \<Rightarrow> string" where
  "join_slash [] = ''''"
| "join_slash (w # ws) = (if ws = [] then w else w @ CHR ''/'' # join_slash ws)"

definition filepath_Clean :: "string \<Rightarrow> string" where
  "filepath_Clean p =
     (if p = '''' then ''.''
      else
        (let rooted = (hd p = CHR ''/'');
             ws = rev (fold (clean_step rooted) (split_on (CHR ''/'') p) []);
             out = (if rooted then ''/'' else '''') @ join_slash ws
         in if out = '''' then ''.'' else out))"

section \<open>Patterns\<close>

record patternPart =
  pattern :: string
  isSimple :: bool

record Pattern =
  parts :: "patternPart list"
  isNegated :: bool

definition prepareStr :: "string \<Rightarrow> string list res" where
  "prepareStr str = (if str = '''' then Err ErrBadString else Ok (splitPath str))"

definition prepare_part :: "string \<Rightarrow> patternPart" where
  "prepare_part part =
     (let simple = \<not> list_ex (\<lambda>c. c \<in> set ''[]*?'' \<or> c = CHR 0x5C) part
      in \<lparr>pattern = (if part = ''**'' then '''' else part), isSimple = simple\<rparr>)"

definition preparePattern :: "string \<Rightarrow> Pattern res" where
  "preparePattern patternStr =
     bind_r (index_r patternStr 0) (\<lambda>c.
       (let negate = (c = CHR ''!'');
            str = (if negate then tl patternStr else patternStr)
        in Ok \<lparr>parts = map prepare_part (splitPath (filepath_Clean str)), isNegated = negate\<rparr>))"

text \<open>The position of the first \<open>**\<close>.\<close>

primrec wildcard_pos :: "patternPart list \<Rightarrow> nat option" where
  "wildcard_pos [] = None"
| "wildcard_pos (p # ps) = (if pattern p = '''' then Some 0 else map_option Suc (wildcard_pos ps))"

definition hasDoubleWildcard :: "Pattern \<Rightarrow> bool \<times> nat" where
  "hasDoubleWildcard lst = (case wildcard_pos (parts lst) of Some i \<Rightarrow> (True, i) | None \<Rightarrow> (False, 0))"

section \<open>Matching\<close>

text \<open>One component, and the inner loop of \<open>match\<close>, from the last part to the first.\<close>

definition part_match :: "(string \<Rightarrow> string \<Rightarrow> bool res) \<Rightarrow> patternPart \<Rightarrow> string \<Rightarrow> bool res" where
  "part_match fm p s =
     (if isSimple p then Ok (pattern p = s)
      else
        (case fm (pattern p) s of
           Ok ok \<Rightarrow> Ok ok
         | Err e \<Rightarrow> Err (Wrap e ''Match'')
         | Panic m \<Rightarrow> Panic m))"

primrec inner_loop :: "(string \<Rightarrow> string \<Rightarrow> bool res) \<Rightarrow> (patternPart \<times> string) list \<Rightarrow> bool res" where
  "inner_loop fm [] = Ok True"
| "inner_loop fm (x # xs) =
     bind_r (part_match fm (fst x) (snd x)) (\<lambda>ok. if \<not> ok then Ok False else inner_loop fm xs)"

text \<open>The outer loop, over the given offsets.\<close>

primrec offset_loop :: "(string \<Rightarrow> string \<Rightarrow> bool res) \<Rightarrow> patternPart list \<Rightarrow> string list \<Rightarrow> nat list \<Rightarrow> bool res" where
  "offset_loop fm ps strs [] = Ok False"
| "offset_loop fm ps strs (offset # os) =
     bind_r (inner_loop fm (rev (zip ps (drop offset strs)))) (\<lambda>ok.
       if ok then Ok True else offset_loop fm ps strs os)"

definition star_part :: patternPart where
  "star_part = \<lparr>pattern = ''*'', isSimple = False\<rparr>"

text \<open>
  The pattern with \<open>**\<close> at \<open>pos\<close> expanded into \<open>i\<close> wildcards. The code builds it in one array, where
  the wildcards written in earlier rounds stay and the tail is copied behind them.
\<close>

definition expand :: "patternPart list \<Rightarrow> nat \<Rightarrow> nat \<Rightarrow> patternPart list" where
  "expand ps pos i = take pos ps @ replicate i star_part @ drop (pos + 1) ps"

definition wildcards :: "patternPart list \<Rightarrow> nat" where
  "wildcards ps = length (filter (\<lambda>p. pattern p = '''') ps)"

text \<open>The loop that expands \<open>**\<close>, with the recursive call as \<open>rec\<close>.\<close>

primrec expand_loop :: "(nat \<Rightarrow> bool res) \<Rightarrow> nat list \<Rightarrow> bool res" where
  "expand_loop rec [] = Ok False"
| "expand_loop rec (i # is) = bind_r (rec i) (\<lambda>matched. if matched then Ok True else expand_loop rec is)"

lemma expand_loop_cong [fundef_cong]:
  "is = is' \<Longrightarrow> (\<And>i. i \<in> set is' \<Longrightarrow> rec i = rec' i) \<Longrightarrow> expand_loop rec is = expand_loop rec' is'"
  by (induction "is" arbitrary: is') (auto intro!: bind_r_cong)

lemma wildcard_pos_Some:
  "wildcard_pos ps = Some pos \<Longrightarrow>
    pos < length ps \<and> pattern (ps ! pos) = '''' \<and> (\<forall>p \<in> set (take pos ps). pattern p \<noteq> '''')"
  by (induction ps arbitrary: pos) (auto split: if_splits)

lemma wildcard_pos_None: "wildcard_pos ps = None \<longleftrightarrow> (\<forall>p \<in> set ps. pattern p \<noteq> '''')"
  by (induction ps) auto

lemma wildcards_expand:
  assumes "wildcard_pos ps = Some pos"
  shows "wildcards (expand ps pos i) < wildcards ps"
proof -
  have "pos < length ps" and p: "pattern (ps ! pos) = ''''"
    and n: "\<forall>p \<in> set (take pos ps). pattern p \<noteq> ''''"
    using wildcard_pos_Some [OF assms] by auto
  then have "ps = take pos ps @ ps ! pos # drop (pos + 1) ps" by (simp add: id_take_nth_drop)
  then have "wildcards ps = wildcards (take pos ps @ ps ! pos # drop (pos + 1) ps)" by simp
  also have "\<dots> = Suc (wildcards (drop (pos + 1) ps))"
    using n p by (simp add: wildcards_def filter_empty_conv)
  also have "wildcards (drop (pos + 1) ps) = wildcards (expand ps pos i)"
    using n by (simp add: wildcards_def expand_def star_part_def filter_empty_conv)
  finally show ?thesis by simp
qed

function match_parts :: "(string \<Rightarrow> string \<Rightarrow> bool res) \<Rightarrow> patternPart list \<Rightarrow> string list \<Rightarrow> bool res" where
  "match_parts fm ps strs =
     (case wildcard_pos ps of
        Some pos \<Rightarrow>
          expand_loop (\<lambda>i. match_parts fm (expand ps pos i) strs)
            (if length ps \<le> length strs + 1 then [0 ..< length strs + 2 - length ps] else [])
      | None \<Rightarrow>
          if length ps = 0 \<and> length strs = 0 then Ok True
          else if length ps = 0 then Ok False
          else if length ps \<le> length strs
          then
            (let maxOffset = (if pattern (ps ! 0) = ''/'' then 0 else length strs - length ps);
                 minOffset = (if pattern (ps ! 0) \<noteq> ''/'' \<and> strs ! 0 = ''/'' then 1 else 0)
             in offset_loop fm ps strs (rev [minOffset ..< maxOffset + 1]))
          else Ok False)"
  by pat_completeness auto
termination
  by (relation "measure (\<lambda>(fm, ps, strs). wildcards ps)") (simp_all add: wildcards_expand)

declare match_parts.simps [simp del]

definition match :: "(string \<Rightarrow> string \<Rightarrow> bool res) \<Rightarrow> Pattern \<Rightarrow> string list \<Rightarrow> bool res" where
  "match fm pat strs = match_parts fm (parts pat) strs"

definition childMatch :: "(string \<Rightarrow> string \<Rightarrow> bool res) \<Rightarrow> Pattern \<Rightarrow> string list \<Rightarrow> bool res" where
  "childMatch fm pat strs =
     bind_r (index_r (parts pat) 0) (\<lambda>p0.
       if pattern p0 \<noteq> ''/'' then Ok True
       else
         (let (ok, pos) = hasDoubleWildcard pat;
              strs' = (if ok \<and> length strs \<ge> pos then take pos strs else strs);
              l = (if length strs' > length (parts pat) then length (parts pat) else length strs')
          in match fm (pat\<lparr>parts := take l (parts pat)\<rparr>) strs'))"

definition Match :: "(string \<Rightarrow> string \<Rightarrow> bool res) \<Rightarrow> string \<Rightarrow> string \<Rightarrow> bool res" where
  "Match fm patternStr str =
     (if patternStr = '''' then Ok True
      else bind_r (preparePattern patternStr) (\<lambda>pat. bind_r (prepareStr str) (\<lambda>strs. match fm pat strs)))"

definition ChildMatch :: "(string \<Rightarrow> string \<Rightarrow> bool res) \<Rightarrow> string \<Rightarrow> string \<Rightarrow> bool res" where
  "ChildMatch fm patternStr str =
     (if patternStr = '''' then Ok True
      else bind_r (preparePattern patternStr) (\<lambda>pat. bind_r (prepareStr str) (\<lambda>strs. childMatch fm pat strs)))"

section \<open>Lists of patterns\<close>

definition ParsePatterns :: "string list \<Rightarrow> Pattern list res" where
  "ParsePatterns pats = mapM_r preparePattern (filter (\<lambda>pat. pat \<noteq> '''') pats)"

primrec list_pats ::
  "(string \<Rightarrow> string \<Rightarrow> bool res) \<Rightarrow> bool \<Rightarrow> string list \<Rightarrow> bool \<Rightarrow> Pattern list \<Rightarrow> bool \<times> bool \<Rightarrow>
    (bool \<times> bool) res" where
  "list_pats fm checkChild strs hasNeg [] s = Ok s"
| "list_pats fm checkChild strs hasNeg (pat # pats) s =
     (let (matched, childMayMatch) = s in
      bind_r (match fm pat strs) (\<lambda>m.
      bind_r (if checkChild then childMatch fm pat strs else Ok True) (\<lambda>c.
        if isNegated pat
        then list_pats fm checkChild strs hasNeg pats (matched \<and> \<not> m, childMayMatch \<and> \<not> m)
        else
          (let matched' = (matched \<or> m); childMayMatch' = (childMayMatch \<or> c) in
           if matched' \<and> childMayMatch' \<and> \<not> hasNeg then Ok (matched', childMayMatch')
           else list_pats fm checkChild strs hasNeg pats (matched', childMayMatch')))))"

definition filter_list ::
  "(string \<Rightarrow> string \<Rightarrow> bool res) \<Rightarrow> Pattern list \<Rightarrow> bool \<Rightarrow> string \<Rightarrow> (bool \<times> bool) res" where
  "filter_list fm pats checkChild str =
     (if length pats = 0 then Ok (False, False)
      else
        bind_r (prepareStr str) (\<lambda>strs.
          (let hasNegatedPattern = fold (\<lambda>pat h. h \<or> isNegated pat) pats False
           in list_pats fm checkChild strs hasNegatedPattern pats (False, False))))"

definition Filter_List :: "(string \<Rightarrow> string \<Rightarrow> bool res) \<Rightarrow> Pattern list \<Rightarrow> string \<Rightarrow> bool res" where
  "Filter_List fm pats str = map_r fst (filter_list fm pats False str)"

definition ListWithChild :: "(string \<Rightarrow> string \<Rightarrow> bool res) \<Rightarrow> Pattern list \<Rightarrow> string \<Rightarrow> (bool \<times> bool) res" where
  "ListWithChild fm pats str = filter_list fm pats True str"

section \<open>The declarative reading\<close>

text \<open>
  \<open>m\<close>: what \<open>filepath.Match\<close> says of a component, for patterns that are not malformed. The code relies
  on \<open>*\<close> matching every component.
\<close>

definition part_ok :: "(string \<Rightarrow> string \<Rightarrow> bool) \<Rightarrow> patternPart \<Rightarrow> string \<Rightarrow> bool" where
  "part_ok m p s = (if isSimple p then pattern p = s else m (pattern p) s)"

fun parts_match :: "(string \<Rightarrow> string \<Rightarrow> bool) \<Rightarrow> patternPart list \<Rightarrow> string list \<Rightarrow> bool" where
  "parts_match m [] ss \<longleftrightarrow> ss = []"
| "parts_match m (p # ps) ss \<longleftrightarrow>
     (if pattern p = '''' then (\<exists>k \<le> length ss. parts_match m ps (drop k ss))
      else (case ss of [] \<Rightarrow> False | s # ss' \<Rightarrow> part_ok m p s \<and> parts_match m ps ss'))"

definition rooted :: "patternPart list \<Rightarrow> bool" where
  "rooted ps \<longleftrightarrow> ps \<noteq> [] \<and> pattern (hd ps) = ''/''"

text \<open>
  Some infix of the path matches: a prefix if the pattern starts with \<open>/\<close>; otherwise not the marker
  \<open>/\<close> of an absolute path.
\<close>

definition matches :: "(string \<Rightarrow> string \<Rightarrow> bool) \<Rightarrow> patternPart list \<Rightarrow> string list \<Rightarrow> bool" where
  "matches m ps strs \<longleftrightarrow>
     (\<exists>pre mid post. strs = pre @ mid @ post \<and> parts_match m ps mid \<and> (mid = [] \<longrightarrow> strs = []) \<and>
       (if rooted ps then pre = [] else pre = [] \<longrightarrow> strs = [] \<or> hd strs \<noteq> ''/''))"

definition total_match :: "(string \<Rightarrow> string \<Rightarrow> bool res) \<Rightarrow> (string \<Rightarrow> string \<Rightarrow> bool) \<Rightarrow> bool" where
  "total_match fm m \<longleftrightarrow> (\<forall>p s. fm p s = Ok (m p s)) \<and> (\<forall>s. m ''*'' s)"

lemma inner_loop_eq:
  "total_match fm m \<Longrightarrow> inner_loop fm xs = Ok (\<forall>x \<in> set xs. part_ok m (fst x) (snd x))"
  by (induction xs) (auto simp: total_match_def part_match_def part_ok_def)

lemma offset_loop_eq:
  "total_match fm m \<Longrightarrow>
    offset_loop fm ps strs os =
      Ok (\<exists>off \<in> set os. \<forall>x \<in> set (zip ps (drop off strs)). part_ok m (fst x) (snd x))"
  by (induction os) (auto simp: inner_loop_eq)

lemma expand_loop_eq:
  "\<forall>i \<in> set is. rec i = Ok (b i) \<Longrightarrow> expand_loop rec is = Ok (\<exists>i \<in> set is. b i)"
  by (induction "is") auto

lemma parts_match_static:
  "\<forall>p \<in> set ps. pattern p \<noteq> '''' \<Longrightarrow>
    parts_match m (ps @ qs) ss \<longleftrightarrow>
      length ps \<le> length ss \<and> (\<forall>x \<in> set (zip ps ss). part_ok m (fst x) (snd x)) \<and> parts_match m qs (drop (length ps) ss)"
proof (induction ps arbitrary: ss)
  case (Cons p ps)
  then show ?case by (cases ss) auto
qed simp

lemma parts_match_stars:
  assumes "\<forall>s. m ''*'' s"
  shows "parts_match m (replicate i star_part @ qs) ss \<longleftrightarrow> i \<le> length ss \<and> parts_match m qs (drop i ss)"
proof -
  have "part_ok m (fst x) (snd x)" if "x \<in> set (zip (replicate i star_part) ss)" for x
  proof -
    have "fst x = star_part" using that by (metis in_set_replicate prod.collapse set_zip_leftD)
    then show ?thesis using assms by (simp add: part_ok_def star_part_def)
  qed
  then show ?thesis
    using parts_match_static [of "replicate i star_part" m qs ss] by (auto simp: star_part_def)
qed

lemma parts_match_expand:
  assumes "\<forall>s. m ''*'' s" "wildcard_pos ps = Some pos"
  shows "parts_match m ps ss \<longleftrightarrow> (\<exists>i. parts_match m (expand ps pos i) ss)"
proof -
  let ?pre = "take pos ps" and ?rest = "drop (pos + 1) ps"
  have P: "pos < length ps" "pattern (ps ! pos) = ''''" "\<forall>p \<in> set ?pre. pattern p \<noteq> ''''"
    using wildcard_pos_Some [OF assms(2)] by auto
  have "parts_match m ps ss = parts_match m (?pre @ ps ! pos # ?rest) ss"
    using id_take_nth_drop [OF P(1)] by simp
  also have "\<dots> \<longleftrightarrow> length ?pre \<le> length ss \<and> (\<forall>x \<in> set (zip ?pre ss). part_ok m (fst x) (snd x)) \<and>
      (\<exists>k \<le> length ss - length ?pre. parts_match m ?rest (drop k (drop (length ?pre) ss)))"
    by (simp add: parts_match_static [OF P(3)] P(2))
  also have "\<dots> \<longleftrightarrow> (\<exists>i. parts_match m (expand ps pos i) ss)"
    unfolding expand_def parts_match_static [OF P(3)] parts_match_stars [of m, OF assms(1)] by auto
  finally show ?thesis .
qed

lemma parts_match_length: "parts_match m ps ss \<Longrightarrow> length ps \<le> length ss + wildcards ps"
proof (induction ps arbitrary: ss)
  case (Cons p ps)
  show ?case
  proof (cases "pattern p = ''''")
    case True
    then obtain k where k: "k \<le> length ss" "parts_match m ps (drop k ss)" using Cons.prems by auto
    from Cons.IH [OF k(2)] True show ?thesis by (simp add: wildcards_def)
  next
    case False
    then obtain s ss' where ss: "ss = s # ss'" "parts_match m ps ss'" using Cons.prems by (cases ss) auto
    from Cons.IH [OF ss(2)] False ss(1) show ?thesis by (simp add: wildcards_def)
  qed
qed (simp add: wildcards_def)

section \<open>Lemmas: \<open>match\<close> and the declarative reading\<close>

lemma matches_Nil: "matches m [] strs \<longleftrightarrow> strs = []"
  by (auto simp: matches_def rooted_def)

lemma matches_static:
  assumes "\<forall>p \<in> set ps. pattern p \<noteq> ''''" "ps \<noteq> []"
  shows "matches m ps strs \<longleftrightarrow>
    (\<exists>off. off + length ps \<le> length strs \<and> (\<forall>x \<in> set (zip ps (drop off strs)). part_ok m (fst x) (snd x)) \<and>
      (if pattern (ps ! 0) = ''/'' then off = 0 else off = 0 \<longrightarrow> strs ! 0 \<noteq> ''/''))"
    (is "_ \<longleftrightarrow> (\<exists>off. ?P off)")
proof
  have pm: "parts_match m ps mid \<longleftrightarrow> length ps = length mid \<and> (\<forall>x \<in> set (zip ps mid). part_ok m (fst x) (snd x))" for mid
    using parts_match_static [OF assms(1), of m "[]" mid] by auto
  have rt: "rooted ps \<longleftrightarrow> pattern (ps ! 0) = ''/''" using assms(2) by (simp add: rooted_def hd_conv_nth)
  {
    assume "matches m ps strs"
    then obtain pre mid post where d: "strs = pre @ mid @ post" "parts_match m ps mid"
      "if rooted ps then pre = [] else pre = [] \<longrightarrow> strs = [] \<or> hd strs \<noteq> ''/''"
      by (auto simp: matches_def)
    have z: "zip ps (mid @ post) = zip ps mid" using d(2) by (simp add: pm zip_append2)
    have "strs \<noteq> []" using d(1,2) assms(2) by (auto simp: pm)
    then show "\<exists>off. ?P off"
      using d pm rt z by (intro exI [of _ "length pre"]) (auto simp: hd_conv_nth)
  }
  assume "\<exists>off. ?P off"
  then obtain off where o: "?P off" by blast
  let ?mid = "take (length ps) (drop off strs)"
  have "zip ps ?mid = zip ps (drop off strs)" using take_zip [of "length ps" ps "drop off strs"] by simp
  then have "parts_match m ps ?mid" using o by (auto simp: pm)
  moreover have "strs = take off strs @ ?mid @ drop (length ps) (drop off strs)" by (simp del: drop_drop)
  moreover have "strs \<noteq> []" using o assms(2) by auto
  moreover have "?mid \<noteq> []" using o assms(2) by (cases ps) auto
  ultimately show "matches m ps strs"
    unfolding matches_def rt using o
    by (intro exI [of _ "take off strs"] exI [of _ ?mid] exI [of _ "drop (length ps) (drop off strs)"])
      (auto simp: hd_conv_nth split: if_splits)
qed

lemma match_parts_static:
  assumes "total_match fm m" "wildcard_pos ps = None"
  shows "match_parts fm ps strs = Ok (matches m ps strs)"
proof (cases "ps = []")
  case True
  then show ?thesis by (simp add: match_parts.simps matches_Nil)
next
  case False
  have nw: "\<forall>p \<in> set ps. pattern p \<noteq> ''''" using assms(2) by (simp add: wildcard_pos_None)
  show ?thesis
  proof (cases "length ps \<le> length strs")
    case True
    let ?max = "if pattern (ps ! 0) = ''/'' then 0 else length strs - length ps"
    let ?min = "if pattern (ps ! 0) \<noteq> ''/'' \<and> strs ! 0 = ''/'' then 1 else 0"
    have "match_parts fm ps strs = offset_loop fm ps strs (rev [?min ..< ?max + 1])"
      unfolding match_parts.simps [of fm ps strs] using True False assms(2) by (simp add: Let_def del: upt_Suc)
    then have eq: "match_parts fm ps strs =
      Ok (\<exists>off \<in> {?min ..< ?max + 1}. \<forall>x \<in> set (zip ps (drop off strs)). part_ok m (fst x) (snd x))"
      unfolding offset_loop_eq [OF assms(1)] set_rev set_upt .
    have mem: "off \<in> {?min ..< ?max + 1} \<longleftrightarrow>
      off + length ps \<le> length strs \<and> (if pattern (ps ! 0) = ''/'' then off = 0 else off = 0 \<longrightarrow> strs ! 0 \<noteq> ''/'')" for off
      using True by auto
    show ?thesis unfolding eq matches_static [OF nw False] Bex_def mem res.inject by blast
  next
    case len: False
    then show ?thesis
      using False assms(2) by (auto simp: match_parts.simps [of fm ps strs] matches_static [OF nw False])
  qed
qed

text \<open>A prepared pattern has \<open>/\<close> only as its first part.\<close>

definition wf_parts :: "patternPart list \<Rightarrow> bool" where
  "wf_parts ps \<longleftrightarrow> (\<forall>p \<in> set (tl ps). pattern p \<noteq> ''/'')"

lemma expand_wf:
  assumes "wf_parts ps" "wildcard_pos ps = Some pos"
  shows "wf_parts (expand ps pos i)" "rooted (expand ps pos i) = rooted ps"
proof -
  obtain p qs where ps: "ps = p # qs" using assms(2) by (cases ps) auto
  have "wf_parts (expand ps pos i) \<and> rooted (expand ps pos i) = rooted ps"
  proof (cases pos)
    case 0
    then have "pattern p = ''''" using wildcard_pos_Some [OF assms(2)] ps by simp
    then show ?thesis
      using assms(1) by (cases i; cases qs) (auto simp: 0 ps expand_def wf_parts_def rooted_def star_part_def)
  next
    case (Suc k)
    then show ?thesis
      using assms(1) by (auto simp: ps expand_def wf_parts_def rooted_def star_part_def dest: in_set_takeD in_set_dropD)
  qed
  then show "wf_parts (expand ps pos i)" "rooted (expand ps pos i) = rooted ps" by simp_all
qed

lemma matches_expand:
  assumes "\<forall>s. m ''*'' s" "wf_parts ps" "wildcard_pos ps = Some pos"
  shows "matches m ps strs \<longleftrightarrow> (\<exists>i. matches m (expand ps pos i) strs)"
  unfolding matches_def expand_wf(2) [OF assms(2,3)] parts_match_expand [of m, OF assms(1,3)] by blast

lemma length_expand: "wildcard_pos ps = Some pos \<Longrightarrow> length (expand ps pos i) + 1 = length ps + i"
  using wildcard_pos_Some [of ps pos] by (cases "length ps") (auto simp: expand_def)

lemma matches_length: "matches m ps strs \<Longrightarrow> length ps \<le> length strs + wildcards ps"
  by (auto simp: matches_def dest: parts_match_length)

lemma match_parts_sound_complete:
  assumes "total_match fm m" "wf_parts ps"
  shows "\<exists>b. match_parts fm ps strs = Ok b \<and> (b \<longrightarrow> matches m ps strs) \<and> (wildcards ps \<le> 1 \<longrightarrow> b = matches m ps strs)"
  using assms(2)
proof (induction "wildcards ps" arbitrary: ps rule: less_induct)
  case less
  show ?case
  proof (cases "wildcard_pos ps")
    case None
    then show ?thesis using match_parts_static [OF assms(1) None] by simp
  next
    case (Some pos)
    have star: "\<forall>s. m ''*'' s" using assms(1) by (simp add: total_match_def)
    let ?is = "if length ps \<le> length strs + 1 then [0 ..< length strs + 2 - length ps] else []"
    have "\<exists>b. match_parts fm (expand ps pos i) strs = Ok b \<and> (b \<longrightarrow> matches m (expand ps pos i) strs) \<and>
        (wildcards (expand ps pos i) \<le> 1 \<longrightarrow> b = matches m (expand ps pos i) strs)" for i
      using less.hyps [OF wildcards_expand [OF Some] expand_wf(1) [OF less.prems Some]] .
    then obtain b where b: "\<forall>i. match_parts fm (expand ps pos i) strs = Ok (b i) \<and>
        (b i \<longrightarrow> matches m (expand ps pos i) strs) \<and>
        (wildcards (expand ps pos i) \<le> 1 \<longrightarrow> b i = matches m (expand ps pos i) strs)" by metis
    then have eq: "match_parts fm ps strs = Ok (\<exists>i \<in> set ?is. b i)"
      by (simp add: match_parts.simps [of fm ps] Some expand_loop_eq [where b = b])
    have "(\<exists>i \<in> set ?is. b i) = matches m ps strs" if w: "wildcards ps \<le> 1"
    proof -
      have w0: "wildcards (expand ps pos i) = 0" for i using wildcards_expand [OF Some, of i] w by simp
      have "i \<in> set ?is" if "matches m (expand ps pos i) strs" for i
        using matches_length [OF that] length_expand [OF Some, of i] w0 [of i] by auto
      then show ?thesis using b w0 matches_expand [of m, OF star less.prems Some] by auto
    qed
    then show ?thesis using eq b matches_expand [of m, OF star less.prems Some] by blast
  qed
qed

lemma parts_match_prefix:
  "parts_match m ps mid \<Longrightarrow> l \<le> length mid \<Longrightarrow> l \<le> length ps \<Longrightarrow> \<forall>p \<in> set (take l ps). pattern p \<noteq> '''' \<Longrightarrow>
    \<forall>x \<in> set (zip (take l ps) (take l mid)). part_ok m (fst x) (snd x)"
proof (induction ps arbitrary: l mid)
  case (Cons p ps)
  show ?case
  proof (cases l)
    case (Suc k)
    then have np: "pattern p \<noteq> ''''" using Cons.prems(4) by simp
    with Cons.prems(1) obtain s mid' where "mid = s # mid'" "part_ok m p s" "parts_match m ps mid'" by (cases mid) auto
    then show ?thesis using Cons.IH [of mid' k] Cons.prems Suc by auto
  qed simp
qed simp

text \<open>A child of a directory can match only if \<open>childMatch\<close> says so.\<close>

lemma childMatch_prefix:
  assumes tm: "total_match fm m" and ne: "parts pat \<noteq> []" "strs \<noteq> []"
    and M: "matches m (parts pat) (strs @ extra)"
  shows "childMatch fm pat strs = Ok True"
proof (cases "pattern (parts pat ! 0) = ''/''")
  case False
  then show ?thesis using ne(1) by (simp add: childMatch_def index_r_def)
next
  case True
  let ?ps = "parts pat"
  obtain ok pos where w: "hasDoubleWildcard pat = (ok, pos)" by fastforce
  define strs' where "strs' = (if ok \<and> length strs \<ge> pos then take pos strs else strs)"
  define l where "l = (if length strs' > length ?ps then length ?ps else length strs')"
  have "rooted ?ps" using True ne(1) by (simp add: rooted_def hd_conv_nth)
  then obtain mid post where d: "strs @ extra = mid @ post" "parts_match m ?ps mid" using M by (auto simp: matches_def)
  have W: "case wildcard_pos ?ps of Some i \<Rightarrow> ok \<and> pos = i | None \<Rightarrow> \<not> ok"
    using w by (auto simp: hasDoubleWildcard_def split: option.splits)
  have npos: "ok \<Longrightarrow> pos \<noteq> 0"
    using W wildcard_pos_Some [of ?ps pos] True by (cases "pos = 0") (auto split: option.splits)
  have static: "\<forall>p \<in> set (take l ?ps). pattern p \<noteq> ''''"
  proof (cases "wildcard_pos ?ps")
    case None
    then show ?thesis by (auto simp: wildcard_pos_None dest: in_set_takeD)
  next
    case (Some i)
    then have "l \<le> i" using W wildcard_pos_Some [OF Some] by (auto simp: l_def strs'_def)
    then have "set (take l ?ps) \<subseteq> set (take i ?ps)" by (rule set_take_subset_set_take)
    then show ?thesis using wildcard_pos_Some [OF Some] by blast
  qed
  have ne': "strs' \<noteq> []" using ne(2) npos by (auto simp: strs'_def)
  then have l0: "0 < l" using ne(1) by (simp add: l_def)
  have lps: "l \<le> length ?ps" "l \<le> length strs'" "l \<le> length strs" by (auto simp: l_def strs'_def)
  have lmid: "l \<le> length mid"
    using parts_match_static [OF static, of m "drop l ?ps" mid] d(2) lps(1) by simp
  have "take l mid = take l strs"
    using arg_cong [OF d(1), of "take l"] lmid lps(3) by simp
  also have "\<dots> = take l strs'" using lps(2) by (auto simp: strs'_def min_def split: if_splits)
  finally have "\<forall>x \<in> set (zip (take l ?ps) (take l strs')). part_ok m (fst x) (snd x)"
    using parts_match_prefix [OF d(2) lmid lps(1) static] by simp
  moreover have "zip (take l ?ps) (take l strs') = zip (take l ?ps) strs'"
    using take_zip [of l "take l ?ps" strs'] lps(1) by simp
  moreover have tne: "take l ?ps \<noteq> []" using l0 ne(1) by simp
  moreover have "take l ?ps ! 0 = ?ps ! 0" using l0 by simp
  ultimately have "matches m (take l ?ps) strs'"
    unfolding matches_static [OF static tne] using True lps by (intro exI [of _ 0]) simp
  then have "match_parts fm (take l ?ps) strs' = Ok True"
    using match_parts_static [OF tm, of "take l ?ps" strs'] static by (simp add: wildcard_pos_None)
  then show ?thesis
    using True ne(1) by (auto simp: childMatch_def index_r_def w match_def Let_def l_def simp flip: strs'_def split: if_splits)
qed

section \<open>Lemmas: lists of patterns\<close>

text \<open>The last pattern that matches decides.\<close>

fun last_match :: "(Pattern \<Rightarrow> bool) \<Rightarrow> Pattern list \<Rightarrow> bool \<Rightarrow> bool" where
  "last_match mt [] b = b"
| "last_match mt (p # ps) b = last_match mt ps (if mt p then \<not> isNegated p else b)"

lemma last_match_pos: "\<forall>p \<in> set ps. \<not> isNegated p \<Longrightarrow> last_match mt ps b \<longleftrightarrow> b \<or> (\<exists>p \<in> set ps. mt p)"
  by (induction ps arbitrary: b) auto

lemma hasNegated_eq: "fold (\<lambda>pat h. h \<or> isNegated pat) pats b \<longleftrightarrow> b \<or> (\<exists>p \<in> set pats. isNegated p)"
  by (induction pats arbitrary: b) auto

lemma list_pats_matched:
  assumes "\<forall>p \<in> set pats. match fm p strs = Ok (mt p)" "\<forall>p \<in> set pats. childMatch fm p strs = Ok (ct p)"
    and "hasNeg \<or> (\<forall>p \<in> set pats. \<not> isNegated p)"
  shows "\<exists>c. list_pats fm checkChild strs hasNeg pats (b, d) = Ok (last_match mt pats b, c)"
  using assms
proof (induction pats arbitrary: b d)
  case (Cons p pats)
  have IH: "\<exists>c. list_pats fm checkChild strs hasNeg pats (b', d') = Ok (last_match mt pats b', c)" for b' d'
    using Cons by auto
  show ?case
  proof (cases "isNegated p")
    case True
    then show ?thesis using Cons.prems IH [of "b \<and> \<not> mt p"] by (auto split: if_splits)
  next
    case False
    have eq: "list_pats fm checkChild strs hasNeg (p # pats) (b, d) =
      (let d' = d \<or> (if checkChild then ct p else True) in
       if (b \<or> mt p) \<and> d' \<and> \<not> hasNeg then Ok (b \<or> mt p, d')
       else list_pats fm checkChild strs hasNeg pats (b \<or> mt p, d'))"
      using Cons.prems False by (cases checkChild) (auto simp: Let_def)
    have lm: "last_match mt (p # pats) b = last_match mt pats (b \<or> mt p)" using False by simp
    show ?thesis
    proof (cases "(b \<or> mt p) \<and> (d \<or> (if checkChild then ct p else True)) \<and> \<not> hasNeg")
      case True
      then have "last_match mt pats (b \<or> mt p)" using Cons.prems(3) by (simp add: last_match_pos)
      then show ?thesis unfolding eq lm using True by (auto simp: Let_def)
    next
      case False
      then have "list_pats fm checkChild strs hasNeg (p # pats) (b, d) =
          list_pats fm checkChild strs hasNeg pats (b \<or> mt p, d \<or> (if checkChild then ct p else True))"
        unfolding eq Let_def by (rule if_not_P)
      then show ?thesis unfolding lm using IH by simp
    qed
  qed
qed simp

section \<open>Properties\<close>

lemma split_on_no_sep: "w \<in> set (split_on sep cs) \<Longrightarrow> sep \<notin> set w"
  by (induction cs arbitrary: w) (auto split: if_splits list.splits)

lemma split_on_ne: "split_on sep cs \<noteq> []"
  by (induction cs) (auto split: list.splits)

lemma preparePattern_wf: "preparePattern p = Ok pat \<Longrightarrow> parts pat \<noteq> [] \<and> wf_parts (parts pat)"
proof -
  have "wf_parts (map prepare_part (splitPath q)) \<and> splitPath q \<noteq> []" for q
  proof -
    have "pattern (prepare_part w) \<noteq> ''/''" if "w \<in> set (tl (split_on (CHR ''/'') q))" for w
      using split_on_no_sep [of w "CHR ''/''" q] list.set_sel(2) [OF split_on_ne that] by (auto simp: prepare_part_def Let_def)
    then show ?thesis
      by (cases "split_on (CHR ''/'') q") (auto simp: splitPath_def wf_parts_def Let_def split_on_ne)
  qed
  then show "preparePattern p = Ok pat \<Longrightarrow> parts pat \<noteq> [] \<and> wf_parts (parts pat)"
    by (auto simp: preparePattern_def res_simps Let_def)
qed


text \<open>A component matcher for concrete evaluations: \<open>*\<close> matches everything, other patterns themselves.\<close>

definition toy_fm :: "string \<Rightarrow> string \<Rightarrow> bool res" where
  "toy_fm p s = Ok (p = ''*'' \<or> p = s)"

lemma toy_fm_total: "total_match toy_fm (\<lambda>p s. p = ''*'' \<or> p = s)"
  by (simp add: total_match_def toy_fm_def)





text \<open>C21: In a list of patterns the last one that matches decides, negated or not: \<open>List\<close> answers yes
  exactly if some pattern matches and the last that matches is not negated; leaving the loop early
  without negated patterns does not change the answer.\<close>

theorem List_last_match:
  assumes "prepareStr str = Ok strs" "pats \<noteq> []"
    and "\<forall>p \<in> set pats. match fm p strs = Ok (mt p)" "\<forall>p \<in> set pats. childMatch fm p strs = Ok (ct p)"
  shows "Filter_List fm pats str = Ok (last_match mt pats False) \<and>
    map_r fst (ListWithChild fm pats str) = Ok (last_match mt pats False)"
proof -
  have L: "\<exists>c. list_pats fm ch strs (fold (\<lambda>pat h. h \<or> isNegated pat) pats False) pats (False, False) =
      Ok (last_match mt pats False, c)" for ch
    by (rule list_pats_matched [OF assms(3,4)]) (auto simp: hasNegated_eq)
  show ?thesis
    using assms(1,2) L [of False] L [of True]
    by (auto simp: Filter_List_def ListWithChild_def filter_list_def Let_def)
qed

theorem List_last_match_witness:
  "Filter_List toy_fm [\<lparr>parts = [\<lparr>pattern = ''*'', isSimple = False\<rparr>], isNegated = False\<rparr>,
      \<lparr>parts = [\<lparr>pattern = ''a'', isSimple = True\<rparr>], isNegated = True\<rparr>] ''a'' = Ok False"
proof -
  let ?p = "[\<lparr>parts = [\<lparr>pattern = ''*'', isSimple = False\<rparr>], isNegated = False\<rparr>,
      \<lparr>parts = [\<lparr>pattern = ''a'', isSimple = True\<rparr>], isNegated = True\<rparr>]"
  have "prepareStr ''a'' = Ok [''a'']" by code_simp
  moreover have "match toy_fm (?p ! 0) [''a''] = Ok True" "match toy_fm (?p ! 1) [''a''] = Ok True"
    "childMatch toy_fm (?p ! 0) [''a''] = Ok True" "childMatch toy_fm (?p ! 1) [''a''] = Ok True"
    by code_simp+
  ultimately show ?thesis
    using List_last_match [of "''a''" "[''a'']" ?p toy_fm "\<lambda>_. True" "\<lambda>_. True"] by simp
qed

end
