(* ===== verification/Durations.thy ===== *)
theory Durations
  imports Prelude
begin

text \<open>
  \<open>restic/duration.go\<close>: durations of hours, days, months and years, as text.

  Strings are in ASCII: \<open>unicode.IsNumber\<close> is a decimal digit and \<open>strings.TrimSpace\<close> removes the ASCII
  white space. \<open>strconv.Atoi\<close> fails on numbers beyond 63 bits, on which \<open>nextNumber\<close> panics.
\<close>

section \<open>Decimal numbers (\<open>strconv\<close>, \<open>fmt\<close>)\<close>

definition is_digit :: "char \<Rightarrow> bool" where
  "is_digit c \<longleftrightarrow> 48 \<le> (of_char c :: nat) \<and> (of_char c :: nat) \<le> 57"

definition digit_val :: "char \<Rightarrow> nat" where
  "digit_val c = of_char c - 48"

definition digit_char :: "nat \<Rightarrow> char" where
  "digit_char d = char_of (d + 48)"

definition dec_val :: "string \<Rightarrow> nat" where
  "dec_val s = fold (\<lambda>c n. n * 10 + digit_val c) s 0"

fun show_nat :: "nat \<Rightarrow> string" where
  "show_nat n = (if n < 10 then [digit_char n] else show_nat (n div 10) @ [digit_char (n mod 10)])"

declare show_nat.simps [simp del]

text \<open>\<open>%d\<close>.\<close>

definition show_int :: "int \<Rightarrow> string" where
  "show_int i = (if i < 0 then CHR ''-'' # show_nat (nat (- i)) else show_nat (nat i))"

definition strconv_Atoi :: "string \<Rightarrow> int res" where
  "strconv_Atoi s =
     (if s = [] \<or> \<not> list_all is_digit s then Err (ErrOther ''strconv.ErrSyntax'')
      else if dec_val s \<ge> 2 ^ 63 then Err (ErrOther ''strconv.ErrRange'')
      else Ok (int (dec_val s)))"

section \<open>Durations\<close>

record Duration =
  Hours :: int
  Days :: int
  Months :: int
  Years :: int

definition zero_Duration :: Duration where
  "zero_Duration = \<lparr>Hours = 0, Days = 0, Months = 0, Years = 0\<rparr>"

definition Duration_String :: "Duration \<Rightarrow> string" where
  "Duration_String d =
     (if Years d \<noteq> 0 then show_int (Years d) @ ''y'' else '''') @
     (if Months d \<noteq> 0 then show_int (Months d) @ ''m'' else '''') @
     (if Days d \<noteq> 0 then show_int (Days d) @ ''d'' else '''') @
     (if Hours d \<noteq> 0 then show_int (Hours d) @ ''h'' else '''')"

definition nextNumber :: "string \<Rightarrow> (int \<times> string) res" where
  "nextNumber input =
     (if length input = 0 then Ok (0, '''')
      else
        (let negative = (hd input = CHR ''-'');
             inp = (if negative then tl input else input);
             n = takeWhile is_digit inp;
             rest = dropWhile is_digit inp in
         if length n = 0 then Err (Errorf ''no number found'')
         else
           (case strconv_Atoi n of
              Ok num \<Rightarrow> Ok (if negative then - num else num, rest)
            | Err e \<Rightarrow> Panic ''strconv.Atoi''
            | Panic m \<Rightarrow> Panic m)))"

text \<open>The loop of \<open>ParseDuration\<close>; a unit other than the four is skipped.\<close>

lemma nextNumber_shorter: "nextNumber s = Ok (num, r) \<Longrightarrow> s \<noteq> [] \<Longrightarrow> length r < length s"
proof -
  assume *: "nextNumber s = Ok (num, r)" "s \<noteq> []"
  let ?inp = "if hd s = CHR ''-'' then tl s else s"
  from * have r: "r = dropWhile is_digit ?inp" "takeWhile is_digit ?inp \<noteq> []"
    by (auto simp: nextNumber_def Let_def split: if_splits res.splits)
  have "length ?inp = length (takeWhile is_digit ?inp) + length r"
    unfolding r(1) by (metis length_append takeWhile_dropWhile_id)
  then have "length r < length ?inp" using r(2) by (cases "takeWhile is_digit ?inp") auto
  moreover have "length ?inp \<le> length s" by simp
  ultimately show "length r < length s" by linarith
qed

function parse_loop :: "string \<Rightarrow> Duration \<Rightarrow> Duration res" where
  "parse_loop s d =
     (if s = '''' then Ok d
      else
        (case nextNumber s of
           Err e \<Rightarrow> Err e
         | Panic m \<Rightarrow> Panic m
         | Ok (num, s') \<Rightarrow>
             if length s' = 0 then Err (Errorf ''no unit found after number %d'')
             else
               parse_loop (tl s')
                 (if hd s' = CHR ''y'' then d\<lparr>Years := num\<rparr>
                  else if hd s' = CHR ''m'' then d\<lparr>Months := num\<rparr>
                  else if hd s' = CHR ''d'' then d\<lparr>Days := num\<rparr>
                  else if hd s' = CHR ''h'' then d\<lparr>Hours := num\<rparr>
                  else d)))"
  by pat_completeness auto
termination
  by (relation "measure (\<lambda>(s, d). length s)") (auto dest: nextNumber_shorter)

declare parse_loop.simps [simp del]

definition is_space :: "char \<Rightarrow> bool" where
  "is_space c \<longleftrightarrow> c = CHR '' '' \<or> (9 \<le> (of_char c :: nat) \<and> (of_char c :: nat) \<le> 13)"

definition TrimSpace :: "string \<Rightarrow> string" where
  "TrimSpace s = rev (dropWhile is_space (rev (dropWhile is_space s)))"

definition ParseDuration :: "string \<Rightarrow> Duration res" where
  "ParseDuration s = parse_loop (TrimSpace s) zero_Duration"

definition Duration_Set :: "Duration \<Rightarrow> string \<Rightarrow> Duration \<times> error option res" where
  "Duration_Set d s =
     (case ParseDuration s of
        Ok v \<Rightarrow> (v, Ok None)
      | Err e \<Rightarrow> (d, Ok (Some e))
      | Panic m \<Rightarrow> (d, Panic m))"

definition Duration_Zero :: "Duration \<Rightarrow> bool" where
  "Duration_Zero d \<longleftrightarrow> Years d = 0 \<and> Months d = 0 \<and> Days d = 0 \<and> Hours d = 0"

section \<open>Lemmas\<close>

lemma digit_char_props: "d < 10 \<Longrightarrow> is_digit (digit_char d) \<and> digit_val (digit_char d) = d"
  by (simp add: is_digit_def digit_val_def digit_char_def)

lemma dec_val_snoc: "dec_val (s @ [c]) = dec_val s * 10 + digit_val c"
  by (simp add: dec_val_def)

lemma show_nat_props: "list_all is_digit (show_nat n) \<and> dec_val (show_nat n) = n \<and> show_nat n \<noteq> []"
proof (induction n rule: show_nat.induct)
  case (1 n)
  show ?case
  proof (cases "n < 10")
    case True
    then show ?thesis using digit_char_props [of n] by (simp add: show_nat.simps [of n] dec_val_def)
  next
    case False
    then show ?thesis
      using 1 [OF False] digit_char_props [of "n mod 10"]
      by (simp add: show_nat.simps [of n] dec_val_snoc)
  qed
qed

lemma digit_not_minus: "is_digit c \<Longrightarrow> c \<noteq> CHR ''-''"
  by (auto simp: is_digit_def)

text \<open>Reading back one printed number in front of its unit.\<close>

lemma nextNumber_show_int:
  assumes "\<bar>i\<bar> < 2 ^ 63" "\<not> is_digit u"
  shows "nextNumber (show_int i @ u # rest) = Ok (i, u # rest)"
proof -
  let ?n = "nat \<bar>i\<bar>"
  have P: "list_all is_digit (show_nat ?n)" "dec_val (show_nat ?n) = ?n" "show_nat ?n \<noteq> []"
    using show_nat_props [of ?n] by auto
  have tw: "takeWhile is_digit (show_nat ?n @ u # rest) = show_nat ?n"
    "dropWhile is_digit (show_nat ?n @ u # rest) = u # rest"
    using P(1) assms(2) by (auto simp: list_all_iff takeWhile_append)
  have "hd (show_nat ?n) \<noteq> CHR ''-''"
    using P(1,3) digit_not_minus by (metis list.set_sel(1) list_all_iff)
  moreover have "nat \<bar>i\<bar> < 2 ^ 63" using assms(1) by (simp add: nat_less_iff)
  then have "strconv_Atoi (show_nat ?n) = Ok (int ?n)"
    using P by (simp add: strconv_Atoi_def not_le)
  ultimately show ?thesis
    using tw P(3) by (cases "i < 0") (simp_all add: nextNumber_def show_int_def Let_def)
qed

lemma parse_loop_unit:
  assumes "\<bar>i\<bar> < 2 ^ 63" "\<not> is_digit u"
  shows "parse_loop (show_int i @ u # rest) d =
    parse_loop rest (if u = CHR ''y'' then d\<lparr>Years := i\<rparr> else if u = CHR ''m'' then d\<lparr>Months := i\<rparr>
      else if u = CHR ''d'' then d\<lparr>Days := i\<rparr> else if u = CHR ''h'' then d\<lparr>Hours := i\<rparr> else d)"
  by (subst parse_loop.simps) (simp add: nextNumber_show_int [OF assms])

lemma parse_loop_Nil [simp]: "parse_loop [] d = Ok d"
  by (simp add: parse_loop.simps)

definition small_Duration :: "Duration \<Rightarrow> bool" where
  "small_Duration d \<longleftrightarrow> \<bar>Years d\<bar> < 2 ^ 63 \<and> \<bar>Months d\<bar> < 2 ^ 63 \<and> \<bar>Days d\<bar> < 2 ^ 63 \<and> \<bar>Hours d\<bar> < 2 ^ 63"

lemma parse_loop_String:
  assumes "small_Duration d"
  shows "parse_loop (Duration_String d) zero_Duration = Ok d"
proof -
  have nd: "\<not> is_digit (CHR ''y'')" "\<not> is_digit (CHR ''m'')" "\<not> is_digit (CHR ''d'')" "\<not> is_digit (CHR ''h'')"
    by (simp_all add: is_digit_def)
  obtain h dd m y where d: "d = \<lparr>Hours = h, Days = dd, Months = m, Years = y\<rparr>" by (cases d)
  show ?thesis
    using assms nd unfolding d Duration_String_def zero_Duration_def small_Duration_def
    by (cases "y = 0"; cases "m = 0"; cases "dd = 0"; cases "h = 0") (simp_all add: parse_loop_unit)
qed

lemma TrimSpace_String: "TrimSpace (Duration_String d) = Duration_String d"
proof -
  have show_ns: "\<not> is_space (hd (show_int i)) \<and> show_int i \<noteq> []" for i
  proof -
    have "is_digit (hd (show_nat n)) \<and> show_nat n \<noteq> []" for n
      using show_nat_props [of n] by (metis list.set_sel(1) list_all_iff)
    moreover have "is_digit c \<Longrightarrow> \<not> is_space c" for c by (auto simp: is_digit_def is_space_def)
    ultimately show ?thesis by (auto simp: show_int_def is_space_def)
  qed
  have dw: "xs \<noteq> [] \<Longrightarrow> \<not> is_space (hd xs) \<Longrightarrow> dropWhile is_space (xs @ ys) = xs @ ys" for xs ys
    by (cases xs) auto
  have "Duration_String d = [] \<or> (\<not> is_space (hd (Duration_String d)) \<and> \<not> is_space (last (Duration_String d)))"
    using show_ns by (auto simp: Duration_String_def is_space_def)
  moreover have "xs \<noteq> [] \<Longrightarrow> \<not> is_space (hd xs) \<Longrightarrow> \<not> is_space (last xs) \<Longrightarrow> TrimSpace xs = xs" for xs
    using dw [of xs "[]"] dw [of "rev xs" "[]"] by (simp add: TrimSpace_def hd_rev)
  ultimately show ?thesis
    by (cases "Duration_String d = []") (auto simp: TrimSpace_def)
qed

section \<open>Properties\<close>

text \<open>C23: A duration printed by \<open>String\<close> is parsed back to the same duration, negative fields included,
  for fields within 63 bits.\<close>

theorem Duration_roundtrip:
  assumes "small_Duration d"
  shows "ParseDuration (Duration_String d) = Ok d"
  using parse_loop_String [OF assms] by (simp add: ParseDuration_def TrimSpace_String)

theorem Duration_roundtrip_witness:
  "ParseDuration (Duration_String \<lparr>Hours = 37, Days = - 234, Months = 5, Years = 6\<rparr>) =
    Ok \<lparr>Hours = 37, Days = - 234, Months = 5, Years = 6\<rparr>"
  using Duration_roundtrip [of "\<lparr>Hours = 37, Days = - 234, Months = 5, Years = 6\<rparr>"]
  by (simp add: small_Duration_def)


end
