(* ===== verification/Snapshots.thy ===== *)
theory Snapshots
  imports GoSet Ids PathFilter Durations
begin

text \<open>
  \<open>restic/snapshot.go\<close>, \<open>tag_list.go\<close>, \<open>snapshot_group.go\<close> and \<open>snapshot_find.go\<close>: snapshots, their tags,
  grouping and the search for the latest one.

  A \<open>time.Time\<close> is its instant, in nanoseconds since the Unix epoch. The callback of
  \<open>ForAllSnapshots\<close> runs under a lock for one snapshot at a time but in any order: the model takes the
  order in which the workers finish as an argument, and the properties hold for each. A nil and an
  empty list of tags or paths are not told apart, so a group key is the record \<open>SnapshotGroupKey\<close>
  itself and not its JSON text.
\<close>

section \<open>Snapshots (\<open>snapshot.go\<close>)\<close>

type_synonym time = int

record Snapshot =
  sn_Time :: time
  sn_Parent :: "ID option"
  sn_Tree :: "ID option"
  sn_Paths :: "string list"
  sn_Hostname :: string
  sn_Username :: string
  sn_UID :: "32 word"
  sn_GID :: "32 word"
  sn_Excludes :: "string list"
  sn_Tags :: "string list"
  sn_Original :: "ID option"
  sn_id :: "ID option"

text \<open>\<open>filepath.Abs\<close> and the current user come from the operating system.\<close>

definition NewSnapshot ::
  "(string \<Rightarrow> string res) \<Rightarrow> (string \<times> (32 word \<times> 32 word) res) option \<Rightarrow> string list \<Rightarrow> string list \<Rightarrow> string \<Rightarrow> time
    \<Rightarrow> Snapshot res" where
  "NewSnapshot absf usr paths tags hostname t =
     (let absPaths = map (\<lambda>path. case absf path of Ok p \<Rightarrow> p | Err e \<Rightarrow> path | Panic m \<Rightarrow> path) paths;
          sn = \<lparr>sn_Time = t, sn_Parent = None, sn_Tree = None, sn_Paths = absPaths, sn_Hostname = hostname,
                sn_Username = '''', sn_UID = 0, sn_GID = 0, sn_Excludes = [], sn_Tags = tags,
                sn_Original = None, sn_id = None\<rparr> in
      (case usr of
         None \<Rightarrow> Ok sn
       | Some (name, ids) \<Rightarrow>
           bind_r ids (\<lambda>(uid, gid). Ok (sn\<lparr>sn_Username := name, sn_UID := uid, sn_GID := gid\<rparr>))))"

definition AddTags :: "Snapshot \<Rightarrow> string list \<Rightarrow> Snapshot \<times> bool" where
  "AddTags sn addTags =
     fold (\<lambda>add (sn, changed).
       if list_ex (\<lambda>tag. tag = add) (sn_Tags sn) then (sn, changed)
       else (sn\<lparr>sn_Tags := sn_Tags sn @ [add]\<rparr>, True)) addTags (sn, False)"

text \<open>The index of the first occurrence, where the inner loop of \<open>RemoveTags\<close> stops.\<close>

primrec tag_index :: "string \<Rightarrow> string list \<Rightarrow> nat option" where
  "tag_index r [] = None"
| "tag_index r (t # ts) = (if t = r then Some 0 else map_option Suc (tag_index r ts))"

definition remove_tag :: "string \<Rightarrow> string list \<Rightarrow> string list \<times> bool" where
  "remove_tag r tags =
     (case tag_index r tags of
        None \<Rightarrow> (tags, False)
      | Some i \<Rightarrow>
          (let tags1 = tags[i := tags ! (length tags - 1)];
               tags2 = tags1[length tags1 - 1 := ''''] in
           (take (length tags2 - 1) tags2, True)))"

definition RemoveTags :: "Snapshot \<Rightarrow> string list \<Rightarrow> Snapshot \<times> bool" where
  "RemoveTags sn removeTags =
     fold (\<lambda>r (sn, changed). case remove_tag r (sn_Tags sn) of (ts, c) \<Rightarrow> (sn\<lparr>sn_Tags := ts\<rparr>, changed \<or> c))
       removeTags (sn, False)"

definition hasTag :: "Snapshot \<Rightarrow> string \<Rightarrow> bool" where
  "hasTag sn tag = list_ex (\<lambda>snTag. tag = snTag) (sn_Tags sn)"

primrec HasTags :: "Snapshot \<Rightarrow> string list \<Rightarrow> bool" where
  "HasTags sn [] = True"
| "HasTags sn (tag # l) =
     (if tag = '''' \<and> length (sn_Tags sn) = 0 then True
      else if \<not> hasTag sn tag then False
      else HasTags sn l)"

definition HasTagList :: "Snapshot \<Rightarrow> string list list \<Rightarrow> bool" where
  "HasTagList sn l = (if length l = 0 then True else list_ex (HasTags sn) l)"

definition hasPath :: "Snapshot \<Rightarrow> string \<Rightarrow> bool" where
  "hasPath sn path = list_ex (\<lambda>snPath. path = snPath) (sn_Paths sn)"

definition HasPaths :: "Snapshot \<Rightarrow> string list \<Rightarrow> bool" where
  "HasPaths sn paths = list_all (hasPath sn) paths"

definition HasHostname :: "Snapshot \<Rightarrow> string list \<Rightarrow> bool" where
  "HasHostname sn hostnames =
     (if length hostnames = 0 then True else list_ex (\<lambda>hostname. sn_Hostname sn = hostname) hostnames)"

definition Snapshots_Less :: "Snapshot \<Rightarrow> Snapshot \<Rightarrow> bool" where
  "Snapshots_Less a b \<longleftrightarrow> sn_Time a > sn_Time b"

text \<open>\<open>load\<close> is \<open>repo.LoadJSONUnpacked\<close> of a snapshot file; it does not set the field \<open>id\<close>.\<close>

definition LoadSnapshot :: "(ID \<Rightarrow> Snapshot res) \<Rightarrow> ID \<Rightarrow> Snapshot res" where
  "LoadSnapshot load i = map_r (\<lambda>sn. sn\<lparr>sn_id := Some i\<rparr>) (load i)"

definition ForAllSnapshots ::
  "(ID \<Rightarrow> Snapshot res) \<Rightarrow> ID list \<Rightarrow> ID list \<Rightarrow> (ID \<Rightarrow> Snapshot res \<Rightarrow> 's \<Rightarrow> 's res) \<Rightarrow> 's \<Rightarrow> 's res" where
  "ForAllSnapshots load order excludeIDs fn s =
     fold_r (\<lambda>i s. fn i (LoadSnapshot load i) s) (filter (\<lambda>i. i \<notin> set excludeIDs) order) s"

section \<open>Tag lists (\<open>tag_list.go\<close>)\<close>

definition splitTagList :: "string \<Rightarrow> string list" where
  "splitTagList s = map TrimSpace (split_on (CHR '','') s)"

primrec join_with :: "string \<Rightarrow> string list \<Rightarrow> string" where
  "join_with sep [] = ''''"
| "join_with sep (x # xs) = (if xs = [] then x else x @ sep @ join_with sep xs)"

definition TagList_String :: "string list \<Rightarrow> string" where
  "TagList_String l = ''['' @ join_with '', '' l @ '']''"

definition TagList_Set :: "string list \<Rightarrow> string \<Rightarrow> string list" where
  "TagList_Set l s = splitTagList s"

definition TagLists_String :: "string list list \<Rightarrow> string" where
  "TagLists_String l = ''['' @ join_with '' '' (map TagList_String l) @ '']''"

definition Flatten :: "string list list \<Rightarrow> string list" where
  "Flatten l = concat (map (filter (\<lambda>tag. tag \<noteq> '''')) l)"

definition TagLists_Set :: "string list list \<Rightarrow> string \<Rightarrow> string list list" where
  "TagLists_Set l s = l @ [splitTagList s]"

section \<open>Grouping (\<open>snapshot_group.go\<close>)\<close>

record SnapshotGroupKey =
  gk_Hostname :: string
  gk_Paths :: "string list"
  gk_Tags :: "string list"

text \<open>The switches for tags, hosts and paths.\<close>

type_synonym group_opts = "bool \<times> bool \<times> bool"

definition group_option :: "string \<Rightarrow> group_opts \<Rightarrow> group_opts res" where
  "group_option option g =
     (case g of (byTag, byHost, byPath) \<Rightarrow>
        if option = ''host'' \<or> option = ''hosts'' then Ok (byTag, True, byPath)
        else if option = ''path'' \<or> option = ''paths'' then Ok (byTag, byHost, True)
        else if option = ''tag'' \<or> option = ''tags'' then Ok (True, byHost, byPath)
        else if option = '''' then Ok g
        else Err (Fatal (''unknown grouping option: '' @ option)))"

definition string_less :: "string \<Rightarrow> string \<Rightarrow> bool" where
  "string_less a b \<longleftrightarrow> (map of_char a :: nat list, map of_char b) \<in> lexord {(x, y). x < y}"

definition sort_Strings :: "string list \<Rightarrow> string list" where
  "sort_Strings = go_sort string_less"

text \<open>The lists of a snapshot are sorted in place.\<close>

definition group_norm :: "group_opts \<Rightarrow> Snapshot \<Rightarrow> Snapshot" where
  "group_norm g sn =
     (case g of (byTag, byHost, byPath) \<Rightarrow>
        (if byTag then sn\<lparr>sn_Tags := sort_Strings (sn_Tags sn)\<rparr> else sn)\<lparr>sn_Paths := sort_Strings (sn_Paths sn)\<rparr>)"

definition group_key :: "group_opts \<Rightarrow> Snapshot \<Rightarrow> SnapshotGroupKey" where
  "group_key g sn =
     (case g of (byTag, byHost, byPath) \<Rightarrow>
        \<lparr>gk_Hostname = (if byHost then sn_Hostname sn else ''''),
         gk_Paths = (if byPath then sn_Paths sn else []),
         gk_Tags = (if byTag then sn_Tags sn else [])\<rparr>)"

text \<open>Appending to an entry of a map, which is kept in the order of its first insertions.\<close>

primrec group_append :: "'k \<Rightarrow> 'v \<Rightarrow> ('k \<times> 'v list) list \<Rightarrow> ('k \<times> 'v list) list" where
  "group_append k v [] = [(k, [v])]"
| "group_append k v (g # gs) = (if fst g = k then (k, snd g @ [v]) # gs else g # group_append k v gs)"

definition GroupSnapshots :: "Snapshot list \<Rightarrow> string \<Rightarrow> ((SnapshotGroupKey \<times> Snapshot list) list \<times> bool) res" where
  "GroupSnapshots snapshots options =
     bind_r (fold_r group_option (split_on (CHR '','') options) (False, False, False)) (\<lambda>g.
       Ok (fold (\<lambda>sn groups. let sn' = group_norm g sn in group_append (group_key g sn') sn' groups) snapshots [],
           case g of (byTag, byHost, byPath) \<Rightarrow> byTag \<or> byHost \<or> byPath))"

section \<open>Finding snapshots (\<open>snapshot_find.go\<close>)\<close>

text \<open>The zero \<open>time.Time\<close>, 1 January of the year 1.\<close>

definition zero_time :: time where
  "zero_time = - 62135596800000000000"

text \<open>The callback of \<open>FindLatestSnapshot\<close> on \<open>latest\<close> and \<open>latestID\<close>, if \<open>found\<close>.\<close>

definition latest_step ::
  "string list \<Rightarrow> string list list \<Rightarrow> string list \<Rightarrow> time option \<Rightarrow> ID \<Rightarrow> Snapshot res \<Rightarrow> time \<times> ID option
    \<Rightarrow> (time \<times> ID option) res" where
  "latest_step absTargets tagLists hostnames limit i r st =
     (case r of
        Panic m \<Rightarrow> Panic m
      | Err e \<Rightarrow> Err (Errorf ''Error loading snapshot'')
      | Ok snapshot \<Rightarrow>
          Ok (if (case limit of None \<Rightarrow> False | Some l \<Rightarrow> sn_Time snapshot > l) then st
              else if sn_Time snapshot < fst st then st
              else if \<not> HasHostname snapshot hostnames then st
              else if \<not> HasTagList snapshot tagLists then st
              else if \<not> HasPaths snapshot absTargets then st
              else (sn_Time snapshot, Some i)))"

definition FindLatestSnapshot ::
  "(string \<Rightarrow> string res) \<Rightarrow> (ID \<Rightarrow> Snapshot res) \<Rightarrow> ID list \<Rightarrow> string list \<Rightarrow> string list list \<Rightarrow> string list \<Rightarrow> time option
    \<Rightarrow> ID res" where
  "FindLatestSnapshot absf load order targets tagLists hostnames limit =
     bind_r (mapM_r (\<lambda>target.
         if hd (target @ ''x'') = CHR ''/'' then Ok (filepath_Clean target)
         else (case absf target of
                 Ok t \<Rightarrow> Ok (filepath_Clean t)
               | Err e \<Rightarrow> Err (Wrap e ''Abs'')
               | Panic m \<Rightarrow> Panic m)) targets) (\<lambda>absTargets.
       bind_r (ForAllSnapshots load order [] (latest_step absTargets tagLists hostnames limit) (zero_time, None))
         (\<lambda>st. case snd st of None \<Rightarrow> Err ErrNoSnapshotFound | Some i \<Rightarrow> Ok i))"

definition FindFilteredSnapshots ::
  "(ID \<Rightarrow> Snapshot res) \<Rightarrow> ID list \<Rightarrow> string list \<Rightarrow> string list list \<Rightarrow> string list \<Rightarrow> Snapshot list res" where
  "FindFilteredSnapshots load order hosts tags paths =
     ForAllSnapshots load order [] (\<lambda>i r results.
       case r of
         Panic m \<Rightarrow> Panic m
       | Err e \<Rightarrow> Ok results
       | Ok sn \<Rightarrow>
           if \<not> HasHostname sn hosts \<or> \<not> HasTagList sn tags \<or> \<not> HasPaths sn paths then Ok results
           else Ok (results @ [sn])) []"

section \<open>Lemmas\<close>

text \<open>A snapshot with the empty tag in the list counts as tagged if it has no tags at all.\<close>

lemma HasTags_iff:
  "HasTags sn l \<longleftrightarrow>
    (if sn_Tags sn = [] then l = [] \<or> hd l = '''' else set l \<subseteq> set (sn_Tags sn))"
  by (induction l) (auto simp: hasTag_def list_ex_iff)

lemma AddTags_fold:
  "fold (\<lambda>add (sn, changed).
       if list_ex (\<lambda>tag. tag = add) (sn_Tags sn) then (sn, changed)
       else (sn\<lparr>sn_Tags := sn_Tags sn @ [add]\<rparr>, True)) add (sn, c) = (sn', c') \<Longrightarrow>
   \<exists>new. sn' = sn\<lparr>sn_Tags := sn_Tags sn @ new\<rparr> \<and> set (sn_Tags sn') = set (sn_Tags sn) \<union> set add \<and>
     (distinct (sn_Tags sn) \<longrightarrow> distinct (sn_Tags sn')) \<and> (c' \<longleftrightarrow> c \<or> new \<noteq> [])"
proof (induction add arbitrary: sn c)
  case Nil
  then show ?case by (intro exI [of _ "[]"]) auto
next
  case (Cons a add)
  show ?case
  proof (cases "a \<in> set (sn_Tags sn)")
    case True
    then have "list_ex (\<lambda>tag. tag = a) (sn_Tags sn)" by (auto simp: list_ex_iff)
    from Cons.IH [of sn c] Cons.prems this obtain new where new: "sn' = sn\<lparr>sn_Tags := sn_Tags sn @ new\<rparr>"
      "set (sn_Tags sn') = set (sn_Tags sn) \<union> set add"
      "distinct (sn_Tags sn) \<longrightarrow> distinct (sn_Tags sn')" "c' \<longleftrightarrow> c \<or> new \<noteq> []"
      unfolding fold_simps(2) by (simp only: prod.case if_True) blast
    have "set (sn_Tags sn') = set (sn_Tags sn) \<union> set (a # add)" using new(2) True by auto
    with new show ?thesis by blast
  next
    case False
    let ?sn = "sn\<lparr>sn_Tags := sn_Tags sn @ [a]\<rparr>"
    from False have "\<not> list_ex (\<lambda>tag. tag = a) (sn_Tags sn)" by (auto simp: list_ex_iff)
    from Cons.IH [of ?sn True] Cons.prems this obtain new where new: "sn' = ?sn\<lparr>sn_Tags := sn_Tags ?sn @ new\<rparr>"
      "set (sn_Tags sn') = set (sn_Tags ?sn) \<union> set add"
      "distinct (sn_Tags ?sn) \<longrightarrow> distinct (sn_Tags sn')" "c' \<longleftrightarrow> True \<or> new \<noteq> []"
      unfolding fold_simps(2) by (simp only: prod.case if_False) blast
    have "sn' = sn\<lparr>sn_Tags := sn_Tags sn @ (a # new)\<rparr>" "set (sn_Tags sn') = set (sn_Tags sn) \<union> set (a # add)"
      using new(1,2) by auto
    moreover have "distinct (sn_Tags sn) \<longrightarrow> distinct (sn_Tags sn')" using new(3) False by simp
    moreover have "c' \<longleftrightarrow> c \<or> a # new \<noteq> []" using new(4) by simp
    ultimately show ?thesis by blast
  qed
qed

lemma tag_index_Some: "tag_index r ts = Some i \<Longrightarrow> i < length ts \<and> ts ! i = r \<and> r \<notin> set (take i ts)"
  by (induction ts arbitrary: i) (auto split: if_splits)

lemma tag_index_None: "tag_index r ts = None \<longleftrightarrow> r \<notin> set ts"
  by (induction ts) auto

lemma remove_tag_mset: "mset (fst (remove_tag r ts)) = mset ts - {#r#} \<and> (snd (remove_tag r ts) \<longleftrightarrow> r \<in> set ts)"
proof (cases "tag_index r ts")
  case None
  moreover from None have "r \<notin> set ts" by (simp add: tag_index_None)
  ultimately show ?thesis by (simp add: remove_tag_def)
next
  case (Some i)
  then have i: "i < length ts" "ts ! i = r" using tag_index_Some by auto
  then obtain us z where ts: "ts = us @ [z]" by (cases ts rule: rev_cases) auto
  have "fst (remove_tag r ts) = butlast (ts[i := z])"
    using Some by (simp add: remove_tag_def ts butlast_conv_take Let_def nth_append)
  also have "mset (butlast (ts[i := z])) = mset ts - {#r#}"
  proof (cases "i = length us")
    case True
    then show ?thesis using i by (simp add: ts)
  next
    case False
    then have "i < length us" "us ! i = r" using i by (auto simp: ts nth_append)
    moreover from this have "r \<in># mset us" by auto
    ultimately show ?thesis
      using mset_update [of i us z] by (simp add: ts list_update_append1 butlast_append insert_DiffM)
  qed
  finally show ?thesis using Some i by (auto simp: remove_tag_def Let_def)
qed

lemma RemoveTags_fold:
  "fold (\<lambda>r (sn, changed). case remove_tag r (sn_Tags sn) of (ts, c) \<Rightarrow> (sn\<lparr>sn_Tags := ts\<rparr>, changed \<or> c)) rs (sn, c) =
    (sn', c') \<Longrightarrow>
   mset (sn_Tags sn') = mset (sn_Tags sn) - mset rs \<and> sn' = sn\<lparr>sn_Tags := sn_Tags sn'\<rparr> \<and>
     (c' \<longleftrightarrow> c \<or> set rs \<inter> set (sn_Tags sn) \<noteq> {})"
proof (induction rs arbitrary: sn c)
  case Nil
  then show ?case by auto
next
  case (Cons r rs)
  obtain ts d where r: "remove_tag r (sn_Tags sn) = (ts, d)" by (cases "remove_tag r (sn_Tags sn)")
  have ts: "mset ts = mset (sn_Tags sn) - {#r#}" "d \<longleftrightarrow> r \<in> set (sn_Tags sn)"
    using remove_tag_mset [of r "sn_Tags sn"] by (auto simp: r)
  have same: "\<not> d \<Longrightarrow> set ts = set (sn_Tags sn)"
    using ts by (metis diff_single_trivial set_mset_mset)
  have "mset (sn_Tags sn') = mset ts - mset rs" "sn' = sn\<lparr>sn_Tags := sn_Tags sn'\<rparr>"
    "c' \<longleftrightarrow> (c \<or> d) \<or> set rs \<inter> set ts \<noteq> {}"
    using Cons.IH [of "sn\<lparr>sn_Tags := ts\<rparr>" "c \<or> d"] Cons.prems r by auto
  then show ?case using ts same by (cases d) auto
qed

lemma group_append_keys:
  "map fst (group_append k v gs) = (if k \<in> fst ` set gs then map fst gs else map fst gs @ [k])"
  by (induction gs) auto

lemma group_append_lookup:
  "map_of (group_append k v gs) x =
    (if x = k then Some ((case map_of gs k of None \<Rightarrow> [] | Some l \<Rightarrow> l) @ [v]) else map_of gs x)"
  by (induction gs) auto

text \<open>What grouping computes: under each key the elements with it, in their order.\<close>

lemma group_fold:
  assumes "distinct (map fst gs)"
  shows "distinct (map fst (fold (\<lambda>x gs. group_append (key x) x gs) xs gs)) \<and>
    map_of (fold (\<lambda>x gs. group_append (key x) x gs) xs gs) k =
      (let l = (case map_of gs k of None \<Rightarrow> [] | Some l \<Rightarrow> l) @ filter (\<lambda>x. key x = k) xs in
       if k \<in> fst ` set gs \<or> (\<exists>x \<in> set xs. key x = k) then Some l else None)"
  using assms
proof (induction xs arbitrary: gs)
  case Nil
  then show ?case by (cases "map_of gs k") (auto simp: Let_def map_of_eq_None_iff dest: map_of_SomeD intro: rev_image_eqI)
next
  case (Cons x xs)
  have d: "distinct (map fst (group_append (key x) x gs))"
    using Cons.prems by (auto simp: group_append_keys)
  have f: "fst ` set (group_append (key x) x gs) = insert (key x) (fst ` set gs)"
    using arg_cong [OF group_append_keys [of "key x" x gs], of set] by auto
  from Cons.IH [OF d] show ?case
    by (cases "map_of gs k") (auto simp: f group_append_lookup Let_def)
qed

text \<open>A snapshot passes the filters of \<open>FindLatestSnapshot\<close>.\<close>

definition candidate :: "string list \<Rightarrow> string list list \<Rightarrow> string list \<Rightarrow> time option \<Rightarrow> Snapshot \<Rightarrow> bool" where
  "candidate absTargets tagLists hostnames limit sn \<longleftrightarrow>
     (\<forall>l. limit = Some l \<longrightarrow> sn_Time sn \<le> l) \<and> zero_time \<le> sn_Time sn \<and>
     HasHostname sn hostnames \<and> HasTagList sn tagLists \<and> HasPaths sn absTargets"

definition latest_inv :: "(Snapshot \<Rightarrow> bool) \<Rightarrow> (ID \<Rightarrow> Snapshot) \<Rightarrow> ID set \<Rightarrow> time \<times> ID option \<Rightarrow> bool" where
  "latest_inv cand sns seen st \<longleftrightarrow>
     zero_time \<le> fst st \<and>
     (case snd st of
        None \<Rightarrow> (\<forall>i \<in> seen. \<not> cand (sns i)) \<and> fst st = zero_time
      | Some i \<Rightarrow> i \<in> seen \<and> cand (sns i) \<and> fst st = sn_Time (sns i) \<and>
          (\<forall>j \<in> seen. cand (sns j) \<longrightarrow> sn_Time (sns j) \<le> fst st))"

lemma latest_step_inv:
  assumes "latest_inv (candidate a t h lim) sns seen st" "latest_step a t h lim i (Ok sn) st = Ok st'"
    and sn: "sn = (sns i)\<lparr>sn_id := Some i\<rparr>"
  shows "latest_inv (candidate a t h lim) sns (insert i seen) st'"
proof -
  have filters: "sn_Time sn = sn_Time (sns i)" "HasHostname sn h = HasHostname (sns i) h"
    "HasTagList sn t = HasTagList (sns i) t" "HasPaths sn a = HasPaths (sns i) a"
  proof -
    have "hasPath sn = hasPath (sns i)" "hasTag sn = hasTag (sns i)" "HasTags sn = HasTags (sns i)"
      by (auto simp: sn fun_eq_iff hasPath_def hasTag_def HasTags_iff)
    then show "sn_Time sn = sn_Time (sns i)" "HasHostname sn h = HasHostname (sns i) h"
      "HasTagList sn t = HasTagList (sns i) t" "HasPaths sn a = HasPaths (sns i) a"
      by (simp_all add: sn HasHostname_def HasTagList_def HasPaths_def)
  qed
  show ?thesis
  proof (cases "candidate a t h lim (sns i) \<and> fst st \<le> sn_Time (sns i)")
    case True
    then have "st' = (sn_Time (sns i), Some i)"
      using assms(2) filters by (auto simp: latest_step_def candidate_def split: option.splits if_splits)
    then show ?thesis
      using True assms(1) by (auto simp: latest_inv_def split: option.splits)
  next
    case False
    then have "st' = st"
      using assms(1,2) filters
      by (auto simp: latest_step_def candidate_def latest_inv_def split: option.splits if_splits)
    moreover have "candidate a t h lim (sns i) \<Longrightarrow> sn_Time (sns i) \<le> fst st \<and> snd st \<noteq> None"
      using False assms(1) by (auto simp: latest_inv_def candidate_def split: option.splits)
    ultimately show ?thesis using assms(1) by (auto simp: latest_inv_def split: option.splits)
  qed
qed

lemma ForAll_latest:
  assumes "\<forall>i \<in> set order. load i = Ok (sns i)" "latest_inv (candidate a t h lim) sns seen st"
  shows "\<exists>st'. fold_r (\<lambda>i s. latest_step a t h lim i (LoadSnapshot load i) s) order st = Ok st' \<and>
    latest_inv (candidate a t h lim) sns (seen \<union> set order) st'"
  using assms
proof (induction order arbitrary: seen st)
  case Nil
  then show ?case by simp
next
  case (Cons i order)
  have L: "LoadSnapshot load i = Ok ((sns i)\<lparr>sn_id := Some i\<rparr>)" using Cons.prems(1) by (simp add: LoadSnapshot_def)
  obtain st1 where st1: "latest_step a t h lim i (Ok ((sns i)\<lparr>sn_id := Some i\<rparr>)) st = Ok st1"
    by (simp add: latest_step_def)
  have "latest_inv (candidate a t h lim) sns (insert i seen) st1"
    by (rule latest_step_inv [OF Cons.prems(2) st1 refl])
  from Cons.IH [OF _ this] Cons.prems(1) show ?case by (simp add: L st1)
qed

text \<open>A snapshot for concrete evaluations.\<close>

definition toy_sn :: "time \<Rightarrow> string \<Rightarrow> Snapshot" where
  "toy_sn t host =
     \<lparr>sn_Time = t, sn_Parent = None, sn_Tree = None, sn_Paths = [''/home''], sn_Hostname = host, sn_Username = '''',
      sn_UID = 0, sn_GID = 0, sn_Excludes = [], sn_Tags = [], sn_Original = None, sn_id = None\<rparr>"

section \<open>Properties\<close>

text \<open>\<open>AddTags\<close> appends exactly the missing tags and keeps tags without duplicates free of them;
  \<open>RemoveTags\<close> removes one occurrence of each given tag, whatever the order it leaves; both report
  exactly whether they changed the tags, and change nothing else of the snapshot.\<close>

theorem tag_updates:
  "(case AddTags sn add of (sn', changed) \<Rightarrow>
      (\<exists>new. sn' = sn\<lparr>sn_Tags := sn_Tags sn @ new\<rparr> \<and> (changed \<longleftrightarrow> new \<noteq> [])) \<and>
      set (sn_Tags sn') = set (sn_Tags sn) \<union> set add \<and>
      (distinct (sn_Tags sn) \<longrightarrow> distinct (sn_Tags sn'))) \<and>
   (case RemoveTags sn rem of (sn', changed) \<Rightarrow>
      sn' = sn\<lparr>sn_Tags := sn_Tags sn'\<rparr> \<and> mset (sn_Tags sn') = mset (sn_Tags sn) - mset rem \<and>
      (changed \<longleftrightarrow> set rem \<inter> set (sn_Tags sn) \<noteq> {}))"
proof -
  obtain sn1 c1 where a: "AddTags sn add = (sn1, c1)" by fastforce
  obtain sn2 c2 where r: "RemoveTags sn rem = (sn2, c2)" by fastforce
  show ?thesis
    using AddTags_fold [OF a [unfolded AddTags_def]] RemoveTags_fold [OF r [unfolded RemoveTags_def]]
    by (auto simp: a r)
qed

theorem tag_updates_witness:
  "distinct (sn_Tags (fst (AddTags ((toy_sn 5 ''h'')\<lparr>sn_Tags := [''a'', ''b'']\<rparr>) [''b'', ''c'', ''c''])))"
  using tag_updates [of "(toy_sn 5 ''h'')\<lparr>sn_Tags := [''a'', ''b'']\<rparr>" "[''b'', ''c'', ''c'']" "[]"]
  by (auto simp: case_prod_beta)


text \<open>C27: When every snapshot loads, \<open>FindLatestSnapshot\<close> returns, in whatever order the workers
  deliver the snapshots, the ID of one that passes all filters and that no other one that passes them
  is newer than; it fails only if none passes.\<close>

theorem FindLatestSnapshot_newest:
  assumes "\<forall>i \<in> set order. load i = Ok (sns i)" "\<forall>tg \<in> set targets. tg \<noteq> '''' \<and> hd tg = CHR ''/''"
  shows "case FindLatestSnapshot absf load order targets tagLists hostnames limit of
     Ok i \<Rightarrow> i \<in> set order \<and> candidate (map filepath_Clean targets) tagLists hostnames limit (sns i) \<and>
       (\<forall>j \<in> set order. candidate (map filepath_Clean targets) tagLists hostnames limit (sns j) \<longrightarrow>
          sn_Time (sns j) \<le> sn_Time (sns i))
   | Err e \<Rightarrow> \<forall>j \<in> set order. \<not> candidate (map filepath_Clean targets) tagLists hostnames limit (sns j)
   | Panic m \<Rightarrow> False"
proof -
  let ?c = "candidate (map filepath_Clean targets) tagLists hostnames limit"
  have abs: "mapM_r (\<lambda>target.
         if hd (target @ ''x'') = CHR ''/'' then Ok (filepath_Clean target)
         else (case absf target of
                 Ok t \<Rightarrow> Ok (filepath_Clean t)
               | Err e \<Rightarrow> Err (Wrap e ''Abs'')
               | Panic m \<Rightarrow> Panic m)) targets = Ok (map filepath_Clean targets)"
    by (rule mapM_r_Ok) (use assms(2) in simp)
  have "latest_inv ?c sns {} (zero_time, None)" by (simp add: latest_inv_def)
  from ForAll_latest [OF assms(1) this] obtain st
    where st: "ForAllSnapshots load order [] (latest_step (map filepath_Clean targets) tagLists hostnames limit)
        (zero_time, None) = Ok st" and inv: "latest_inv ?c sns (set order) st"
    by (auto simp: ForAllSnapshots_def)
  show ?thesis
    using inv by (cases "snd st") (auto simp: FindLatestSnapshot_def abs st latest_inv_def)
qed

theorem FindLatestSnapshot_newest_witness:
  "\<exists>i. FindLatestSnapshot Ok (\<lambda>i. Ok (toy_sn (if i = [1] then 5 else 3) ''kasimir'')) [[1], [2]] [''/home''] []
      [''kasimir''] None = Ok i \<and> i \<in> {[1], [2]} \<and> 5 \<le> (if i = [1] then 5 else (3::int))"
proof -
  let ?sns = "\<lambda>i. toy_sn (if i = [1] then 5 else 3) ''kasimir''"
  have clean: "filepath_Clean ''/home'' = ''/home''" by code_simp
  have cand: "0 \<le> t \<Longrightarrow> candidate [''/home''] [] [''kasimir''] None (toy_sn t ''kasimir'')" for t
    by (simp add: candidate_def toy_sn_def zero_time_def HasHostname_def HasTagList_def HasPaths_def hasPath_def)
  have tm: "sn_Time (toy_sn t h) = t" for t h by (simp add: toy_sn_def)
  have "case FindLatestSnapshot Ok (\<lambda>i. Ok (?sns i)) [[1], [2]] [''/home''] [] [''kasimir''] None of
      Ok i \<Rightarrow> i \<in> {[1], [2]} \<and> 5 \<le> sn_Time (?sns i) | Err e \<Rightarrow> False | Panic m \<Rightarrow> False"
    using FindLatestSnapshot_newest [where order = "[[1], [2]]" and load = "\<lambda>i. Ok (?sns i)" and sns = ?sns
        and targets = "[''/home'']" and absf = Ok and tagLists = "[]" and hostnames = "[''kasimir'']" and limit = None]
    by (auto simp: clean cand tm split: res.splits)
  then show ?thesis by (auto simp: tm split: res.splits)
qed

end
