(* ===== verification/Policy.thy ===== *)
theory Policy
  imports Snapshots
begin

text \<open>
  \<open>restic/snapshot_policy.go\<close>: which snapshots an expiry policy keeps.

  The calendar (year, month, day, hour and ISO week of an instant in its location, and \<open>AddDate\<close>) is
  that of the time zone data base, a parameter. \<open>time.Duration\<close> is a 64-bit number of nanoseconds.
\<close>

section \<open>Policies\<close>

record calendar =
  cal_Year :: "time \<Rightarrow> int"
  cal_Month :: "time \<Rightarrow> int"
  cal_Day :: "time \<Rightarrow> int"
  cal_Hour :: "time \<Rightarrow> int"
  cal_ISOWeek :: "time \<Rightarrow> int \<times> int"
  cal_AddDate :: "time \<Rightarrow> int \<Rightarrow> int \<Rightarrow> int \<Rightarrow> time"

record ExpirePolicy =
  p_Last :: int
  p_Hourly :: int
  p_Daily :: int
  p_Weekly :: int
  p_Monthly :: int
  p_Yearly :: int
  p_Within :: Duration
  p_WithinHourly :: Duration
  p_WithinDaily :: Duration
  p_WithinWeekly :: Duration
  p_WithinMonthly :: Duration
  p_WithinYearly :: Duration
  p_Tags :: "string list list"

definition policy_String :: "ExpirePolicy \<Rightarrow> string" where
  "policy_String e =
     (let cnt = (\<lambda>n what. if n > 0 then [show_int n @ what] else []);
          win = (\<lambda>d what. if \<not> Duration_Zero d then [what @ Duration_String d] else []);
          keeps = cnt (p_Last e) '' latest'' @ cnt (p_Hourly e) '' hourly'' @ cnt (p_Daily e) '' daily'' @
            cnt (p_Weekly e) '' weekly'' @ cnt (p_Monthly e) '' monthly'' @ cnt (p_Yearly e) '' yearly'';
          keepw = win (p_WithinHourly e) ''hourly snapshots within '' @ win (p_WithinDaily e) ''daily snapshots within '' @
            win (p_WithinWeekly e) ''weekly snapshots within '' @ win (p_WithinMonthly e) ''monthly snapshots within '' @
            win (p_WithinYearly e) ''yearly snapshots within '';
          s0 = (if length keeps > 0 then join_with '', '' keeps @ '' snapshots'' else '''');
          s1 = (if length keepw > 0 then (if s0 \<noteq> '''' then s0 @ '', '' else s0) @ join_with '', '' keepw else s0);
          s2 = (if length (p_Tags e) > 0
                then (if s1 \<noteq> '''' then s1 @ '' and '' else s1) @ ''all snapshots with tags '' @ TagLists_String (p_Tags e)
                else s1);
          s3 = (if \<not> Duration_Zero (p_Within e)
                then (if s2 \<noteq> '''' then s2 @ '' and '' else s2) @ ''all snapshots within '' @
                  Duration_String (p_Within e) @ '' of the newest''
                else s2) in
      ''keep '' @ s3)"

definition policy_Sum :: "ExpirePolicy \<Rightarrow> int" where
  "policy_Sum e = p_Last e + p_Hourly e + p_Daily e + p_Weekly e + p_Monthly e + p_Yearly e"

definition empty_policy :: ExpirePolicy where
  "empty_policy =
     \<lparr>p_Last = 0, p_Hourly = 0, p_Daily = 0, p_Weekly = 0, p_Monthly = 0, p_Yearly = 0, p_Within = zero_Duration,
      p_WithinHourly = zero_Duration, p_WithinDaily = zero_Duration, p_WithinWeekly = zero_Duration,
      p_WithinMonthly = zero_Duration, p_WithinYearly = zero_Duration, p_Tags = []\<rparr>"

definition policy_Empty :: "ExpirePolicy \<Rightarrow> bool" where
  "policy_Empty e = (if length (p_Tags e) \<noteq> 0 then False else e = empty_policy\<lparr>p_Tags := p_Tags e\<rparr>)"

section \<open>Buckers\<close>

definition ymdh :: "calendar \<Rightarrow> time \<Rightarrow> int \<Rightarrow> int" where
  "ymdh c d nr = cal_Year c d * 1000000 + cal_Month c d * 10000 + cal_Day c d * 100 + cal_Hour c d"

definition ymd :: "calendar \<Rightarrow> time \<Rightarrow> int \<Rightarrow> int" where
  "ymd c d nr = cal_Year c d * 10000 + cal_Month c d * 100 + cal_Day c d"

definition yw :: "calendar \<Rightarrow> time \<Rightarrow> int \<Rightarrow> int" where
  "yw c d nr = (case cal_ISOWeek c d of (year, week) \<Rightarrow> year * 100 + week)"

definition ym :: "calendar \<Rightarrow> time \<Rightarrow> int \<Rightarrow> int" where
  "ym c d nr = cal_Year c d * 100 + cal_Month c d"

definition y :: "calendar \<Rightarrow> time \<Rightarrow> int \<Rightarrow> int" where
  "y c d nr = cal_Year c d"

definition always :: "time \<Rightarrow> int \<Rightarrow> int" where
  "always d nr = nr"

definition findLatestTimestamp :: "time \<Rightarrow> Snapshot list \<Rightarrow> time res" where
  "findLatestTimestamp now list =
     (if length list = 0 then Panic ''list of snapshots is empty''
      else Ok (fold (\<lambda>sn latest. if sn_Time sn > latest \<and> sn_Time sn < now then sn_Time sn else latest) list zero_time))"

section \<open>Applying a policy\<close>

record Counters =
  k_Last :: int
  k_Hourly :: int
  k_Daily :: int
  k_Weekly :: int
  k_Monthly :: int
  k_Yearly :: int

record KeepReason =
  kr_Snapshot :: Snapshot
  kr_Matches :: "string list"
  kr_Counters :: Counters

record bucket =
  Count :: int
  bucker :: "time \<Rightarrow> int \<Rightarrow> int"
  b_Last :: int
  b_reason :: string

record bucketWithin =
  Within :: Duration
  w_bucker :: "time \<Rightarrow> int \<Rightarrow> int"
  w_Last :: int
  w_reason :: string

definition policy_buckets :: "calendar \<Rightarrow> ExpirePolicy \<Rightarrow> bucket list" where
  "policy_buckets c p =
     [\<lparr>Count = p_Last p, bucker = always, b_Last = - 1, b_reason = ''last snapshot''\<rparr>,
      \<lparr>Count = p_Hourly p, bucker = ymdh c, b_Last = - 1, b_reason = ''hourly snapshot''\<rparr>,
      \<lparr>Count = p_Daily p, bucker = ymd c, b_Last = - 1, b_reason = ''daily snapshot''\<rparr>,
      \<lparr>Count = p_Weekly p, bucker = yw c, b_Last = - 1, b_reason = ''weekly snapshot''\<rparr>,
      \<lparr>Count = p_Monthly p, bucker = ym c, b_Last = - 1, b_reason = ''monthly snapshot''\<rparr>,
      \<lparr>Count = p_Yearly p, bucker = y c, b_Last = - 1, b_reason = ''yearly snapshot''\<rparr>]"

definition policy_within :: "calendar \<Rightarrow> ExpirePolicy \<Rightarrow> bucketWithin list" where
  "policy_within c p =
     [\<lparr>Within = p_WithinHourly p, w_bucker = ymdh c, w_Last = - 1, w_reason = ''hourly within''\<rparr>,
      \<lparr>Within = p_WithinDaily p, w_bucker = ymd c, w_Last = - 1, w_reason = ''daily within''\<rparr>,
      \<lparr>Within = p_WithinWeekly p, w_bucker = yw c, w_Last = - 1, w_reason = ''weekly within''\<rparr>,
      \<lparr>Within = p_WithinMonthly p, w_bucker = ym c, w_Last = - 1, w_reason = ''monthly within''\<rparr>,
      \<lparr>Within = p_WithinYearly p, w_bucker = y c, w_Last = - 1, w_reason = ''yearly within''\<rparr>]"

text \<open>\<open>latest.AddDate(-years, -months, -days).Add(time.Hour * time.Duration(-hours))\<close>.\<close>

definition within_start :: "calendar \<Rightarrow> time \<Rightarrow> Duration \<Rightarrow> time" where
  "within_start c latest w =
     cal_AddDate c latest (- Years w) (- Months w) (- Days w) +
     sint (word_of_int (3600000000000 * - Hours w) :: 64 word)"

text \<open>One snapshot against the counted buckets, which the loop updates by index.\<close>

definition bucket_hit :: "time \<Rightarrow> int \<Rightarrow> bucket \<Rightarrow> bool" where
  "bucket_hit t nr b \<longleftrightarrow> Count b > 0 \<and> bucker b t nr \<noteq> b_Last b"

definition bucket_update :: "time \<Rightarrow> int \<Rightarrow> bucket \<Rightarrow> bucket" where
  "bucket_update t nr b =
     (if bucket_hit t nr b then b\<lparr>b_Last := bucker b t nr, Count := Count b - 1\<rparr> else b)"

definition within_hit :: "calendar \<Rightarrow> time \<Rightarrow> time \<Rightarrow> int \<Rightarrow> bucketWithin \<Rightarrow> bool" where
  "within_hit c latest t nr b \<longleftrightarrow>
     \<not> Duration_Zero (Within b) \<and> t > within_start c latest (Within b) \<and> w_bucker b t nr \<noteq> w_Last b"

definition within_update :: "calendar \<Rightarrow> time \<Rightarrow> time \<Rightarrow> int \<Rightarrow> bucketWithin \<Rightarrow> bucketWithin" where
  "within_update c latest t nr b = (if within_hit c latest t nr b then b\<lparr>w_Last := w_bucker b t nr\<rparr> else b)"

definition keep_reasons ::
  "calendar \<Rightarrow> ExpirePolicy \<Rightarrow> time \<Rightarrow> int \<Rightarrow> Snapshot \<Rightarrow> bucket list \<Rightarrow> bucketWithin list \<Rightarrow> string list" where
  "keep_reasons c p latest nr cur bs ws =
     map (\<lambda>l. ''has tags '' @ TagList_String l) (filter (HasTags cur) (p_Tags p)) @
     (if \<not> Duration_Zero (p_Within p) \<and> sn_Time cur > within_start c latest (p_Within p)
      then [''within '' @ Duration_String (p_Within p)] else []) @
     map b_reason (filter (bucket_hit (sn_Time cur) nr) bs) @
     map (\<lambda>b. w_reason b @ '' '' @ Duration_String (Within b)) (filter (within_hit c latest (sn_Time cur) nr) ws)"

definition bucket_counters :: "bucket list \<Rightarrow> Counters" where
  "bucket_counters bs =
     \<lparr>k_Last = Count (bs ! 0), k_Hourly = Count (bs ! 1), k_Daily = Count (bs ! 2), k_Weekly = Count (bs ! 3),
      k_Monthly = Count (bs ! 4), k_Yearly = Count (bs ! 5)\<rparr>"

text \<open>The loop over the snapshots; \<open>keepSnap\<close> is set exactly where a reason is appended.\<close>

primrec policy_loop ::
  "calendar \<Rightarrow> ExpirePolicy \<Rightarrow> time \<Rightarrow> int \<Rightarrow> Snapshot list \<Rightarrow> bucket list \<Rightarrow> bucketWithin list
    \<Rightarrow> Snapshot list \<times> Snapshot list \<times> KeepReason list \<Rightarrow> Snapshot list \<times> Snapshot list \<times> KeepReason list" where
  "policy_loop c p latest nr [] bs ws acc = acc"
| "policy_loop c p latest nr (cur # rest) bs ws acc =
     (let keepSnapReasons = keep_reasons c p latest nr cur bs ws;
          bs' = map (bucket_update (sn_Time cur) nr) bs;
          ws' = map (within_update c latest (sn_Time cur) nr) ws in
      policy_loop c p latest (nr + 1) rest bs' ws'
        (case acc of (keep, remove, reasons) \<Rightarrow>
           if keepSnapReasons \<noteq> [] then
             (keep @ [cur], remove,
              reasons @ [\<lparr>kr_Snapshot = cur, kr_Matches = keepSnapReasons, kr_Counters = bucket_counters bs'\<rparr>])
           else (keep, remove @ [cur], reasons)))"

definition ApplyPolicy ::
  "calendar \<Rightarrow> time \<Rightarrow> Snapshot list \<Rightarrow> ExpirePolicy \<Rightarrow> (Snapshot list \<times> Snapshot list \<times> KeepReason list) res" where
  "ApplyPolicy c now list0 p =
     (let list = go_sort Snapshots_Less list0 in
      if policy_Empty p then
        Ok (list, [],
          map (\<lambda>sn. \<lparr>kr_Snapshot = sn, kr_Matches = [''policy is empty''],
                    kr_Counters = \<lparr>k_Last = 0, k_Hourly = 0, k_Daily = 0, k_Weekly = 0, k_Monthly = 0, k_Yearly = 0\<rparr>\<rparr>)
            list)
      else if length list = 0 then Ok (list, [], [])
      else
        bind_r (findLatestTimestamp now list) (\<lambda>latest.
          Ok (policy_loop c p latest 0 list (policy_buckets c p) (policy_within c p) ([], [], []))))"

section \<open>Lemmas\<close>

lemma policy_loop_acc:
  "policy_loop c p latest nr xs bs ws (k, r, s) =
    (case policy_loop c p latest nr xs bs ws ([], [], []) of (K, R, S) \<Rightarrow> (k @ K, r @ R, s @ S))"
proof (induction xs arbitrary: nr bs ws k r s)
  case Nil
  show ?case by simp
next
  case (Cons x xs)
  obtain K R S where rec: "policy_loop c p latest (nr + 1) xs (map (bucket_update (sn_Time x) nr) bs)
      (map (within_update c latest (sn_Time x) nr) ws) ([], [], []) = (K, R, S)"
    using prod_cases3 by blast
  have "policy_loop c p latest (nr + 1) xs (map (bucket_update (sn_Time x) nr) bs)
      (map (within_update c latest (sn_Time x) nr) ws) (k', r', s') = (k' @ K, r' @ R, s' @ S)" for k' r' s'
    by (subst Cons.IH) (simp add: rec)
  then show ?case by (simp add: Let_def)
qed

lemma policy_loop_Cons:
  "policy_loop c p latest nr (cur # rest) bs ws ([], [], []) =
    (let ms = keep_reasons c p latest nr cur bs ws; bs' = map (bucket_update (sn_Time cur) nr) bs in
     case policy_loop c p latest (nr + 1) rest bs' (map (within_update c latest (sn_Time cur) nr) ws) ([], [], []) of
       (K, R, S) \<Rightarrow>
         if ms \<noteq> [] then (cur # K, R, \<lparr>kr_Snapshot = cur, kr_Matches = ms, kr_Counters = bucket_counters bs'\<rparr> # S)
         else (K, cur # R, S))"
proof -
  obtain K R S where rec: "policy_loop c p latest (nr + 1) rest (map (bucket_update (sn_Time cur) nr) bs)
      (map (within_update c latest (sn_Time cur) nr) ws) ([], [], []) = (K, R, S)"
    using prod_cases3 by blast
  have "policy_loop c p latest (nr + 1) rest (map (bucket_update (sn_Time cur) nr) bs)
      (map (within_update c latest (sn_Time cur) nr) ws) (k, r, s) = (k @ K, r @ R, s @ S)" for k r s
    by (subst policy_loop_acc) (simp add: rec)
  then show ?thesis by (simp add: Let_def)
qed

lemma policy_loop_partition:
  assumes "policy_loop c p latest nr xs bs ws ([], [], []) = (keep, remove, reasons)"
  shows "mset keep + mset remove = mset xs \<and> map kr_Snapshot reasons = keep \<and>
    (\<forall>k \<in> set reasons. kr_Matches k \<noteq> [])"
  using assms
proof (induction xs arbitrary: nr bs ws keep remove reasons)
  case Nil
  then show ?case by simp
next
  case (Cons x xs)
  obtain K R S where rec: "policy_loop c p latest (nr + 1) xs (map (bucket_update (sn_Time x) nr) bs)
      (map (within_update c latest (sn_Time x) nr) ws) ([], [], []) = (K, R, S)"
    using prod_cases3 by blast
  from Cons.IH [OF rec] Cons.prems show ?case
    unfolding policy_loop_Cons Let_def rec by (auto split: if_splits)
qed

lemma policy_loop_sorted:
  assumes "policy_loop c p latest nr xs bs ws ([], [], []) = (keep, remove, reasons)" "sorted_wrt Q xs"
  shows "sorted_wrt Q keep \<and> sorted_wrt Q remove"
  using assms
proof (induction xs arbitrary: nr bs ws keep remove reasons)
  case Nil
  then show ?case by simp
next
  case (Cons x xs)
  obtain K R S where rec: "policy_loop c p latest (nr + 1) xs (map (bucket_update (sn_Time x) nr) bs)
      (map (within_update c latest (sn_Time x) nr) ws) ([], [], []) = (K, R, S)"
    using prod_cases3 by blast
  have "mset K + mset R = mset xs" using policy_loop_partition [OF rec] by simp
  then have "set K \<subseteq> set xs" "set R \<subseteq> set xs" by (metis Un_upper1 Un_upper2 set_mset_mset set_mset_union)+
  then have "\<forall>a \<in> set K. Q x a" "\<forall>a \<in> set R. Q x a" using Cons.prems(2) by (simp_all add: subset_iff)
  with Cons.IH [OF rec] Cons.prems show ?case
    unfolding policy_loop_Cons Let_def rec by (auto split: if_splits)
qed

text \<open>The snapshots at which a bucket's value changes, among those that satisfy \<open>P\<close>: the newest of each
  run of equal values.\<close>

primrec heads :: "(time \<Rightarrow> bool) \<Rightarrow> (time \<Rightarrow> int \<Rightarrow> int) \<Rightarrow> int \<Rightarrow> int \<Rightarrow> Snapshot list \<Rightarrow> Snapshot list" where
  "heads P f lst nr [] = []"
| "heads P f lst nr (x # xs) =
     (if P (sn_Time x) \<and> f (sn_Time x) nr \<noteq> lst then x # heads P f (f (sn_Time x) nr) (nr + 1) xs
      else heads P f lst (nr + 1) xs)"

definition bucket_keeps :: "bucket \<Rightarrow> int \<Rightarrow> Snapshot list \<Rightarrow> Snapshot set" where
  "bucket_keeps b nr xs = set (take (nat (Count b)) (heads (\<lambda>t. True) (bucker b) (b_Last b) nr xs))"

definition within_keeps :: "calendar \<Rightarrow> time \<Rightarrow> bucketWithin \<Rightarrow> int \<Rightarrow> Snapshot list \<Rightarrow> Snapshot set" where
  "within_keeps c latest w nr xs =
     (if Duration_Zero (Within w) then {}
      else set (heads (\<lambda>t. t > within_start c latest (Within w)) (w_bucker w) (w_Last w) nr xs))"

definition kept_always :: "calendar \<Rightarrow> ExpirePolicy \<Rightarrow> time \<Rightarrow> Snapshot \<Rightarrow> bool" where
  "kept_always c p latest sn \<longleftrightarrow>
     (\<exists>l \<in> set (p_Tags p). HasTags sn l) \<or>
     (\<not> Duration_Zero (p_Within p) \<and> sn_Time sn > within_start c latest (p_Within p))"

lemma bucket_keeps_Cons:
  "bucket_keeps b nr (x # xs) =
    (if bucket_hit (sn_Time x) nr b then {x} else {}) \<union> bucket_keeps (bucket_update (sn_Time x) nr b) (nr + 1) xs"
proof (cases "Count b > 0")
  case True
  then have "nat (Count b) = Suc (nat (Count b - 1))" by simp
  with True show ?thesis by (simp add: bucket_keeps_def bucket_update_def bucket_hit_def)
qed (simp add: bucket_keeps_def bucket_update_def bucket_hit_def)

lemma within_keeps_Cons:
  "within_keeps c latest w nr (x # xs) =
    (if within_hit c latest (sn_Time x) nr w then {x} else {}) \<union>
    within_keeps c latest (within_update c latest (sn_Time x) nr w) (nr + 1) xs"
  by (simp add: within_keeps_def within_update_def within_hit_def)

lemma keep_reasons_empty:
  "keep_reasons c p latest nr cur bs ws \<noteq> [] \<longleftrightarrow>
    kept_always c p latest cur \<or> (\<exists>b \<in> set bs. bucket_hit (sn_Time cur) nr b) \<or>
    (\<exists>w \<in> set ws. within_hit c latest (sn_Time cur) nr w)"
  by (auto simp: keep_reasons_def kept_always_def filter_empty_conv)

lemma policy_loop_keeps:
  assumes "policy_loop c p latest nr xs bs ws ([], [], []) = (keep, remove, reasons)"
  shows "set keep = {sn \<in> set xs. kept_always c p latest sn} \<union> (\<Union>b \<in> set bs. bucket_keeps b nr xs) \<union>
    (\<Union>w \<in> set ws. within_keeps c latest w nr xs)"
  using assms
proof (induction xs arbitrary: nr bs ws keep remove reasons)
  case Nil
  then show ?case by (auto simp: bucket_keeps_def within_keeps_def)
next
  case (Cons x xs)
  let ?bs = "map (bucket_update (sn_Time x) nr) bs" and ?ws = "map (within_update c latest (sn_Time x) nr) ws"
  obtain K R S where rec: "policy_loop c p latest (nr + 1) xs ?bs ?ws ([], [], []) = (K, R, S)"
    using prod_cases3 by blast
  let ?A = "{sn. sn = x \<and> keep_reasons c p latest nr x bs ws \<noteq> []}"
  have "set keep = ?A \<union> set K"
    using Cons.prems unfolding policy_loop_Cons Let_def rec by (auto split: if_splits)
  moreover have "(\<Union>b \<in> set bs. bucket_keeps b nr (x # xs)) =
      {sn. sn = x \<and> (\<exists>b \<in> set bs. bucket_hit (sn_Time x) nr b)} \<union> (\<Union>b \<in> set ?bs. bucket_keeps b (nr + 1) xs)"
    unfolding bucket_keeps_Cons by (auto split: if_splits)
  moreover have "(\<Union>w \<in> set ws. within_keeps c latest w nr (x # xs)) =
      {sn. sn = x \<and> (\<exists>w \<in> set ws. within_hit c latest (sn_Time x) nr w)} \<union>
      (\<Union>w \<in> set ?ws. within_keeps c latest w (nr + 1) xs)"
    unfolding within_keeps_Cons by (auto split: if_splits)
  moreover have "{sn \<in> set (x # xs). kept_always c p latest sn} =
      {sn. sn = x \<and> kept_always c p latest x} \<union> {sn \<in> set xs. kept_always c p latest sn}"
    by auto
  moreover have "?A = {sn. sn = x \<and> kept_always c p latest x} \<union>
      {sn. sn = x \<and> (\<exists>b \<in> set bs. bucket_hit (sn_Time x) nr b)} \<union>
      {sn. sn = x \<and> (\<exists>w \<in> set ws. within_hit c latest (sn_Time x) nr w)}"
    by (auto simp: keep_reasons_empty)
  ultimately show ?case by (simp only: Cons.IH [OF rec] Un_ac)
qed

text \<open>Without tags and durations, every kept snapshot uses up one count.\<close>

lemma bucket_update_Count: "nat (Count (bucket_update t nr b)) + (if bucket_hit t nr b then 1 else 0) = nat (Count b)"
  by (cases "Count b > 0") (auto simp: bucket_update_def bucket_hit_def)

lemma policy_loop_bound:
  assumes "policy_loop c p latest nr xs bs ws ([], [], []) = (keep, remove, reasons)"
    and "p_Tags p = []" "Duration_Zero (p_Within p)" "\<forall>w \<in> set ws. Duration_Zero (Within w)"
  shows "length keep \<le> sum_list (map (\<lambda>b. nat (Count b)) bs)"
  using assms(1,4)
proof (induction xs arbitrary: nr bs ws keep remove reasons)
  case Nil
  then show ?case by simp
next
  case (Cons x xs)
  let ?bs = "map (bucket_update (sn_Time x) nr) bs" and ?ws = "map (within_update c latest (sn_Time x) nr) ws"
  obtain K R S where rec: "policy_loop c p latest (nr + 1) xs ?bs ?ws ([], [], []) = (K, R, S)"
    using prod_cases3 by blast
  have ws: "\<forall>w \<in> set ?ws. Duration_Zero (Within w)" "\<not> (\<exists>w \<in> set ws. within_hit c latest (sn_Time x) nr w)"
    using Cons.prems(2) by (auto simp: within_update_def within_hit_def)
  have "sum_list (map (\<lambda>b. nat (Count b)) ?bs) + (if \<exists>b \<in> set bs. bucket_hit (sn_Time x) nr b then 1 else 0) \<le>
      sum_list (map (\<lambda>b. nat (Count b)) bs)"
  proof (induction bs)
    case (Cons b bs)
    then show ?case using bucket_update_Count [of "sn_Time x" nr b] by (auto split: if_splits)
  qed simp
  moreover have "keep_reasons c p latest nr x bs ws \<noteq> [] \<longleftrightarrow> (\<exists>b \<in> set bs. bucket_hit (sn_Time x) nr b)"
    using ws(2) assms(2,3) by (auto simp: keep_reasons_empty kept_always_def)
  ultimately show ?case
    using Cons.IH [OF rec ws(1)] Cons.prems(1) unfolding policy_loop_Cons Let_def rec by (auto split: if_splits)
qed

lemma strict_weak_Snapshots_Less: "strict_weak Snapshots_Less"
  by (auto simp: strict_weak_def Snapshots_Less_def)

lemma Duration_Zero_iff: "Duration_Zero d \<longleftrightarrow> d = zero_Duration"
  by (cases d) (auto simp: Duration_Zero_def zero_Duration_def)

lemma ApplyPolicy_cases:
  obtains "policy_Empty p" "ApplyPolicy c now sns p = Ok (go_sort Snapshots_Less sns, [],
      map (\<lambda>sn. \<lparr>kr_Snapshot = sn, kr_Matches = [''policy is empty''],
                 kr_Counters = \<lparr>k_Last = 0, k_Hourly = 0, k_Daily = 0, k_Weekly = 0, k_Monthly = 0, k_Yearly = 0\<rparr>\<rparr>)
        (go_sort Snapshots_Less sns))"
  | latest keep remove reasons where "\<not> policy_Empty p" "ApplyPolicy c now sns p = Ok (keep, remove, reasons)"
      "policy_loop c p latest 0 (go_sort Snapshots_Less sns) (policy_buckets c p) (policy_within c p) ([], [], []) =
        (keep, remove, reasons)"
      "sns \<noteq> [] \<Longrightarrow> findLatestTimestamp now (go_sort Snapshots_Less sns) = Ok latest"
proof (cases "policy_Empty p")
  case True
  then show thesis by (intro that(1)) (simp_all add: ApplyPolicy_def Let_def)
next
  case False
  show thesis
  proof (cases "sns = []")
    case True
    with False show thesis by (intro that(2) [of "[]" "[]" "[]" 0]) (simp_all add: ApplyPolicy_def Let_def)
  next
    case ne: False
    then obtain latest where l: "findLatestTimestamp now (go_sort Snapshots_Less sns) = Ok latest"
      by (auto simp: findLatestTimestamp_def)
    obtain keep remove reasons where k: "policy_loop c p latest 0 (go_sort Snapshots_Less sns) (policy_buckets c p)
        (policy_within c p) ([], [], []) = (keep, remove, reasons)"
      using prod_cases3 by blast
    have "go_sort Snapshots_Less sns \<noteq> []" using ne by (metis length_0_conv length_go_sort)
    with False ne l k show thesis by (intro that(2) [of keep remove reasons latest]) (simp_all add: ApplyPolicy_def Let_def)
  qed
qed

section \<open>Properties\<close>

text \<open>C26: \<open>ApplyPolicy\<close> never panics and splits the snapshots: every snapshot is, as often as it is
  given, either kept or removed, both lists are ordered from the newest to the oldest, and the
  reasons are those of the kept snapshots in the same order, at least one for each.\<close>

theorem ApplyPolicy_partition:
  "\<exists>keep remove reasons. ApplyPolicy c now sns p = Ok (keep, remove, reasons) \<and>
     mset keep + mset remove = mset sns \<and>
     sorted_wrt (\<lambda>a b. sn_Time a \<ge> sn_Time b) keep \<and> sorted_wrt (\<lambda>a b. sn_Time a \<ge> sn_Time b) remove \<and>
     map kr_Snapshot reasons = keep \<and> list_all (\<lambda>k. kr_Matches k \<noteq> []) reasons"
proof -
  have s: "sorted_wrt (\<lambda>a b. sn_Time a \<ge> sn_Time b) (go_sort Snapshots_Less sns)"
    using go_sort_sorted [OF strict_weak_Snapshots_Less, of sns] by (simp add: Snapshots_Less_def not_less)
  show ?thesis
  proof (cases rule: ApplyPolicy_cases [of p c now sns])
    case 1
    then show ?thesis using s by (auto simp: comp_def list_all_iff)
  next
    case (2 latest keep remove reasons)
    then show ?thesis
      using policy_loop_partition [OF 2(3)] policy_loop_sorted [OF 2(3) s] by (auto simp: list_all_iff)
  qed
qed

text \<open>C25: Which snapshots a non-empty policy keeps, exactly: those with the tags of one of the tag
  lists or within the duration of the latest, and for each of the six counted buckets the newest
  snapshot of each of the first runs of equal hours, days, weeks, months or years, as many as the
  count allows, and for each of the five durations those of the runs within it.\<close>

theorem ApplyPolicy_keeps:
  assumes "ApplyPolicy c now sns p = Ok (keep, remove, reasons)" "p \<noteq> empty_policy" "sns \<noteq> []"
  shows "\<exists>latest. findLatestTimestamp now (go_sort Snapshots_Less sns) = Ok latest \<and>
    set keep = {sn \<in> set sns. kept_always c p latest sn} \<union>
      (\<Union>b \<in> set (policy_buckets c p). bucket_keeps b 0 (go_sort Snapshots_Less sns)) \<union>
      (\<Union>w \<in> set (policy_within c p). within_keeps c latest w 0 (go_sort Snapshots_Less sns))"
proof (cases rule: ApplyPolicy_cases [of p c now sns])
  case 1
  from 1(1) have "p = empty_policy" by (auto simp: policy_Empty_def empty_policy_def split: if_splits)
  with assms(2) show ?thesis by simp
next
  case (2 latest keep' remove' reasons')
  then show ?thesis using assms policy_loop_keeps [OF 2(3)] by auto
qed

text \<open>A policy of counts only, none of them negative, keeps at most \<open>Sum\<close> snapshots.\<close>

theorem ApplyPolicy_Sum:
  assumes "ApplyPolicy c now sns p = Ok (keep, remove, reasons)" "p \<noteq> empty_policy" "p_Tags p = []"
    and "\<forall>d \<in> set [p_Within p, p_WithinHourly p, p_WithinDaily p, p_WithinWeekly p, p_WithinMonthly p, p_WithinYearly p].
      Duration_Zero d"
    and "\<forall>n \<in> set [p_Last p, p_Hourly p, p_Daily p, p_Weekly p, p_Monthly p, p_Yearly p]. n \<ge> 0"
  shows "int (length keep) \<le> policy_Sum p"
proof (cases rule: ApplyPolicy_cases [of p c now sns])
  case 1
  from 1(1) have "p = empty_policy" by (auto simp: policy_Empty_def empty_policy_def split: if_splits)
  with assms(2) show ?thesis by simp
next
  case (2 latest keep' remove' reasons')
  have "length keep \<le> sum_list (map (\<lambda>b. nat (Count b)) (policy_buckets c p))"
    using policy_loop_bound [OF 2(3) assms(3)] assms(1,4) 2(2) by (simp add: policy_within_def)
  then show ?thesis using assms(5) by (simp add: policy_buckets_def policy_Sum_def) linarith
qed

text \<open>A calendar of years, months and days of equal lengths, for concrete evaluations.\<close>

definition toy_calendar :: calendar where
  "toy_calendar =
     \<lparr>cal_Year = (\<lambda>t. t div 1000), cal_Month = (\<lambda>t. t div 100 mod 10), cal_Day = (\<lambda>t. t div 10 mod 10),
      cal_Hour = (\<lambda>t. t mod 10), cal_ISOWeek = (\<lambda>t. (t div 1000, t div 50)),
      cal_AddDate = (\<lambda>t ys ms ds. t + 1000 * ys + 100 * ms + 10 * ds)\<rparr>"

theorem ApplyPolicy_keeps_witness:
  "\<exists>keep remove reasons. ApplyPolicy toy_calendar 9000 [toy_sn 1005 ''h'', toy_sn 1012 ''h'', toy_sn 1017 ''h'']
      (empty_policy\<lparr>p_Daily := 2\<rparr>) = Ok (keep, remove, reasons) \<and> set keep = {toy_sn 1017 ''h'', toy_sn 1005 ''h''}"
proof -
  let ?sns = "[toy_sn 1005 ''h'', toy_sn 1012 ''h'', toy_sn 1017 ''h'']" and ?p = "empty_policy\<lparr>p_Daily := 2\<rparr>"
  obtain keep remove reasons where k: "ApplyPolicy toy_calendar 9000 ?sns ?p = Ok (keep, remove, reasons)"
    using ApplyPolicy_cases [of ?p toy_calendar 9000 ?sns] by metis
  have s: "go_sort Snapshots_Less ?sns = [toy_sn 1017 ''h'', toy_sn 1012 ''h'', toy_sn 1005 ''h'']"
    by (simp add: Snapshots_Less_def toy_sn_def)
  have "kept_always toy_calendar ?p latest sn = False" for latest sn
    by (simp add: kept_always_def empty_policy_def Duration_Zero_iff)
  moreover have "within_keeps toy_calendar latest w 0 xs = {}" if "w \<in> set (policy_within toy_calendar ?p)" for latest w xs
    using that by (auto simp: within_keeps_def policy_within_def empty_policy_def Duration_Zero_iff)
  moreover have "(\<Union>b \<in> set (policy_buckets toy_calendar ?p). bucket_keeps b 0 (go_sort Snapshots_Less ?sns)) =
      {toy_sn 1017 ''h'', toy_sn 1005 ''h''}"
    unfolding s by (simp add: policy_buckets_def bucket_keeps_def empty_policy_def toy_calendar_def ymd_def toy_sn_def numeral_2_eq_2)
  moreover have "?p \<noteq> empty_policy" by (simp add: empty_policy_def)
  ultimately have "set keep = {toy_sn 1017 ''h'', toy_sn 1005 ''h''}"
    using ApplyPolicy_keeps [OF k] by auto
  with k show ?thesis by blast
qed

theorem ApplyPolicy_Sum_witness:
  "\<exists>keep remove reasons. ApplyPolicy toy_calendar 9000 [toy_sn 1005 ''h'', toy_sn 1012 ''h'', toy_sn 1017 ''h'']
      (empty_policy\<lparr>p_Daily := 2\<rparr>) = Ok (keep, remove, reasons) \<and> length keep \<le> 2"
proof -
  let ?sns = "[toy_sn 1005 ''h'', toy_sn 1012 ''h'', toy_sn 1017 ''h'']" and ?p = "empty_policy\<lparr>p_Daily := 2\<rparr>"
  obtain keep remove reasons where k: "ApplyPolicy toy_calendar 9000 ?sns ?p = Ok (keep, remove, reasons)"
    using ApplyPolicy_cases [of ?p toy_calendar 9000 ?sns] by metis
  have "int (length keep) \<le> policy_Sum ?p"
    by (rule ApplyPolicy_Sum [OF k]) (simp_all add: empty_policy_def Duration_Zero_iff)
  with k show ?thesis by (simp add: policy_Sum_def empty_policy_def)
qed

end
