(* ===== verification/Backends.thy ===== *)
theory Backends
  imports Ids Blobs IO "HOL-Library.Char_ord" "HOL-Library.List_Lexorder"
begin

text \<open>
  File handles (\<open>restic/file.go\<close>), the memory backend (\<open>backend/mem/mem_backend.go\<close>), the dry-run
  backend (\<open>backend/dryrun/dry_backend.go\<close>), reading from a backend (\<open>restic/readerat.go\<close>,
  \<open>backend/utils.go\<close>), the readers that are saved (\<open>restic/rewind_reader.go\<close>) and the search for names
  (\<open>restic/backend_find.go\<close>).

  A backend method takes what \<open>ctx.Err()\<close> returns during the call as its first argument. The callback of
  \<open>Load\<close> reads all that the reader offers, so \<open>Load\<close> returns these bytes. The entries of the memory
  backend are a list without duplicate handles, in the order in which a \<open>range\<close> over the map visits them. The
  content hash of a backend (MD5 for the memory backend) is the parameter \<open>hasher\<close>, \<open>None\<close> for a backend without one.
\<close>

section \<open>Handles (\<open>file.go\<close>)\<close>

type_synonym FileType = string

abbreviation PackFile :: FileType where "PackFile \<equiv> ''data''"
abbreviation KeyFile :: FileType where "KeyFile \<equiv> ''key''"
abbreviation LockFile :: FileType where "LockFile \<equiv> ''lock''"
abbreviation SnapshotFile :: FileType where "SnapshotFile \<equiv> ''snapshot''"
abbreviation IndexFile :: FileType where "IndexFile \<equiv> ''index''"
abbreviation ConfigFile :: FileType where "ConfigFile \<equiv> ''config''"

record Handle =
  h_Type :: FileType
  h_ContainedBlobType :: BlobType
  h_Name :: string

definition Handle_String :: "Handle \<Rightarrow> string" where
  "Handle_String h =
     (let name = (if length (h_Name h) > 10 then take 10 (h_Name h) else h_Name h) in
      ''<'' @ h_Type h @ ''/'' @ name @ ''>'')"

definition Handle_Valid :: "Handle \<Rightarrow> error option" where
  "Handle_Valid h =
     (if h_Type h = '''' then Some (Errorf ''type is empty'')
      else if h_Type h \<notin> set [PackFile, KeyFile, LockFile, SnapshotFile, IndexFile, ConfigFile]
        then Some (Errorf ''invalid Type %q'')
      else if h_Type h = ConfigFile then None
      else if h_Name h = '''' then Some (Errorf ''invalid Name'')
      else None)"

section \<open>Readers (\<open>rewind_reader.go\<close>)\<close>

record RewindReader =
  rr_data :: bytes
  rr_Len :: nat
  rr_hash :: "bytes option"

definition NewByteReader :: "bytes \<Rightarrow> (bytes \<Rightarrow> bytes) option \<Rightarrow> RewindReader" where
  "NewByteReader buf hasher = \<lparr>rr_data = buf, rr_Len = length buf, rr_hash = map_option (\<lambda>h. h buf) hasher\<rparr>"

text \<open>The length is the position after seeking to the end of the file; \<open>seekerr\<close> are the errors of the
  two seeks.\<close>

definition NewFileReader :: "error option \<times> error option \<Rightarrow> bytes \<Rightarrow> bytes option \<Rightarrow> RewindReader res" where
  "NewFileReader seekerr f hash =
     (case seekerr of
        (Some e, _) \<Rightarrow> Err (Wrap e ''Seek'')
      | (None, Some e) \<Rightarrow> Err (Wrap e ''Seek'')
      | (None, None) \<Rightarrow> Ok \<lparr>rr_data = f, rr_Len = length f, rr_hash = hash\<rparr>)"

section \<open>The memory backend\<close>

type_synonym memMap = "(Handle \<times> bytes) list"

record FileInfo =
  fi_Name :: string
  fi_Size :: nat

abbreviation errNotFound :: error where "errNotFound \<equiv> Errorf ''not found''"

definition mem_New :: memMap where
  "mem_New = []"

definition mem_key :: "Handle \<Rightarrow> Handle" where
  "mem_key h =
     (let h1 = h\<lparr>h_ContainedBlobType := InvalidBlob\<rparr> in
      if h_Type h1 = ConfigFile then h1\<lparr>h_Name := ''''\<rparr> else h1)"

definition mem_Test :: "error option \<Rightarrow> memMap \<Rightarrow> Handle \<Rightarrow> bool \<times> error option" where
  "mem_Test cerr be h = (map_of be h \<noteq> None, cerr)"

definition mem_IsNotExist :: "error \<Rightarrow> bool" where
  "mem_IsNotExist err = (Cause err = errNotFound)"

definition mem_Save ::
  "(bytes \<Rightarrow> bytes) \<Rightarrow> error option \<Rightarrow> memMap \<Rightarrow> Handle \<Rightarrow> RewindReader \<Rightarrow> memMap \<times> error option" where
  "mem_Save md5 cerr be h rd =
     (case Handle_Valid h of
        Some err \<Rightarrow> (be, Some (PermanentError err))
      | None \<Rightarrow>
          (let k = mem_key h in
           if map_of be k \<noteq> None then (be, Some (Errorf ''file already exists''))
           else if length (rr_data rd) \<noteq> rr_Len rd
             then (be, Some (Errorf ''wrote %d bytes instead of the expected %d bytes''))
           else if md5 (rr_data rd) \<noteq> (case rr_hash rd of None \<Rightarrow> [] | Some b \<Rightarrow> b)
             then (be, Some (Errorf ''invalid file hash or content, got %s expected %s''))
           else (be @ [(k, rr_data rd)], cerr)))"

definition mem_openReader :: "error option \<Rightarrow> memMap \<Rightarrow> Handle \<Rightarrow> nat \<Rightarrow> int \<Rightarrow> bytes res" where
  "mem_openReader cerr be h len off =
     (case Handle_Valid h of
        Some err \<Rightarrow> Err (PermanentError err)
      | None \<Rightarrow>
          if off < 0 then Err (Errorf ''offset is negative'')
          else
            (case map_of be (mem_key h) of
               None \<Rightarrow> Err errNotFound
             | Some buf \<Rightarrow>
                 if off > int (length buf) then Err (Errorf ''offset beyond end of file'')
                 else
                   (let buf1 = drop (nat off) buf;
                        buf2 = (if len > 0 \<and> length buf1 > len then take len buf1 else buf1) in
                    (case cerr of None \<Rightarrow> Ok buf2 | Some e \<Rightarrow> Err e))))"

text \<open>\<open>DefaultLoad\<close> runs the callback on the opened reader; closing a \<open>NopCloser\<close> does not fail.\<close>

definition DefaultLoad :: "(Handle \<Rightarrow> nat \<Rightarrow> int \<Rightarrow> bytes res) \<Rightarrow> (bytes \<Rightarrow> 'a res) \<Rightarrow> Handle \<Rightarrow> nat \<Rightarrow> int \<Rightarrow> 'a res" where
  "DefaultLoad openReader fn h len off = bind_r (openReader h len off) fn"

definition mem_Load :: "error option \<Rightarrow> memMap \<Rightarrow> (bytes \<Rightarrow> 'a res) \<Rightarrow> Handle \<Rightarrow> nat \<Rightarrow> int \<Rightarrow> 'a res" where
  "mem_Load cerr be fn h len off = DefaultLoad (mem_openReader cerr be) fn h len off"

definition mem_Stat :: "error option \<Rightarrow> memMap \<Rightarrow> Handle \<Rightarrow> FileInfo res" where
  "mem_Stat cerr be h =
     (case Handle_Valid h of
        Some err \<Rightarrow> Err (PermanentError err)
      | None \<Rightarrow>
          (case map_of be (mem_key h) of
             None \<Rightarrow> Err errNotFound
           | Some e \<Rightarrow>
               (case cerr of
                  None \<Rightarrow> Ok \<lparr>fi_Name = h_Name (mem_key h), fi_Size = length e\<rparr>
                | Some er \<Rightarrow> Err er)))"

definition mem_Remove :: "error option \<Rightarrow> memMap \<Rightarrow> Handle \<Rightarrow> memMap \<times> error option" where
  "mem_Remove cerr be h =
     (let k = h\<lparr>h_ContainedBlobType := InvalidBlob\<rparr> in
      if map_of be k = None then (be, Some errNotFound)
      else (filter (\<lambda>e. fst e \<noteq> k) be, cerr))"

text \<open>The callback works on the caller's variables; a context that is done ends the loop.\<close>

definition mem_entries :: "memMap \<Rightarrow> FileType \<Rightarrow> FileInfo list" where
  "mem_entries be t =
     map (\<lambda>(k, buf). \<lparr>fi_Name = h_Name k, fi_Size = length buf\<rparr>) (filter (\<lambda>(k, buf). h_Type k = t) be)"

definition mem_List :: "error option \<Rightarrow> memMap \<Rightarrow> FileType \<Rightarrow> (FileInfo \<Rightarrow> 's \<Rightarrow> 's res) \<Rightarrow> 's \<Rightarrow> 's res" where
  "mem_List cerr be t fn s =
     (let stop = (\<lambda>s. case cerr of None \<Rightarrow> Ok s | Some e \<Rightarrow> Err e) in
      bind_r
        (fold_r (\<lambda>fi s. bind_r (stop s) (\<lambda>s. bind_r (fn fi s) stop)) (mem_entries be t) s)
        stop)"

definition mem_Delete :: "error option \<Rightarrow> memMap \<Rightarrow> memMap \<times> error option" where
  "mem_Delete cerr be = (case cerr of Some e \<Rightarrow> (be, Some e) | None \<Rightarrow> ([], None))"

section \<open>The dry-run backend\<close>

definition dry_Save :: "'b \<Rightarrow> Handle \<Rightarrow> RewindReader \<Rightarrow> 'b \<times> error option" where
  "dry_Save be h rd = (case Handle_Valid h of Some err \<Rightarrow> (be, Some err) | None \<Rightarrow> (be, None))"

definition dry_Remove :: "'b \<Rightarrow> Handle \<Rightarrow> 'b \<times> error option" where
  "dry_Remove be h = (be, None)"

definition dry_Delete :: "'b \<Rightarrow> 'b \<times> error option" where
  "dry_Delete be = (be, None)"

section \<open>Reading from a backend (\<open>readerat.go\<close>, \<open>utils.go\<close>)\<close>

text \<open>\<open>load h len off\<close> is the backend's \<open>Load\<close> with a callback that reads everything. \<open>io.ReadFull\<close> fails
  unless it fills the buffer.\<close>

definition ReadFull :: "nat \<Rightarrow> bytes \<Rightarrow> bytes res" where
  "ReadFull n data =
     (if n = 0 then Ok []
      else if data = [] then Err ErrEOF
      else if length data < n then Err (ErrOther ''unexpected EOF'')
      else Ok (take n data))"

definition backend_ReadAt :: "((bytes \<Rightarrow> bytes res) \<Rightarrow> Handle \<Rightarrow> nat \<Rightarrow> int \<Rightarrow> bytes res) \<Rightarrow> Handle \<Rightarrow> int \<Rightarrow> nat \<Rightarrow> bytes res" where
  "backend_ReadAt load h off n =
     (case load (ReadFull n) h n off of
        Ok p \<Rightarrow> Ok p
      | Err e \<Rightarrow> Err (Wrap e ''ReadFull(%v)'')
      | Panic m \<Rightarrow> Panic m)"

definition LoadAll :: "((bytes \<Rightarrow> bytes res) \<Rightarrow> Handle \<Rightarrow> nat \<Rightarrow> int \<Rightarrow> bytes res) \<Rightarrow> Handle \<Rightarrow> bytes res" where
  "LoadAll load h = load Ok h 0 0"

section \<open>Finding names (\<open>backend_find.go\<close>)\<close>

text \<open>\<open>lister\<close> is the backend's \<open>List\<close> for the file type, with a callback on the caller's variables.\<close>

definition Find :: "((FileInfo \<Rightarrow> string \<Rightarrow> string res) \<Rightarrow> string \<Rightarrow> string res) \<Rightarrow> string \<Rightarrow> string res" where
  "Find lister prfx =
     bind_r
       (lister (\<lambda>fi mtch.
          if length (fi_Name fi) \<ge> length prfx \<and> prfx = take (length prfx) (fi_Name fi) then
            if mtch = '''' then Ok (fi_Name fi) else Err (MultipleIDMatchesError prfx)
          else Ok mtch) '''')
       (\<lambda>mtch. if mtch \<noteq> '''' then Ok mtch else Err (NoIDByPrefixError prfx))"

definition minPrefixLength :: nat where
  "minPrefixLength = 8"

text \<open>The inner loop for the length \<open>l\<close>; \<open>name[:l]\<close> panics on a shorter name.\<close>

primrec prefix_scan :: "nat \<Rightarrow> string \<Rightarrow> string list \<Rightarrow> bool res" where
  "prefix_scan l lst [] = Ok True"
| "prefix_scan l lst (name # names) =
     (if length name < l then Panic ''slice bounds out of range''
      else if lst = take l name then Ok False
      else prefix_scan l (take l name) names)"

primrec prefix_loop :: "string list \<Rightarrow> nat list \<Rightarrow> nat res" where
  "prefix_loop names [] = Ok idSize"
| "prefix_loop names (l # ls) =
     bind_r (prefix_scan l '''' names) (\<lambda>unique. if unique then Ok l else prefix_loop names ls)"

definition PrefixLength :: "((FileInfo \<Rightarrow> string list \<Rightarrow> string list res) \<Rightarrow> string list \<Rightarrow> string list res) \<Rightarrow> nat res" where
  "PrefixLength lister =
     bind_r (lister (\<lambda>fi l. Ok (l @ [fi_Name fi])) []) (\<lambda>l. prefix_loop l [minPrefixLength..<idSize])"

section \<open>The contract of a backend\<close>

text \<open>A file is known by its type and name, the configuration by its type alone.\<close>

definition fkey :: "Handle \<Rightarrow> FileType \<times> string" where
  "fkey h = (h_Type h, if h_Type h = ConfigFile then '''' else h_Name h)"

locale store =
  fixes save :: "'b \<Rightarrow> Handle \<Rightarrow> RewindReader \<Rightarrow> 'b \<times> error option"
    and openr :: "'b \<Rightarrow> Handle \<Rightarrow> nat \<Rightarrow> int \<Rightarrow> bytes res"
    and files :: "'b \<Rightarrow> FileType \<times> string \<rightharpoonup> bytes"
  assumes save_ok: "save b h rd = (b', None) \<Longrightarrow>
      Handle_Valid h = None \<and> files b (fkey h) = None \<and> files b' = (files b)(fkey h \<mapsto> rr_data rd)"
    and save_err: "save b h rd = (b', Some e) \<Longrightarrow> files b \<subseteq>\<^sub>m files b'"
    and open_ok: "Handle_Valid h = None \<Longrightarrow> files b (fkey h) = Some d \<Longrightarrow> nat off \<le> length d \<Longrightarrow> 0 \<le> off \<Longrightarrow>
      openr b h n off = Ok (if n > 0 then take n (drop (nat off) d) else drop (nat off) d)"
begin

text \<open>No call of \<open>Save\<close> changes a file that is there.\<close>

lemma save_mono: "save b h rd = (b', eo) \<Longrightarrow> files b \<subseteq>\<^sub>m files b'"
  using save_ok [of b h rd b'] save_err [of b h rd b'] by (cases eo) (auto simp: map_le_def)

lemma save_stored: "save b h rd = (b', None) \<Longrightarrow> files b' (fkey h) = Some (rr_data rd)"
  using save_ok by simp

text \<open>\<open>ReadAt\<close> of a range inside a file returns its bytes.\<close>

lemma readat_file:
  assumes "Handle_Valid h = None" "files b (fkey h) = Some d" "off + n \<le> length d"
  shows "backend_ReadAt (DefaultLoad (openr b)) h (int off) n = Ok (take n (drop off d))"
proof -
  have "openr b h n (int off) = Ok (if n > 0 then take n (drop off d) else drop off d)"
    using open_ok [OF assms(1,2), of "int off" n] assms(3) by simp
  then show ?thesis using assms(3) by (auto simp: backend_ReadAt_def DefaultLoad_def ReadFull_def)
qed

lemma loadall_file:
  assumes "Handle_Valid h = None" "files b (fkey h) = Some d"
  shows "LoadAll (DefaultLoad (openr b)) h = Ok d"
  using open_ok [OF assms, of 0 0] by (simp add: LoadAll_def DefaultLoad_def)

lemma save_read:
  assumes "save b h rd = (b', None)"
  shows "LoadAll (DefaultLoad (openr b')) h = Ok (rr_data rd)"
    and "off + n \<le> length (rr_data rd) \<Longrightarrow>
      backend_ReadAt (DefaultLoad (openr b')) h (int off) n = Ok (take n (drop off (rr_data rd)))"
  using loadall_file readat_file save_ok [OF assms] by simp_all

end

definition mem_files :: "memMap \<Rightarrow> FileType \<times> string \<rightharpoonup> bytes" where
  "mem_files be tn = map_of be \<lparr>h_Type = fst tn, h_ContainedBlobType = InvalidBlob, h_Name = snd tn\<rparr>"

lemma mem_key_eq: "mem_key h = \<lparr>h_Type = fst (fkey h), h_ContainedBlobType = InvalidBlob, h_Name = snd (fkey h)\<rparr>"
  by (cases h) (simp add: mem_key_def fkey_def Let_def)

lemma mem_files_key: "map_of be (mem_key h) = mem_files be (fkey h)"
  by (simp add: mem_files_def mem_key_eq)

lemma mem_files_snoc: "map_of be (mem_key h) = None \<Longrightarrow> mem_files (be @ [(mem_key h, d)]) = (mem_files be)(fkey h \<mapsto> d)"
  by (cases "fkey h") (auto simp: mem_files_def mem_key_eq map_add_def fun_eq_iff split: option.splits)

lemma mem_Save_cases:
  "mem_Save md5 cerr be h rd = (be', eo) \<Longrightarrow>
    (be' = be \<and> eo \<noteq> None) \<or>
    (Handle_Valid h = None \<and> mem_files be (fkey h) = None \<and> eo = cerr \<and> length (rr_data rd) = rr_Len rd \<and>
      mem_files be' = (mem_files be)(fkey h \<mapsto> rr_data rd))"
  by (auto simp: mem_Save_def Let_def mem_files_snoc simp flip: mem_files_key split: option.splits if_splits)

interpretation mem: store "mem_Save md5 cerr" "mem_openReader None" mem_files
proof
  show "mem_Save md5 cerr b h rd = (b', None) \<Longrightarrow>
      Handle_Valid h = None \<and> mem_files b (fkey h) = None \<and> mem_files b' = (mem_files b)(fkey h \<mapsto> rr_data rd)" for b h rd b'
    using mem_Save_cases [of md5 cerr b h rd b' None] by blast
  show "mem_Save md5 cerr b h rd = (b', Some e) \<Longrightarrow> mem_files b \<subseteq>\<^sub>m mem_files b'" for b h rd b' e
    using mem_Save_cases [of md5 cerr b h rd b' "Some e"] by (auto simp: map_le_def)
  show "Handle_Valid h = None \<Longrightarrow> mem_files b (fkey h) = Some d \<Longrightarrow> nat off \<le> length d \<Longrightarrow> 0 \<le> off \<Longrightarrow>
      mem_openReader None b h n off = Ok (if n > 0 then take n (drop (nat off) d) else drop (nat off) d)" for b h d off n
    by (auto simp: mem_openReader_def mem_files_key Let_def)
qed

lemma mem_List_None: "mem_List None be t fn s = fold_r fn (mem_entries be t) s"
proof -
  have "fold_r (\<lambda>fi s. bind_r (fn fi s) Ok) fis s = fold_r fn fis s" for fis
  proof (induction fis arbitrary: s)
    case (Cons fi fis)
    then show ?case by (cases "fn fi s") auto
  qed simp
  moreover have "bind_r r Ok = r" for r :: "'b res" by (cases r) auto
  ultimately show ?thesis by (simp add: mem_List_def)
qed

text \<open>The loop of \<open>Find\<close> over the names.\<close>

lemma Find_loop:
  "fold_r (\<lambda>fi mtch.
      if length (fi_Name fi) \<ge> length p \<and> p = take (length p) (fi_Name fi) then
        if mtch = '''' then Ok (fi_Name fi) else Err (MultipleIDMatchesError p)
      else Ok mtch) fis m =
   (let ms = filter (\<lambda>n. length n \<ge> length p \<and> take (length p) n = p) (map fi_Name fis) in
    if m = '''' then (case ms of [] \<Rightarrow> Ok '''' | [n] \<Rightarrow> Ok n | n # n' # ns \<Rightarrow> Err (MultipleIDMatchesError p))
    else (if ms = [] then Ok m else Err (MultipleIDMatchesError p)))"
  if "\<forall>fi \<in> set fis. fi_Name fi \<noteq> ''''"
  using that by (induction fis arbitrary: m) (auto simp: Let_def eq_commute [of p] split: list.splits)

text \<open>In a sorted list equal prefixes are neighbours.\<close>

lemma take_mono: "xs \<le> ys \<Longrightarrow> take l xs \<le> take l (ys :: 'a :: linorder list)"
proof (induction xs arbitrary: l ys)
  case (Cons x xs)
  then show ?case by (cases ys; cases l) auto
qed simp

lemma prefix_scan_distinct:
  assumes "prefix_scan l lst names = Ok True" "sorted names" "\<forall>n \<in> set names. lst \<le> take l n"
  shows "distinct (map (take l) names) \<and> (\<forall>n \<in> set names. lst \<noteq> take l n)"
  using assms
proof (induction names arbitrary: lst)
  case (Cons n names)
  have scan: "prefix_scan l (take l n) names = Ok True" and ne: "lst \<noteq> take l n"
    using Cons.prems(1) by (auto split: if_splits)
  have ge: "\<forall>m \<in> set names. take l n \<le> take l m" using Cons.prems(2) by (auto intro: take_mono)
  have IH: "distinct (map (take l) names)" "\<forall>m \<in> set names. take l n \<noteq> take l m"
    using Cons.IH [OF scan _ ge] Cons.prems(2) by auto
  have "lst \<noteq> take l m" if "m \<in> set names" for m
    using ge ne Cons.prems(3) that by (metis antisym list.set_intros(1))
  with IH ne show ?case by auto
qed simp

lemma prefix_scan_ok: "\<forall>n \<in> set names. l \<le> length n \<Longrightarrow> \<exists>b. prefix_scan l lst names = Ok b"
  by (induction names arbitrary: lst) auto

lemma prefix_scan_clash:
  assumes "prefix_scan l lst names = Ok False" "\<forall>n \<in> set names. lst \<noteq> take l n"
  shows "\<not> distinct (map (take l) names)"
proof -
  have "prefix_scan l lst names = Ok False \<Longrightarrow> \<not> distinct (map (take l) names) \<or> (\<exists>n \<in> set names. lst = take l n)"
    by (induction names arbitrary: lst) (fastforce split: if_splits)+
  with assms show ?thesis by blast
qed

lemma prefix_loop_correct:
  assumes "sorted names" "\<forall>n \<in> set names. idSize \<le> length n" "0 < a" "a \<le> idSize"
  shows "\<exists>l. prefix_loop names [a..<idSize] = Ok l \<and> a \<le> l \<and> l \<le> idSize \<and>
    (l < idSize \<longrightarrow> distinct (map (take l) names)) \<and> (\<forall>k. a \<le> k \<and> k < l \<longrightarrow> \<not> distinct (map (take k) names))"
  using assms(3,4)
proof (induction "idSize - a" arbitrary: a)
  case (Suc d)
  then have a: "a < idSize" "[a..<idSize] = a # [Suc a..<idSize]" by (auto simp: upt_conv_Cons)
  have ne: "\<forall>n \<in> set names. '''' \<noteq> take a n" using assms(2) Suc.prems a by auto
  have "\<forall>n \<in> set names. a \<le> length n" using assms(2) a by (meson less_imp_le order_trans)
  from prefix_scan_ok [OF this] obtain b where b: "prefix_scan a '''' names = Ok b" by blast
  show ?case
  proof (cases b)
    case True
    then have "distinct (map (take a) names)" using prefix_scan_distinct [of a "''''" names] b assms(1) by simp
    then show ?thesis using a b True by auto
  next
    case False
    then have clash: "\<not> distinct (map (take a) names)" using prefix_scan_clash [OF _ ne] b by simp
    have "d = idSize - Suc a" using Suc.hyps(2) by simp
    from Suc.hyps(1) [OF this] a(1) obtain l where l: "prefix_loop names [Suc a..<idSize] = Ok l" "Suc a \<le> l" "l \<le> idSize"
      "l < idSize \<longrightarrow> distinct (map (take l) names)" "\<forall>k. Suc a \<le> k \<and> k < l \<longrightarrow> \<not> distinct (map (take k) names)"
      by auto
    have "\<forall>k. a \<le> k \<and> k < l \<longrightarrow> \<not> distinct (map (take k) names)"
      using l(5) clash by (metis le_antisym not_less_eq_eq)
    with l show ?thesis using a b False by (intro exI [of _ l]) simp
  qed
qed auto

section \<open>Properties\<close>



text \<open>\<open>Find\<close> returns the only name with the prefix if there is exactly one, and tells the cases of none
  and of several apart.\<close>

theorem Find_unique:
  assumes "\<forall>fi \<in> set (mem_entries be t). fi_Name fi \<noteq> ''''"
  shows "Find (mem_List None be t) p =
    (case filter (\<lambda>n. length n \<ge> length p \<and> take (length p) n = p) (map fi_Name (mem_entries be t)) of
       [] \<Rightarrow> Err (NoIDByPrefixError p)
     | [n] \<Rightarrow> Ok n
     | n # n' # ns \<Rightarrow> Err (MultipleIDMatchesError p))"
proof -
  have ne: "n \<noteq> ''''" if "n \<in> set (filter Q (map fi_Name (mem_entries be t)))" for n Q
    using that assms by auto
  show ?thesis
    using Find_loop [OF assms, of p "''''"] ne [where Q = "\<lambda>n. length n \<ge> length p \<and> take (length p) n = p"]
    by (auto simp: Find_def mem_List_None Let_def simp del: set_filter split: list.splits)
qed

theorem Find_unique_witness:
  "Find (mem_List None [(\<lparr>h_Type = IndexFile, h_ContainedBlobType = InvalidBlob, h_Name = ''ab''\<rparr>, []),
      (\<lparr>h_Type = IndexFile, h_ContainedBlobType = InvalidBlob, h_Name = ''cd''\<rparr>, [])] IndexFile) ''c'' = Ok ''cd''"
  using Find_unique [of "[(\<lparr>h_Type = IndexFile, h_ContainedBlobType = InvalidBlob, h_Name = ''ab''\<rparr>, []),
      (\<lparr>h_Type = IndexFile, h_ContainedBlobType = InvalidBlob, h_Name = ''cd''\<rparr>, [])]" IndexFile "''c''"]
  by (simp add: mem_entries_def)

text \<open>For names of at least 32 characters that the backend lists in order, \<open>PrefixLength\<close> returns the
  shortest length from 8 at which all prefixes differ, or 32.\<close>

theorem PrefixLength_sorted:
  assumes "sorted (map fi_Name (mem_entries be t))" "\<forall>fi \<in> set (mem_entries be t). idSize \<le> length (fi_Name fi)"
  shows "\<exists>l. PrefixLength (mem_List None be t) = Ok l \<and> minPrefixLength \<le> l \<and> l \<le> idSize \<and>
    (l < idSize \<longrightarrow> distinct (map (\<lambda>fi. take l (fi_Name fi)) (mem_entries be t))) \<and>
    (\<forall>k. minPrefixLength \<le> k \<and> k < l \<longrightarrow> \<not> distinct (map (\<lambda>fi. take k (fi_Name fi)) (mem_entries be t)))"
proof -
  have "fold_r (\<lambda>fi l. Ok (l @ [fi_Name fi])) fis acc = Ok (acc @ map fi_Name fis)" for fis :: "FileInfo list" and acc
    by (induction fis arbitrary: acc) auto
  moreover have "0 < minPrefixLength" "minPrefixLength \<le> idSize" by (simp_all add: minPrefixLength_def idSize_def)
  ultimately show ?thesis
    using prefix_loop_correct [OF assms(1), of minPrefixLength] assms(2)
    by (simp add: PrefixLength_def mem_List_None comp_def)
qed

abbreviation toy_name :: "char \<Rightarrow> char \<Rightarrow> string" where
  "toy_name a b \<equiv> replicate 20 a @ replicate 20 b"

abbreviation toy_index :: "string \<Rightarrow> Handle \<times> bytes" where
  "toy_index n \<equiv> (\<lparr>h_Type = IndexFile, h_ContainedBlobType = InvalidBlob, h_Name = n\<rparr>, [])"

theorem PrefixLength_sorted_witness:
  "\<exists>l. PrefixLength (mem_List None (map toy_index [toy_name (CHR ''a'') (CHR ''a''), toy_name (CHR ''a'') (CHR ''b'')]) IndexFile) =
    Ok l \<and> 20 < l"
proof -
  let ?be = "map toy_index [toy_name (CHR ''a'') (CHR ''a''), toy_name (CHR ''a'') (CHR ''b'')]"
  have e: "map fi_Name (mem_entries ?be IndexFile) = [toy_name (CHR ''a'') (CHR ''a''), toy_name (CHR ''a'') (CHR ''b'')]"
    by (simp add: mem_entries_def)
  have "sorted (map fi_Name (mem_entries ?be IndexFile))" unfolding e by code_simp
  moreover have "\<forall>fi \<in> set (mem_entries ?be IndexFile). idSize \<le> length (fi_Name fi)"
    by (simp add: mem_entries_def idSize_def)
  ultimately obtain l where l: "PrefixLength (mem_List None ?be IndexFile) = Ok l" "minPrefixLength \<le> l" "l \<le> idSize"
    "l < idSize \<longrightarrow> distinct (map (\<lambda>fi. take l (fi_Name fi)) (mem_entries ?be IndexFile))"
    using PrefixLength_sorted by blast
  have "20 < l"
  proof (rule ccontr)
    assume "\<not> 20 < l"
    then have "l < idSize" "take l (toy_name (CHR ''a'') (CHR ''a'')) = take l (toy_name (CHR ''a'') (CHR ''b''))"
      by (simp_all add: idSize_def)
    with l(4) show False by (simp add: mem_entries_def)
  qed
  with l(1) show ?thesis by blast
qed


end
