(* ===== verification/Trees.thy ===== *)
theory Trees
  imports Snapshots Backends "HOL-Library.AList"
begin

text \<open>
  Nodes and trees (\<open>restic/node.go\<close>, \<open>tree.go\<close>), streaming of trees (\<open>tree_stream.go\<close>), the blobs a
  snapshot uses (\<open>find.go\<close>) and hard links (\<open>hardlinks_index.go\<close>).

  Strings are compared bytewise, which is the lexicographic order of \<open>List_Lexorder\<close>. The select loop of
  \<open>filterTrees\<close> with its loader goroutines is a step relation: a loaded tree may arrive for any of the
  outstanding requests, and the consumer of the stream takes part in the step that sends an item.
  Loading a tree is the parameter \<open>load\<close>, which may return an error or no tree.
\<close>

section \<open>Nodes (\<open>node.go\<close>)\<close>

record ExtendedAttribute =
  xa_Name :: string
  xa_Value :: bytes

record Node =
  n_Name :: string
  n_Type :: string
  n_Mode :: "32 word"
  n_ModTime :: time
  n_AccessTime :: time
  n_ChangeTime :: time
  n_UID :: "32 word"
  n_GID :: "32 word"
  n_User :: string
  n_Group :: string
  n_Inode :: "64 word"
  n_DeviceID :: "64 word"
  n_Size :: "64 word"
  n_Links :: "64 word"
  n_LinkTarget :: string
  n_ExtendedAttributes :: "ExtendedAttribute list"
  n_Device :: "64 word"
  n_Content :: "ID list option"
  n_Subtree :: "ID option"
  n_Error :: string
  n_Path :: string

definition Nodes_Less :: "Node \<Rightarrow> Node \<Rightarrow> bool" where
  "Nodes_Less a b \<longleftrightarrow> n_Name a < n_Name b"

definition GetExtendedAttribute :: "Node \<Rightarrow> string \<Rightarrow> bytes option" where
  "GetExtendedAttribute node a = map_option xa_Value (find (\<lambda>attr. xa_Name attr = a) (n_ExtendedAttributes node))"

text \<open>A nil list of contents differs from an empty one.\<close>

definition sameContent :: "Node \<Rightarrow> Node \<Rightarrow> bool" where
  "sameContent node other =
     (case n_Content node of
        None \<Rightarrow> n_Content other = None
      | Some a \<Rightarrow>
          (case n_Content other of
             None \<Rightarrow> False
           | Some b \<Rightarrow> if length a \<noteq> length b then False else list_all2 ID_Equal a b))"

text \<open>The map from names to values with the flag \<open>present\<close>.\<close>

primrec xattr_scan :: "ExtendedAttribute list \<Rightarrow> (string \<times> bytes \<times> bool) list \<Rightarrow> (string \<times> bytes \<times> bool) list option" where
  "xattr_scan [] attributes = Some attributes"
| "xattr_scan (attr # rest) attributes =
     (case map_of attributes (xa_Name attr) of
        None \<Rightarrow> None
      | Some (v, present) \<Rightarrow>
          if v \<noteq> xa_Value attr then None
          else xattr_scan rest (AList.update (xa_Name attr) (v, True) attributes))"

definition sameExtendedAttributes :: "Node \<Rightarrow> Node \<Rightarrow> bool" where
  "sameExtendedAttributes node other =
     (if length (n_ExtendedAttributes node) \<noteq> length (n_ExtendedAttributes other) then False
      else
        (case xattr_scan (n_ExtendedAttributes other)
           (fold (\<lambda>attr m. AList.update (xa_Name attr) (xa_Value attr, False) m) (n_ExtendedAttributes node) []) of
           None \<Rightarrow> False
         | Some attributes \<Rightarrow> list_all (\<lambda>(name, v, present). present) attributes))"

definition Node_Equals :: "Node \<Rightarrow> Node \<Rightarrow> bool" where
  "Node_Equals node other =
     (if n_Name node \<noteq> n_Name other then False
      else if n_Type node \<noteq> n_Type other then False
      else if n_Mode node \<noteq> n_Mode other then False
      else if n_ModTime node \<noteq> n_ModTime other then False
      else if n_AccessTime node \<noteq> n_AccessTime other then False
      else if n_ChangeTime node \<noteq> n_ChangeTime other then False
      else if n_UID node \<noteq> n_UID other then False
      else if n_GID node \<noteq> n_GID other then False
      else if n_User node \<noteq> n_User other then False
      else if n_Group node \<noteq> n_Group other then False
      else if n_Inode node \<noteq> n_Inode other then False
      else if n_DeviceID node \<noteq> n_DeviceID other then False
      else if n_Size node \<noteq> n_Size other then False
      else if n_Links node \<noteq> n_Links other then False
      else if n_LinkTarget node \<noteq> n_LinkTarget other then False
      else if n_Device node \<noteq> n_Device other then False
      else if \<not> sameContent node other then False
      else if \<not> sameExtendedAttributes node other then False
      else if (case n_Subtree node of
                 Some s \<Rightarrow> (case n_Subtree other of None \<Rightarrow> True | Some s' \<Rightarrow> \<not> ID_Equal s s')
               | None \<Rightarrow> n_Subtree other \<noteq> None) then False
      else if n_Error node \<noteq> n_Error other then False
      else True)"

section \<open>Trees (\<open>tree.go\<close>)\<close>

record Tree =
  Nodes :: "Node list"

definition NewTree :: Tree where
  "NewTree = \<lparr>Nodes = []\<rparr>"

definition Tree_Equals :: "Tree \<Rightarrow> Tree \<Rightarrow> bool" where
  "Tree_Equals t other =
     (if length (Nodes t) \<noteq> length (Nodes other) then False else list_all2 Node_Equals (Nodes t) (Nodes other))"

text \<open>\<open>sort.Search\<close>: the loop of the binary search.\<close>

function search_loop :: "(nat \<Rightarrow> bool) \<Rightarrow> nat \<Rightarrow> nat \<Rightarrow> nat" where
  "search_loop f i j =
     (if i < j then
        (let h = (i + j) div 2 in
         if \<not> f h then search_loop f (h + 1) j else search_loop f i h)
      else i)"
  by pat_completeness auto
termination
  by (relation "measure (\<lambda>(f, i, j). j - i)") auto

declare search_loop.simps [simp del]

definition tree_find :: "Tree \<Rightarrow> string \<Rightarrow> nat \<times> Node option" where
  "tree_find t name =
     (let pos = search_loop (\<lambda>i. n_Name (Nodes t ! i) \<ge> name) 0 (length (Nodes t)) in
      if pos < length (Nodes t) \<and> n_Name (Nodes t ! pos) = name then (pos, Some (Nodes t ! pos)) else (pos, None))"

definition Tree_Find :: "Tree option \<Rightarrow> string \<Rightarrow> Node option" where
  "Tree_Find t name = (case t of None \<Rightarrow> None | Some t \<Rightarrow> snd (tree_find t name))"

definition Tree_Insert :: "Tree \<Rightarrow> Node \<Rightarrow> Tree res" where
  "Tree_Insert t node =
     (case tree_find t (n_Name node) of
        (pos, Some n) \<Rightarrow> Err (Errorf ''node %q already present'')
      | (pos, None) \<Rightarrow> Ok (t\<lparr>Nodes := take pos (Nodes t) @ node # drop pos (Nodes t)\<rparr>))"

definition Tree_Sort :: "Tree \<Rightarrow> Tree" where
  "Tree_Sort t = t\<lparr>Nodes := go_sort Nodes_Less (Nodes t)\<rparr>"

definition Subtrees :: "Tree \<Rightarrow> ID list" where
  "Subtrees t =
     fold (\<lambda>node trees.
       if n_Type node = ''dir'' \<and> n_Subtree node \<noteq> None then trees @ [the (n_Subtree node)] else trees) (Nodes t) []"

section \<open>Streaming trees (\<open>tree_stream.go\<close>)\<close>

type_synonym trackedID = "ID \<times> nat"

record TreeItem =
  ti_ID :: ID
  ti_Tree :: "Tree res"

text \<open>The variables of \<open>filterTrees\<close>: \<open>nextLoad\<close> is \<open>nextTreeID\<close> when \<open>loadCh\<close> is not nil, \<open>outJob\<close> is
  \<open>job\<close> when \<open>outCh\<close> is not nil; \<open>outstanding\<close> are the requests the loaders work on, \<open>sent\<close> the items
  sent so far, \<open>added\<close> the calls of \<open>p.Add(1)\<close>, and \<open>ext\<close> the state of \<open>skip\<close> and of the consumer.\<close>

record 's stream =
  backlog :: "trackedID list"
  nextLoad :: "trackedID option"
  outstanding :: "trackedID list"
  outJob :: "TreeItem option"
  rootCounter :: "int list"
  sent :: "TreeItem list"
  added :: nat
  ext :: 's

definition stream_init :: "ID list \<Rightarrow> 's \<Rightarrow> 's stream" where
  "stream_init trees s =
     \<lparr>backlog = zip trees [0..<length trees], nextLoad = None, outstanding = [], outJob = None,
      rootCounter = replicate (length trees) 1, sent = [], added = 0, ext = s\<rparr>"

definition stream_done :: "'s stream \<Rightarrow> bool" where
  "stream_done st \<longleftrightarrow> nextLoad st = None \<and> backlog st = [] \<and> outJob st = None \<and> outstanding st = []"

definition count_add :: "nat \<Rightarrow> int \<Rightarrow> int list \<Rightarrow> int list" where
  "count_add i d cs = cs[i := cs ! i + d]"

definition note_root :: "nat \<Rightarrow> 's stream \<Rightarrow> 's stream" where
  "note_root i st = (if rootCounter st ! i = 0 then st\<lparr>added := added st + 1\<rparr> else st)"

text \<open>The part before the select: the last entry of the backlog is skipped or becomes the next request.\<close>

definition stream_take :: "(ID \<Rightarrow> 's \<Rightarrow> bool \<times> 's) \<Rightarrow> 's stream \<Rightarrow> 's stream" where
  "stream_take skip st =
     (let x = last (backlog st); bl = butlast (backlog st) in
      case skip (fst x) (ext st) of (skipped, s') \<Rightarrow>
        if skipped then
          note_root (snd x) (st\<lparr>backlog := bl, ext := s', rootCounter := count_add (snd x) (- 1) (rootCounter st)\<rparr>)
        else st\<lparr>backlog := bl, ext := s', nextLoad := Some x\<rparr>)"

text \<open>The case of a job that a loader returns.\<close>

definition push_subtrees :: "nat \<Rightarrow> ID list \<Rightarrow> 's stream \<Rightarrow> 's stream" where
  "push_subtrees i subtrees st =
     fold (\<lambda>s st. if s = nullID then st
       else st\<lparr>backlog := backlog st @ [(s, i)], rootCounter := count_add i 1 (rootCounter st)\<rparr>) (rev subtrees) st"

definition stream_receive :: "(ID \<Rightarrow> Tree option res) \<Rightarrow> trackedID \<Rightarrow> 's stream \<Rightarrow> 's stream" where
  "stream_receive load x st =
     (let st1 = st\<lparr>outstanding := remove1 x (outstanding st), rootCounter := count_add (snd x) (- 1) (rootCounter st)\<rparr>;
          (st2, r) =
            (case load (fst x) of
               Err e \<Rightarrow> (st1, Err e)
             | Panic m \<Rightarrow> (st1, Panic m)
             | Ok None \<Rightarrow> (st1, Err (Errorf ''tree is nil and error is nil''))
             | Ok (Some tree) \<Rightarrow> (push_subtrees (snd x) (Subtrees tree) st1, Ok tree)) in
      (note_root (snd x) st2)\<lparr>outJob := Some \<lparr>ti_ID = fst x, ti_Tree = r\<rparr>\<rparr>)"

inductive filterTrees ::
  "(ID \<Rightarrow> 's \<Rightarrow> bool \<times> 's) \<Rightarrow> (TreeItem \<Rightarrow> 's \<Rightarrow> 's res) \<Rightarrow> (ID \<Rightarrow> Tree option res) \<Rightarrow> 's stream \<Rightarrow> 's stream \<Rightarrow> bool"
  for skip consume load where
  take_next: "nextLoad st = None \<Longrightarrow> backlog st \<noteq> [] \<Longrightarrow> filterTrees skip consume load st (stream_take skip st)"
| send_load: "nextLoad st = Some x \<Longrightarrow>
    filterTrees skip consume load st (st\<lparr>outstanding := outstanding st @ [x], nextLoad := None\<rparr>)"
| receive: "nextLoad st \<noteq> None \<or> backlog st = [] \<Longrightarrow> outJob st = None \<Longrightarrow> x \<in> set (outstanding st) \<Longrightarrow>
    filterTrees skip consume load st (stream_receive load x st)"
| send_out: "nextLoad st \<noteq> None \<or> backlog st = [] \<Longrightarrow> outJob st = Some job \<Longrightarrow> consume job (ext st) = Ok s' \<Longrightarrow>
    filterTrees skip consume load st (st\<lparr>outJob := None, sent := sent st @ [job], ext := s'\<rparr>)"

inductive_cases filterTreesE: "filterTrees skip consume load st st'"

inductive stream_run ::
  "(ID \<Rightarrow> 's \<Rightarrow> bool \<times> 's) \<Rightarrow> (TreeItem \<Rightarrow> 's \<Rightarrow> 's res) \<Rightarrow> (ID \<Rightarrow> Tree option res) \<Rightarrow> 's stream \<Rightarrow> 's stream \<Rightarrow> bool"
  for skip consume load where
  run_refl: "stream_run skip consume load st st"
| run_step: "stream_run skip consume load st st' \<Longrightarrow> filterTrees skip consume load st' st'' \<Longrightarrow>
    stream_run skip consume load st st''"

section \<open>Used blobs (\<open>find.go\<close>)\<close>

definition used_skip :: "ID \<Rightarrow> BlobSet \<Rightarrow> bool \<times> BlobSet" where
  "used_skip treeID blobs =
     (let h = \<lparr>bID = treeID, bType = TreeBlob\<rparr> in (BlobSet_Has blobs h, BlobSet_Insert blobs h))"

definition node_blobs :: "Node \<Rightarrow> ID list" where
  "node_blobs node = (if n_Type node = ''file'' then (case n_Content node of None \<Rightarrow> [] | Some c \<Rightarrow> c) else [])"

definition used_consume :: "TreeItem \<Rightarrow> BlobSet \<Rightarrow> BlobSet res" where
  "used_consume item blobs =
     (case ti_Tree item of
        Err e \<Rightarrow> Err e
      | Panic m \<Rightarrow> Panic m
      | Ok tree \<Rightarrow>
          Ok (fold (\<lambda>node blobs. fold (\<lambda>blob blobs. BlobSet_Insert blobs \<lparr>bID = blob, bType = DataBlob\<rparr>) (node_blobs node) blobs)
            (Nodes tree) blobs))"

text \<open>\<open>FindUsedBlobs\<close> ends without an error in the given state.\<close>

definition FindUsedBlobs :: "(ID \<Rightarrow> Tree option res) \<Rightarrow> ID list \<Rightarrow> BlobSet \<Rightarrow> BlobSet stream \<Rightarrow> bool" where
  "FindUsedBlobs load treeIDs blobs st \<longleftrightarrow>
     stream_run used_skip used_consume load (stream_init treeIDs blobs) st \<and> stream_done st"

section \<open>Hard links (\<open>hardlinks_index.go\<close>)\<close>

type_synonym HardlinkIndex = "(uint \<times> uint) \<rightharpoonup> string"

definition NewHardlinkIndex :: HardlinkIndex where
  "NewHardlinkIndex = Map.empty"

definition Hardlink_Has :: "HardlinkIndex \<Rightarrow> uint \<Rightarrow> uint \<Rightarrow> bool" where
  "Hardlink_Has idx inode device = (idx (inode, device) \<noteq> None)"

definition Hardlink_Add :: "HardlinkIndex \<Rightarrow> uint \<Rightarrow> uint \<Rightarrow> string \<Rightarrow> HardlinkIndex" where
  "Hardlink_Add idx inode device name =
     (if idx (inode, device) = None then idx((inode, device) \<mapsto> name) else idx)"

definition Hardlink_GetFilename :: "HardlinkIndex \<Rightarrow> uint \<Rightarrow> uint \<Rightarrow> string" where
  "Hardlink_GetFilename idx inode device = (case idx (inode, device) of None \<Rightarrow> '''' | Some n \<Rightarrow> n)"

definition Hardlink_Remove :: "HardlinkIndex \<Rightarrow> uint \<Rightarrow> uint \<Rightarrow> HardlinkIndex" where
  "Hardlink_Remove idx inode device = idx((inode, device) := None)"

section \<open>The trees below the roots\<close>

inductive_set reach :: "(ID \<Rightarrow> Tree option res) \<Rightarrow> ID list \<Rightarrow> ID set" for load roots where
  reach_root: "r \<in> set roots \<Longrightarrow> r \<in> reach load roots"
| reach_sub: "t \<in> reach load roots \<Longrightarrow> load t = Ok (Some tree) \<Longrightarrow> s \<in> set (Subtrees tree) \<Longrightarrow> s \<noteq> nullID \<Longrightarrow>
    s \<in> reach load roots"

definition children :: "(ID \<Rightarrow> Tree option res) \<Rightarrow> ID \<Rightarrow> ID list" where
  "children load t =
     (case load t of Ok (Some tree) \<Rightarrow> filter (\<lambda>s. s \<noteq> nullID) (Subtrees tree) | _ \<Rightarrow> [])"

definition tree_result :: "(ID \<Rightarrow> Tree option res) \<Rightarrow> ID \<Rightarrow> Tree res" where
  "tree_result load i =
     (case load i of
        Ok (Some tree) \<Rightarrow> Ok tree
      | Ok None \<Rightarrow> Err (Errorf ''tree is nil and error is nil'')
      | Err e \<Rightarrow> Err e
      | Panic m \<Rightarrow> Panic m)"

primrec opt_list :: "'a option \<Rightarrow> 'a list" where
  "opt_list None = []"
| "opt_list (Some x) = [x]"

text \<open>The requests that are not answered, by root, and the trees that were requested.\<close>

definition open_reqs :: "'s stream \<Rightarrow> trackedID list" where
  "open_reqs st = backlog st @ opt_list (nextLoad st) @ outstanding st"

definition visited :: "'s stream \<Rightarrow> ID list" where
  "visited st = map fst (opt_list (nextLoad st) @ outstanding st) @ map ti_ID (opt_list (outJob st) @ sent st)"

lemma reach_children: "t \<in> reach load roots \<Longrightarrow> s \<in> set (children load t) \<Longrightarrow> s \<in> reach load roots"
  by (cases "load t") (auto simp: children_def split: option.splits intro: reach_sub)

text \<open>A set that holds the roots and is closed under children holds all reachable trees.\<close>

lemma reach_least:
  assumes "set roots \<subseteq> V" "\<And>t. t \<in> V \<Longrightarrow> t \<in> reach load roots \<Longrightarrow> set (children load t) \<subseteq> V"
  shows "reach load roots \<subseteq> V"
proof
  fix t assume "t \<in> reach load roots"
  then show "t \<in> V"
  proof induction
    case (reach_sub t tree s)
    then have "s \<in> set (children load t)" by (simp add: children_def)
    with reach_sub.IH assms(2) [of t] reach_sub.hyps(1) show ?case by blast
  qed (use assms(1) in blast)
qed

lemma note_root_sel [simp]:
  "backlog (note_root i st) = backlog st" "nextLoad (note_root i st) = nextLoad st"
  "outstanding (note_root i st) = outstanding st" "outJob (note_root i st) = outJob st"
  "rootCounter (note_root i st) = rootCounter st" "sent (note_root i st) = sent st" "ext (note_root i st) = ext st"
  by (simp_all add: note_root_def)

lemma push_subtrees_sel:
  "backlog (push_subtrees i ss st) = backlog st @ map (\<lambda>s. (s, i)) (filter (\<lambda>s. s \<noteq> nullID) (rev ss)) \<and>
   nextLoad (push_subtrees i ss st) = nextLoad st \<and> outstanding (push_subtrees i ss st) = outstanding st \<and>
   outJob (push_subtrees i ss st) = outJob st \<and> sent (push_subtrees i ss st) = sent st \<and> ext (push_subtrees i ss st) = ext st \<and>
   length (rootCounter (push_subtrees i ss st)) = length (rootCounter st) \<and>
   (\<forall>j < length (rootCounter st). rootCounter (push_subtrees i ss st) ! j =
     rootCounter st ! j + (if j = i then int (length (filter (\<lambda>s. s \<noteq> nullID) ss)) else 0))"
proof -
  let ?f = "\<lambda>s st. if s = nullID then st
    else st\<lparr>backlog := backlog st @ [(s, i)], rootCounter := count_add i 1 (rootCounter st)\<rparr>"
  have "backlog (fold ?f xs st) = backlog st @ map (\<lambda>s. (s, i)) (filter (\<lambda>s. s \<noteq> nullID) xs) \<and>
    nextLoad (fold ?f xs st) = nextLoad st \<and> outstanding (fold ?f xs st) = outstanding st \<and>
    outJob (fold ?f xs st) = outJob st \<and> sent (fold ?f xs st) = sent st \<and> ext (fold ?f xs st) = ext st \<and>
    length (rootCounter (fold ?f xs st)) = length (rootCounter st) \<and>
    (\<forall>j < length (rootCounter st). rootCounter (fold ?f xs st) ! j =
      rootCounter st ! j + (if j = i then int (length (filter (\<lambda>s. s \<noteq> nullID) xs)) else 0))" for xs
    by (induction xs arbitrary: st) (auto simp: count_add_def nth_list_update)
  from this [of "rev ss"] show ?thesis by (simp add: push_subtrees_def flip: rev_filter)
qed

lemma receive_sel:
  "backlog (stream_receive load x st) = backlog st @ map (\<lambda>s. (s, snd x)) (rev (children load (fst x)))"
  "nextLoad (stream_receive load x st) = nextLoad st"
  "outstanding (stream_receive load x st) = remove1 x (outstanding st)"
  "outJob (stream_receive load x st) = Some \<lparr>ti_ID = fst x, ti_Tree = tree_result load (fst x)\<rparr>"
  "sent (stream_receive load x st) = sent st" "ext (stream_receive load x st) = ext st"
  by (auto simp: stream_receive_def Let_def push_subtrees_sel children_def tree_result_def rev_filter
      split: res.splits option.splits)

lemma receive_counter:
  "length (rootCounter (stream_receive load x st)) = length (rootCounter st)"
  "j < length (rootCounter st) \<Longrightarrow> rootCounter (stream_receive load x st) ! j =
    rootCounter st ! j + (if j = snd x then int (length (children load (fst x))) - 1 else 0)"
  by (auto simp: stream_receive_def Let_def push_subtrees_sel children_def count_add_def nth_list_update
      split: res.splits option.splits)

section \<open>What a stream visits\<close>

text \<open>The contract between \<open>filterTrees\<close> and its caller: \<open>skip\<close> tells whether a tree was seen and remembers
  it, and the consumer leaves that memory alone.\<close>

locale tree_visitor =
  fixes skip :: "ID \<Rightarrow> 's \<Rightarrow> bool \<times> 's" and consume :: "TreeItem \<Rightarrow> 's \<Rightarrow> 's res" and seen :: "'s \<Rightarrow> ID set"
  assumes skip_seen: "skip i s = (b, s') \<Longrightarrow> (b \<longleftrightarrow> i \<in> seen s) \<and> seen s' = insert i (seen s)"
    and consume_seen: "consume job s = Ok s' \<Longrightarrow> seen s' = seen s"
begin

definition stream_inv :: "(ID \<Rightarrow> Tree option res) \<Rightarrow> ID list \<Rightarrow> ID set \<Rightarrow> 's stream \<Rightarrow> bool" where
  "stream_inv load roots S0 st \<longleftrightarrow>
     distinct (visited st) \<and> set (visited st) \<inter> S0 = {} \<and> seen (ext st) = S0 \<union> set (visited st) \<and>
     set roots \<subseteq> seen (ext st) \<union> fst ` set (backlog st) \<and>
     (\<forall>job \<in> set (opt_list (outJob st) @ sent st). ti_Tree job = tree_result load (ti_ID job) \<and>
        set (children load (ti_ID job)) \<subseteq> seen (ext st) \<union> fst ` set (backlog st)) \<and>
     fst ` set (backlog st) \<union> set (visited st) \<subseteq> reach load roots"

lemma inv_init: "seen s = S0 \<Longrightarrow> stream_inv load roots S0 (stream_init roots s)"
proof -
  have "fst ` set (zip roots [0..<length roots]) = set roots"
    by (metis length_upt list.set_map map_fst_zip diff_zero)
  then show "seen s = S0 \<Longrightarrow> stream_inv load roots S0 (stream_init roots s)"
    by (auto simp: stream_inv_def stream_init_def visited_def intro: reach_root)
qed

lemma inv_take:
  assumes "stream_inv load roots S0 st" "nextLoad st = None" "backlog st \<noteq> []"
  shows "stream_inv load roots S0 (stream_take skip st)"
proof -
  obtain bl x where bl: "backlog st = bl @ [x]" using assms(3) by (cases "backlog st" rule: rev_cases) auto
  obtain b s' where sk: "skip (fst x) (ext st) = (b, s')" by fastforce
  note S = skip_seen [OF sk]
  from assms(1) have I: "distinct (visited st)" "set (visited st) \<inter> S0 = {}" "seen (ext st) = S0 \<union> set (visited st)"
    "set roots \<subseteq> seen (ext st) \<union> fst ` set (bl @ [x])"
    "\<forall>job \<in> set (opt_list (outJob st) @ sent st). ti_Tree job = tree_result load (ti_ID job) \<and>
        set (children load (ti_ID job)) \<subseteq> seen (ext st) \<union> fst ` set (bl @ [x])"
    "fst ` set (bl @ [x]) \<union> set (visited st) \<subseteq> reach load roots"
    unfolding stream_inv_def bl by - (elim conjE, assumption)+
  show ?thesis
  proof (cases b)
    case True
    then have V: "visited (stream_take skip st) = visited st" "ext (stream_take skip st) = s'"
      "backlog (stream_take skip st) = bl" "outJob (stream_take skip st) = outJob st" "sent (stream_take skip st) = sent st"
      by (simp_all add: stream_take_def bl sk visited_def)
    have E: "seen s' = seen (ext st)" and K: "seen s' \<union> fst ` set bl = seen (ext st) \<union> fst ` set (bl @ [x])"
      using S True by auto
    have "fst ` set bl \<union> set (visited st) \<subseteq> reach load roots" using I(6) by simp
    then show ?thesis unfolding stream_inv_def V K unfolding E by (intro conjI I(1-5))
  next
    case False
    then have V: "visited (stream_take skip st) = fst x # visited st" "ext (stream_take skip st) = s'"
      "backlog (stream_take skip st) = bl" "outJob (stream_take skip st) = outJob st" "sent (stream_take skip st) = sent st"
      using assms(2) by (simp_all add: stream_take_def bl sk visited_def)
    have E: "seen s' = insert (fst x) (seen (ext st))" "fst x \<notin> seen (ext st)"
      and K: "seen s' \<union> fst ` set bl = seen (ext st) \<union> fst ` set (bl @ [x])"
      using S False by auto
    have "fst ` set bl \<union> set (fst x # visited st) \<subseteq> reach load roots" using I(6) by simp
    moreover have "seen s' = S0 \<union> set (fst x # visited st)" "distinct (fst x # visited st)"
      "set (fst x # visited st) \<inter> S0 = {}"
      using E I(1-3) by auto
    ultimately show ?thesis unfolding stream_inv_def V K by (intro conjI I(4,5))
  qed
qed

lemma inv_same:
  assumes "stream_inv load roots S0 st" "mset (visited st') = mset (visited st)" "seen (ext st') = seen (ext st)"
    and "fst ` set (backlog st') = fst ` set (backlog st) \<union> C" "C \<subseteq> reach load roots"
    and "\<forall>job \<in> set (opt_list (outJob st') @ sent st').
      job \<in> set (opt_list (outJob st) @ sent st) \<or>
      (ti_Tree job = tree_result load (ti_ID job) \<and> set (children load (ti_ID job)) \<subseteq> C)"
  shows "stream_inv load roots S0 st'"
proof -
  have V: "set (visited st') = set (visited st)" "distinct (visited st') = distinct (visited st)"
    by (fact mset_eq_setD [OF assms(2)], fact mset_eq_imp_distinct_iff [OF assms(2)])
  from assms(1) have I: "distinct (visited st)" "set (visited st) \<inter> S0 = {}" "seen (ext st) = S0 \<union> set (visited st)"
    "set roots \<subseteq> seen (ext st) \<union> fst ` set (backlog st)"
    "\<forall>job \<in> set (opt_list (outJob st) @ sent st). ti_Tree job = tree_result load (ti_ID job) \<and>
        set (children load (ti_ID job)) \<subseteq> seen (ext st) \<union> fst ` set (backlog st)"
    "fst ` set (backlog st) \<union> set (visited st) \<subseteq> reach load roots"
    unfolding stream_inv_def by - (elim conjE, assumption)+
  let ?K = "seen (ext st) \<union> (fst ` set (backlog st) \<union> C)"
  have "set roots \<subseteq> ?K" using I(4) by blast
  moreover have "\<forall>job \<in> set (opt_list (outJob st') @ sent st'). ti_Tree job = tree_result load (ti_ID job) \<and>
      set (children load (ti_ID job)) \<subseteq> ?K"
  proof
    fix job assume "job \<in> set (opt_list (outJob st') @ sent st')"
    with assms(6) consider "job \<in> set (opt_list (outJob st) @ sent st)"
      | "ti_Tree job = tree_result load (ti_ID job)" "set (children load (ti_ID job)) \<subseteq> C" by blast
    then show "ti_Tree job = tree_result load (ti_ID job) \<and> set (children load (ti_ID job)) \<subseteq> ?K"
    proof cases
      case 1
      with I(5) have "ti_Tree job = tree_result load (ti_ID job)"
        "set (children load (ti_ID job)) \<subseteq> seen (ext st) \<union> fst ` set (backlog st)" by blast+
      then show ?thesis by blast
    qed blast
  qed
  moreover have "fst ` set (backlog st) \<union> C \<union> set (visited st) \<subseteq> reach load roots" using I(6) assms(5) by blast
  ultimately show ?thesis unfolding stream_inv_def V assms(3,4) by (intro conjI I(1-3))
qed

lemma inv_receive:
  assumes "stream_inv load roots S0 st" "outJob st = None" "x \<in> set (outstanding st)"
  shows "stream_inv load roots S0 (stream_receive load x st)"
proof (rule inv_same [OF assms(1), where C = "set (children load (fst x))"])
  have "mset (map fst (outstanding st)) = add_mset (fst x) (mset (map fst (remove1 x (outstanding st))))"
    using assms(3) by (metis image_mset_add_mset insert_DiffM mset_map mset_remove1 set_mset_mset)
  then show "mset (visited (stream_receive load x st)) = mset (visited st)"
    by (simp add: visited_def receive_sel assms(2))
  have "fst x \<in> reach load roots"
    using assms(1,3) by (auto simp: stream_inv_def visited_def)
  then show "set (children load (fst x)) \<subseteq> reach load roots" by (auto intro: reach_children)
qed (auto simp: receive_sel image_Un image_image assms(2))

lemma inv_step:
  assumes "filterTrees skip consume load st st'" "stream_inv load roots S0 st"
  shows "stream_inv load roots S0 st'"
  using assms
proof (induction rule: filterTrees.cases)
  case (take_next st)
  then show ?case using inv_take by blast
next
  case (send_load st x)
  show ?case
    unfolding send_load(2)
    by (rule inv_same [where st = st and C = "{}"]) (use send_load in \<open>auto simp: visited_def\<close>)
next
  case (receive st x)
  then show ?case using inv_receive by blast
next
  case (send_out st job s')
  show ?case
    unfolding send_out(2)
    by (rule inv_same [where st = st and C = "{}"]) (use send_out consume_seen in \<open>auto simp: visited_def\<close>)
qed

lemma run_inv:
  assumes "stream_run skip consume load st0 st" "stream_inv load roots S0 st0"
  shows "stream_inv load roots S0 st"
  using assms by (induction rule: stream_run.induct) (auto dest: inv_step)

text \<open>A stream that has ended has sent every reachable tree that was not known before exactly once, if
  none was known before.\<close>

lemma run_visits:
  assumes "stream_run skip consume load (stream_init roots s) st" "stream_done st" "seen s = {}"
  shows "distinct (map ti_ID (sent st)) \<and> ti_ID ` set (sent st) = reach load roots \<and>
    (\<forall>job \<in> set (sent st). ti_Tree job = tree_result load (ti_ID job)) \<and> seen (ext st) = reach load roots"
proof -
  have inv: "stream_inv load roots {} st" using run_inv [OF assms(1) inv_init] assms(3) by simp
  have fin: "visited st = map ti_ID (sent st)" "backlog st = []" "outJob st = None"
    using assms(2) by (simp_all add: stream_done_def visited_def)
  have sub: "ti_ID ` set (sent st) \<subseteq> reach load roots" "seen (ext st) = ti_ID ` set (sent st)"
    using inv by (auto simp: stream_inv_def fin)
  have "reach load roots \<subseteq> ti_ID ` set (sent st)"
  proof (rule reach_least)
    show "set roots \<subseteq> ti_ID ` set (sent st)" using inv sub by (simp add: stream_inv_def fin)
  next
    fix t assume "t \<in> ti_ID ` set (sent st)"
    then show "set (children load t) \<subseteq> ti_ID ` set (sent st)" using inv sub by (auto simp: stream_inv_def fin)
  qed
  with inv sub show ?thesis by (auto simp: stream_inv_def fin)
qed

end

definition seen_trees :: "BlobSet \<Rightarrow> ID set" where
  "seen_trees blobs = {i. \<lparr>bID = i, bType = TreeBlob\<rparr> \<in> set blobs}"

definition tree_data :: "Tree \<Rightarrow> ID set" where
  "tree_data tree = (\<Union>node \<in> set (Nodes tree). set (node_blobs node))"

lemma used_consume_Ok:
  assumes "used_consume job blobs = Ok blobs'"
  shows "\<exists>tree. ti_Tree job = Ok tree \<and>
    set blobs' = set blobs \<union> (\<lambda>b. \<lparr>bID = b, bType = DataBlob\<rparr>) ` tree_data tree"
proof -
  obtain tree where t: "ti_Tree job = Ok tree" using assms by (auto simp: used_consume_def split: res.splits)
  have ins: "set (fold (\<lambda>b bs. BlobSet_Insert bs \<lparr>bID = b, bType = DataBlob\<rparr>) ids bs) =
      set bs \<union> (\<lambda>b. \<lparr>bID = b, bType = DataBlob\<rparr>) ` set ids" for ids bs
    by (induction ids arbitrary: bs) auto
  have "set (fold (\<lambda>node bs. fold (\<lambda>b bs. BlobSet_Insert bs \<lparr>bID = b, bType = DataBlob\<rparr>) (node_blobs node) bs) ns bs) =
      set bs \<union> (\<lambda>b. \<lparr>bID = b, bType = DataBlob\<rparr>) ` (\<Union>node \<in> set ns. set (node_blobs node))" for ns bs
    by (induction ns arbitrary: bs) (auto simp: ins)
  from this [of "Nodes tree" blobs] assms t show ?thesis by (simp add: used_consume_def tree_data_def)
qed

interpretation used: tree_visitor used_skip used_consume seen_trees
proof
  show "used_skip i s = (b, s') \<Longrightarrow> (b \<longleftrightarrow> i \<in> seen_trees s) \<and> seen_trees s' = insert i (seen_trees s)" for i s b s'
    by (auto simp: used_skip_def seen_trees_def Let_def)
  show "used_consume job s = Ok s' \<Longrightarrow> seen_trees s' = seen_trees s" for job s s'
    using used_consume_Ok [of job s s'] by (auto simp: seen_trees_def)
qed

text \<open>The data blobs come from the sent trees.\<close>

definition data_blobs :: "BlobSet \<Rightarrow> ID set" where
  "data_blobs blobs = {i. \<lparr>bID = i, bType = DataBlob\<rparr> \<in> set blobs}"

definition item_data :: "TreeItem \<Rightarrow> ID set" where
  "item_data job = (case ti_Tree job of Ok tree \<Rightarrow> tree_data tree | _ \<Rightarrow> {})"

lemma stream_take_ext:
  assumes "backlog st \<noteq> []"
  shows "sent (stream_take used_skip st) = sent st \<and> data_blobs (ext (stream_take used_skip st)) = data_blobs (ext st) \<and>
    {h \<in> set (ext (stream_take used_skip st)). bType h = InvalidBlob} = {h \<in> set (ext st). bType h = InvalidBlob}"
  by (auto simp: stream_take_def used_skip_def Let_def data_blobs_def)

lemma used_data:
  assumes "stream_run used_skip used_consume load (stream_init roots blobs) st"
  shows "data_blobs (ext st) = data_blobs blobs \<union> (\<Union>job \<in> set (sent st). item_data job) \<and>
    {h \<in> set (ext st). bType h = InvalidBlob} = {h \<in> set blobs. bType h = InvalidBlob} \<and>
    (\<forall>job \<in> set (sent st). is_ok (ti_Tree job))"
  using assms
proof (induction "stream_init roots blobs" st rule: stream_run.induct)
  case run_refl
  show ?case by (simp add: stream_init_def)
next
  case (run_step st' st'')
  note IH = run_step.hyps(2)
  from run_step.hyps(3) show ?case
  proof cases
    case take_next
    then show ?thesis using IH stream_take_ext [of st'] by simp
  next
    case (send_load x)
    then show ?thesis using IH by simp
  next
    case (receive x)
    then show ?thesis using IH by (simp add: receive_sel)
  next
    case (send_out job s')
    then obtain tree where "ti_Tree job = Ok tree"
      "set s' = set (ext st') \<union> (\<lambda>b. \<lparr>bID = b, bType = DataBlob\<rparr>) ` tree_data tree"
      using used_consume_Ok by blast
    then have "data_blobs s' = data_blobs (ext st') \<union> item_data job" "is_ok (ti_Tree job)"
      "{h \<in> set s'. bType h = InvalidBlob} = {h \<in> set (ext st'). bType h = InvalidBlob}"
      by (auto simp: data_blobs_def item_data_def)
    then show ?thesis using IH send_out(1) by auto
  qed
qed

section \<open>Binary search and sorted trees\<close>

lemma search_loop_range: "i \<le> j \<Longrightarrow> i \<le> search_loop f i j \<and> search_loop f i j \<le> j"
proof (induction f i j rule: search_loop.induct)
  case (1 f i j)
  show ?case
  proof (cases "i < j")
    case True
    let ?h = "(i + j) div 2"
    have h: "i \<le> ?h" "?h < j" using True by auto
    have eq: "search_loop f i j = (if \<not> f ?h then search_loop f (?h + 1) j else search_loop f i ?h)"
      using True by (subst search_loop.simps) (simp add: Let_def)
    show ?thesis
    proof (cases "f ?h")
      case fh: True
      have "i \<le> search_loop f i ?h \<and> search_loop f i ?h \<le> ?h" using "1.IH"(2) [OF True refl] fh h by simp
      then show ?thesis unfolding eq using fh h by simp
    next
      case fh: False
      have "?h + 1 \<le> search_loop f (?h + 1) j \<and> search_loop f (?h + 1) j \<le> j" using "1.IH"(1) [OF True refl fh] h by simp
      then show ?thesis unfolding eq using fh h by simp
    qed
  next
    case False
    then have "search_loop f i j = i" by (subst search_loop.simps) simp
    then show ?thesis using "1.prems" False by simp
  qed
qed

text \<open>For a monotone predicate the binary search finds the first index at which it holds.\<close>

lemma search_loop_least:
  assumes "\<forall>a b. a \<le> b \<and> b < n \<and> f a \<longrightarrow> f b" "j \<le> n" "i \<le> j" "\<forall>k < i. \<not> f k" "\<forall>k. j \<le> k \<and> k < n \<longrightarrow> f k"
  shows "(\<forall>k < search_loop f i j. \<not> f k) \<and> (\<forall>k. search_loop f i j \<le> k \<and> k < n \<longrightarrow> f k)"
  using assms
proof (induction f i j rule: search_loop.induct)
  case (1 f i j)
  show ?case
  proof (cases "i < j")
    case True
    let ?h = "(i + j) div 2"
    have h: "i \<le> ?h" "?h < j" "?h < n" using True "1.prems"(2) by auto
    have eq: "search_loop f i j = (if \<not> f ?h then search_loop f (?h + 1) j else search_loop f i ?h)"
      using True by (subst search_loop.simps) (simp add: Let_def)
    show ?thesis
    proof (cases "f ?h")
      case fh: True
      have K: "\<forall>k. ?h \<le> k \<and> k < n \<longrightarrow> f k" using "1.prems"(1) fh by blast
      have nn: "\<not> \<not> f ?h" using fh by blast
      from "1.IH"(2) [OF True refl nn "1.prems"(1) less_imp_le [OF h(3)] h(1) "1.prems"(4) K]
      show ?thesis unfolding eq if_not_P [OF nn] .
    next
      case fh: False
      have K: "\<forall>k < ?h + 1. \<not> f k"
      proof (intro allI impI notI)
        fix k assume "k < ?h + 1" "f k"
        then have "k \<le> ?h" by linarith
        with "1.prems"(1) h(3) \<open>f k\<close> fh show False by blast
      qed
      have le: "?h + 1 \<le> j" using h by linarith
      from "1.IH"(1) [OF True refl fh "1.prems"(1,2) le K "1.prems"(5)]
      show ?thesis unfolding eq if_P [OF fh] .
    qed
  next
    case False
    then have "search_loop f i j = i" by (subst search_loop.simps) simp
    moreover have "i = j" using False "1.prems"(3) by linarith
    ultimately show ?thesis using "1.prems"(4,5) by metis
  qed
qed

definition names_sorted :: "Tree \<Rightarrow> bool" where
  "names_sorted t \<longleftrightarrow> sorted_wrt (<) (map n_Name (Nodes t))"

lemma find_skip: "\<forall>n \<in> set xs. \<not> P n \<Longrightarrow> find P (xs @ ys) = find P ys"
  by (induction xs) auto

lemma find_sorted_at:
  assumes "p \<le> length ns" "\<forall>k < p. n_Name (ns ! k) < name" "\<forall>k. p \<le> k \<and> k < length ns \<longrightarrow> name \<le> n_Name (ns ! k)"
    and lt: "sorted_wrt (<) (map n_Name ns)"
  shows "find (\<lambda>n. n_Name n = name) ns = (if p < length ns \<and> n_Name (ns ! p) = name then Some (ns ! p) else None)"
proof -
  have "\<forall>n \<in> set (take p ns). \<not> n_Name n = name" using assms(1,2) by (fastforce simp: in_set_conv_nth)
  from find_skip [OF this, of "drop p ns"]
  have 1: "find (\<lambda>n. n_Name n = name) ns = find (\<lambda>n. n_Name n = name) (drop p ns)" by simp
  show ?thesis
  proof (cases "p < length ns")
    case True
    then have d: "drop p ns = ns ! p # drop (Suc p) ns" by (simp add: Cons_nth_drop_Suc)
    have "name \<le> n_Name (ns ! p)" using assms(3) True by blast
    moreover have "\<forall>n \<in> set (drop (Suc p) ns). n_Name (ns ! p) < n_Name n"
      using lt True by (auto simp: in_set_conv_nth sorted_wrt_iff_nth_less)
    ultimately have "\<forall>n \<in> set (drop (Suc p) ns). \<not> n_Name n = name" by fastforce
    from find_skip [OF this, of "[]"] True show ?thesis by (simp add: 1 d)
  next
    case False
    then show ?thesis by (simp add: 1)
  qed
qed

lemma tree_find_sorted:
  assumes "names_sorted t"
  shows "\<exists>pos. tree_find t name = (pos, find (\<lambda>n. n_Name n = name) (Nodes t)) \<and> pos \<le> length (Nodes t) \<and>
    (\<forall>n \<in> set (take pos (Nodes t)). n_Name n < name) \<and> (\<forall>n \<in> set (drop pos (Nodes t)). name \<le> n_Name n)"
proof -
  let ?ns = "Nodes t"
  define f where "f i \<longleftrightarrow> n_Name (Nodes t ! i) \<ge> name" for i
  define p where "p = search_loop f 0 (length ?ns)"
  have s: "sorted_wrt (<) (map n_Name ?ns)" using assms by (simp add: names_sorted_def)
  have mono: "\<forall>a b. a \<le> b \<and> b < length ?ns \<and> f a \<longrightarrow> f b"
  proof (intro allI impI)
    fix a b assume *: "a \<le> b \<and> b < length ?ns \<and> f a"
    then have "n_Name (?ns ! a) \<le> n_Name (?ns ! b)"
      using s by (cases "a = b") (auto simp: sorted_wrt_iff_nth_less intro: less_imp_le)
    with * show "f b" by (auto simp: f_def)
  qed
  have "(\<forall>k < p. \<not> f k) \<and> (\<forall>k. p \<le> k \<and> k < length ?ns \<longrightarrow> f k)"
    unfolding p_def by (rule search_loop_least [OF mono]) auto
  moreover have p1: "p \<le> length ?ns" using search_loop_range [of 0 "length ?ns" f] by (simp add: p_def)
  ultimately have p: "\<forall>k < p. n_Name (?ns ! k) < name" "\<forall>k. p \<le> k \<and> k < length ?ns \<longrightarrow> name \<le> n_Name (?ns ! k)"
    by (auto simp: f_def not_le)
  have eq: "tree_find t name =
      (if p < length ?ns \<and> n_Name (?ns ! p) = name then (p, Some (?ns ! p)) else (p, None))"
    by (simp add: tree_find_def p_def f_def [abs_def] Let_def)
  have "tree_find t name = (p, find (\<lambda>n. n_Name n = name) ?ns)"
    unfolding eq find_sorted_at [OF p1 p s] by simp
  moreover have "\<forall>n \<in> set (take p ?ns). n_Name n < name" using p(1) p1 by (auto simp: in_set_conv_nth)
  moreover have "\<forall>n \<in> set (drop p ?ns). name \<le> n_Name n" using p(2) by (auto simp: in_set_conv_nth)
  ultimately show ?thesis using p1 by blast
qed

lemma used_blobs_split:
  "set blobs = {h \<in> set blobs. bType h = InvalidBlob} \<union> (\<lambda>i. \<lparr>bID = i, bType = TreeBlob\<rparr>) ` seen_trees blobs \<union>
    (\<lambda>i. \<lparr>bID = i, bType = DataBlob\<rparr>) ` data_blobs blobs"
proof -
  have "h \<in> {h \<in> set blobs. bType h = InvalidBlob} \<union> (\<lambda>i. \<lparr>bID = i, bType = TreeBlob\<rparr>) ` seen_trees blobs \<union>
      (\<lambda>i. \<lparr>bID = i, bType = DataBlob\<rparr>) ` data_blobs blobs" if "h \<in> set blobs" for h
  proof -
    obtain i t where "h = \<lparr>bID = i, bType = t\<rparr>" by (cases h)
    with that show ?thesis by (cases t) (auto simp: seen_trees_def data_blobs_def)
  qed
  then show ?thesis by (auto simp: seen_trees_def data_blobs_def)
qed

lemma reach_results:
  "(\<Union>job \<in> J. item_data job) =
    (\<Union>t \<in> ti_ID ` J. case load t of Ok (Some tree) \<Rightarrow> tree_data tree | _ \<Rightarrow> {})"
  if "\<forall>job \<in> J. ti_Tree job = tree_result load (ti_ID job)"
proof -
  have "item_data job = (case load (ti_ID job) of Ok (Some tree) \<Rightarrow> tree_data tree | _ \<Rightarrow> {})" if "job \<in> J" for job
    using \<open>\<forall>job \<in> J. ti_Tree job = tree_result load (ti_ID job)\<close> that
    by (auto simp: item_data_def tree_result_def split: res.splits option.splits)
  then show ?thesis by simp
qed

section \<open>Properties\<close>

text \<open>C10: Whatever the order in which the loaders answer, when \<open>FindUsedBlobs\<close> ends without an error it
  has added exactly the trees that are reachable from the roots and the data blobs of their files,
  it has loaded each of the trees exactly once, and loading succeeded for each. No tree is in the set
  before.\<close>

theorem FindUsedBlobs_exact:
  assumes "FindUsedBlobs load roots blobs st" "\<forall>h \<in> set blobs. bType h \<noteq> TreeBlob"
  shows "set (ext st) = set blobs \<union> (\<lambda>t. \<lparr>bID = t, bType = TreeBlob\<rparr>) ` reach load roots \<union>
      (\<lambda>b. \<lparr>bID = b, bType = DataBlob\<rparr>) `
        (\<Union>t \<in> reach load roots. case load t of Ok (Some tree) \<Rightarrow> tree_data tree | _ \<Rightarrow> {}) \<and>
    distinct (map ti_ID (sent st)) \<and> ti_ID ` set (sent st) = reach load roots \<and>
    (\<forall>t \<in> reach load roots. is_ok (tree_result load t))"
proof -
  have run: "stream_run used_skip used_consume load (stream_init roots blobs) st" "stream_done st"
    using assms(1) by (auto simp: FindUsedBlobs_def)
  have none: "seen_trees blobs = {}" using assms(2) by (auto simp: seen_trees_def)
  have V: "distinct (map ti_ID (sent st))" "ti_ID ` set (sent st) = reach load roots"
    "\<forall>job \<in> set (sent st). ti_Tree job = tree_result load (ti_ID job)" "seen_trees (ext st) = reach load roots"
    using used.run_visits [OF run none] by auto
  note D = used_data [OF run(1)]
  have "\<forall>t \<in> reach load roots. is_ok (tree_result load t)" using D V(2,3) by (metis (no_types, lifting) imageE)
  moreover have "data_blobs (ext st) = data_blobs blobs \<union>
      (\<Union>t \<in> reach load roots. case load t of Ok (Some tree) \<Rightarrow> tree_data tree | _ \<Rightarrow> {})"
    using D reach_results [OF V(3)] V(2) by simp
  ultimately show ?thesis
    using V used_blobs_split [of "ext st"] used_blobs_split [of blobs] D none by (auto simp: image_Un)
qed


text \<open>C34: Insertion into a tree whose names are in strictly increasing order fails exactly if the name
  is present; otherwise the names stay in order, the node is found under its name, and what \<open>Find\<close>
  returns for every other name is unchanged.\<close>

theorem Tree_Insert_Find:
  assumes "names_sorted t"
  shows "case Tree_Insert t node of
      Ok t' \<Rightarrow> Tree_Find (Some t) (n_Name node) = None \<and> names_sorted t' \<and> Tree_Find (Some t') (n_Name node) = Some node \<and>
        (\<forall>name. name \<noteq> n_Name node \<longrightarrow> Tree_Find (Some t') name = Tree_Find (Some t) name)
    | Err e \<Rightarrow> Tree_Find (Some t) (n_Name node) \<noteq> None
    | Panic m \<Rightarrow> False"
proof -
  have F: "Tree_Find (Some u) name = find (\<lambda>n. n_Name n = name) (Nodes u)" if "names_sorted u" for u name
    using tree_find_sorted [OF that, of name] by (auto simp: Tree_Find_def)
  obtain pos where pos: "tree_find t (n_Name node) = (pos, find (\<lambda>n. n_Name n = n_Name node) (Nodes t))"
    "\<forall>n \<in> set (take pos (Nodes t)). n_Name n < n_Name node" "\<forall>n \<in> set (drop pos (Nodes t)). n_Name node \<le> n_Name n"
    using tree_find_sorted [OF assms] by blast
  show ?thesis
  proof (cases "find (\<lambda>n. n_Name n = n_Name node) (Nodes t)")
    case (Some n)
    then show ?thesis using pos(1) F [OF assms] by (simp add: Tree_Insert_def)
  next
    case None
    let ?t = "t\<lparr>Nodes := take pos (Nodes t) @ node # drop pos (Nodes t)\<rparr>"
    have "n_Name n \<noteq> n_Name node" if "n \<in> set (drop pos (Nodes t))" for n
      using None in_set_dropD [OF that] by (auto simp: find_None_iff)
    then have "\<forall>n \<in> set (drop pos (Nodes t)). n_Name node < n_Name n" using pos(3) by (metis order_le_less)
    moreover have "sorted_wrt (<) (map n_Name (take pos (Nodes t)) @ map n_Name (drop pos (Nodes t)))"
      using assms by (simp add: names_sorted_def flip: map_append)
    ultimately have s: "names_sorted ?t"
      using pos(2) by (simp add: names_sorted_def sorted_wrt_append)
    have skip: "find P (xs @ node # ys) = find P (xs @ ys)" if "\<not> P node" for P xs ys
      using that by (induction xs) auto
    have "find (\<lambda>n. n_Name n = n_Name node) (take pos (Nodes t) @ node # drop pos (Nodes t)) = Some node"
      using find_skip [of "take pos (Nodes t)" "\<lambda>n. n_Name n = n_Name node"] pos(2) by fastforce
    moreover have "find (\<lambda>n. n_Name n = name) (take pos (Nodes t) @ node # drop pos (Nodes t)) =
        find (\<lambda>n. n_Name n = name) (Nodes t)" if "name \<noteq> n_Name node" for name
      using skip [of "\<lambda>n. n_Name n = name"] that by simp
    ultimately show ?thesis
      using pos(1) None s F [OF assms] F [OF s] by (simp add: Tree_Insert_def)
  qed
qed

text \<open>A file with one blob for concrete evaluations.\<close>

definition toy_node :: "string \<Rightarrow> ID \<Rightarrow> Node" where
  "toy_node name b =
     \<lparr>n_Name = name, n_Type = ''file'', n_Mode = 0, n_ModTime = 0, n_AccessTime = 0, n_ChangeTime = 0, n_UID = 0, n_GID = 0,
      n_User = '''', n_Group = '''', n_Inode = 0, n_DeviceID = 0, n_Size = 1, n_Links = 1, n_LinkTarget = '''',
      n_ExtendedAttributes = [], n_Device = 0, n_Content = Some [b], n_Subtree = None, n_Error = '''', n_Path = ''''\<rparr>"

theorem Tree_Insert_Find_witness:
  "\<exists>t'. Tree_Insert NewTree (toy_node ''a'' [7]) = Ok t' \<and> Tree_Find (Some t') ''a'' = Some (toy_node ''a'' [7])"
proof -
  have "names_sorted NewTree" by (simp add: names_sorted_def NewTree_def)
  from Tree_Insert_Find [OF this, of "toy_node ''a'' [7]"]
  have "case Tree_Insert NewTree (toy_node ''a'' [7]) of Ok t' \<Rightarrow> Tree_Find (Some t') ''a'' = Some (toy_node ''a'' [7])
    | Err e \<Rightarrow> Tree_Find (Some NewTree) ''a'' \<noteq> None | Panic m \<Rightarrow> False"
    by (auto simp: toy_node_def split: res.splits)
  moreover have "Tree_Find (Some NewTree) ''a'' = None"
    by (simp add: Tree_Find_def tree_find_def NewTree_def Let_def)
  ultimately show ?thesis by (auto split: res.splits)
qed

theorem FindUsedBlobs_exact_witness:
  "\<exists>st. FindUsedBlobs (\<lambda>i. Ok (Some \<lparr>Nodes = [toy_node ''a'' [7]]\<rparr>)) [[1]] [] st \<and> ti_ID ` set (sent st) = {[1]} \<and>
    \<lparr>bID = [1], bType = TreeBlob\<rparr> \<in> set (ext st)"
proof -
  let ?load = "\<lambda>i :: ID. Ok (Some \<lparr>Nodes = [toy_node ''a'' [7]]\<rparr>)"
  let ?f = "filterTrees used_skip used_consume ?load" and ?run = "stream_run used_skip used_consume ?load"
  define s0 where "s0 = stream_init [[1]] ([] :: BlobSet)"
  define s1 where "s1 = stream_take used_skip s0"
  define s2 where "s2 = s1\<lparr>outstanding := outstanding s1 @ [([1], 0)], nextLoad := None\<rparr>"
  define s3 where "s3 = stream_receive ?load ([1], 0) s2"
  define job where "job = \<lparr>ti_ID = [1], ti_Tree = Ok \<lparr>Nodes = [toy_node ''a'' [7]]\<rparr>\<rparr>"
  have s1: "nextLoad s1 = Some ([1], 0)" "backlog s1 = []" "outstanding s1 = []" "outJob s1 = None" "sent s1 = []"
    by (simp_all add: s1_def s0_def stream_take_def stream_init_def used_skip_def)
  have s3: "nextLoad s3 = None" "backlog s3 = []" "outstanding s3 = []" "outJob s3 = Some job" "sent s3 = []"
    by (simp_all add: s3_def s2_def s1 receive_sel children_def tree_result_def job_def Subtrees_def toy_node_def)
  obtain bs where bs: "used_consume job (ext s3) = Ok bs" by (simp add: used_consume_def job_def)
  define s4 where "s4 = s3\<lparr>outJob := None, sent := sent s3 @ [job], ext := bs\<rparr>"
  have "?f s0 s1" unfolding s1_def by (rule take_next) (simp_all add: s0_def stream_init_def)
  moreover have "?f s1 s2" unfolding s2_def by (rule send_load [OF s1(1)])
  moreover have "?f s2 s3" unfolding s3_def by (rule receive) (simp_all add: s2_def s1)
  moreover have "?f s3 s4" unfolding s4_def by (rule send_out [where consume = used_consume]) (simp_all add: s3 bs)
  ultimately have "?run s0 s4" by (meson stream_run.intros)
  then have F: "FindUsedBlobs ?load [[1]] [] s4"
    by (simp add: FindUsedBlobs_def s0_def stream_done_def s4_def s3)
  have "ti_ID ` set (sent s4) = {[1]}" by (simp add: s4_def s3 job_def)
  moreover have "\<lparr>bID = [1], bType = TreeBlob\<rparr> \<in> set (ext s4)"
  proof -
    have "[1] \<in> reach ?load [[1]]" by (rule reach_root) simp
    moreover have "set (ext s4) \<supseteq> (\<lambda>t. \<lparr>bID = t, bType = TreeBlob\<rparr>) ` reach ?load [[1]]"
      using FindUsedBlobs_exact [OF F] by auto
    ultimately show ?thesis by blast
  qed
  ultimately show ?thesis using F by blast
qed

end
