(* ===== verification/Walker.thy ===== *)
theory Walker
  imports Trees
begin

text \<open>
  \<open>walker/walker.go\<close>: the walk over all nodes of a snapshot.

  The callback works on the caller's variables \<open>'s\<close> and returns \<open>ignore\<close> and an error. Loading a tree is
  the parameter \<open>load\<close>; a tree that could not be loaded is a nil pointer, and using it is a panic. The
  recursion follows the loaded trees, so \<open>walk\<close> takes the depth it may descend; below that it returns
  \<open>None\<close>.
\<close>

type_synonym 's WalkFunc = "ID \<Rightarrow> string \<Rightarrow> Node option \<Rightarrow> error option \<Rightarrow> 's \<Rightarrow> (bool \<times> error option) \<times> 's"

text \<open>What \<open>walk\<close> returns, with the set of ignored trees and the caller's variables after the call.\<close>

type_synonym 's walked = "((bool \<times> error option) \<times> IDSet \<times> 's) res"

definition path_Join :: "string \<Rightarrow> string \<Rightarrow> string" where
  "path_Join a b =
     (if a = '''' \<and> b = '''' then '''' else if a = '''' then filepath_Clean b
      else if b = '''' then filepath_Clean a else filepath_Clean (a @ ''/'' @ b))"

definition load_err :: "Tree res \<Rightarrow> error option" where
  "load_err r = (case r of Err e \<Rightarrow> Some e | _ \<Rightarrow> None)"

definition load_tree :: "Tree res \<Rightarrow> Tree option" where
  "load_tree r = (case r of Ok t \<Rightarrow> Some t | _ \<Rightarrow> None)"

text \<open>The loop over the nodes; \<open>rec\<close> is the recursive call.\<close>

primrec walk_nodes ::
  "(string \<Rightarrow> ID \<Rightarrow> Tree option \<Rightarrow> IDSet \<Rightarrow> 's \<Rightarrow> 's walked option) \<Rightarrow> (ID \<Rightarrow> Tree res) \<Rightarrow> 's WalkFunc \<Rightarrow> string \<Rightarrow> ID
    \<Rightarrow> Node list \<Rightarrow> bool \<Rightarrow> IDSet \<Rightarrow> 's \<Rightarrow> 's walked option" where
  "walk_nodes rec load walkFn prfx parentTreeID [] allNodesIgnored ignoreTrees s =
     Some (Ok ((allNodesIgnored, None), ignoreTrees, s))"
| "walk_nodes rec load walkFn prfx parentTreeID (node # nodes) allNodesIgnored ignoreTrees s =
     (let p = path_Join prfx (n_Name node);
          stop = (\<lambda>ig e it s. Some (Ok ((ig, e), it, s))) in
      if n_Type node = '''' then stop False (Some (Errorf ''node type is empty for node %q'')) ignoreTrees s
      else if n_Type node \<noteq> ''dir'' then
        (case walkFn parentTreeID p (Some node) None s of
           ((ignore, Some err), s') \<Rightarrow>
             if err = ErrSkipNode then stop allNodesIgnored None ignoreTrees s' else stop False (Some err) ignoreTrees s'
         | ((ignore, None), s') \<Rightarrow>
             walk_nodes rec load walkFn prfx parentTreeID nodes (if \<not> ignore then False else allNodesIgnored) ignoreTrees s')
      else
        (case n_Subtree node of
           None \<Rightarrow> stop False (Some (Errorf ''subtree for node %v in tree %v is nil'')) ignoreTrees s
         | Some sub \<Rightarrow>
             if IDSet_Has ignoreTrees sub then
               walk_nodes rec load walkFn prfx parentTreeID nodes allNodesIgnored ignoreTrees s
             else
               (case walkFn parentTreeID p (Some node) (load_err (load sub)) s of
                  ((ignore, Some err), s') \<Rightarrow>
                    if err = ErrSkipNode then
                      walk_nodes rec load walkFn prfx parentTreeID nodes allNodesIgnored
                        (if ignore then IDSet_Insert ignoreTrees sub else ignoreTrees) s'
                    else stop False (Some err) ignoreTrees s'
                | ((ignore, None), s') \<Rightarrow>
                    (case rec p sub (load_tree (load sub)) (if ignore then IDSet_Insert ignoreTrees sub else ignoreTrees) s' of
                       None \<Rightarrow> None
                     | Some (Err e) \<Rightarrow> Some (Err e)
                     | Some (Panic m) \<Rightarrow> Some (Panic m)
                     | Some (Ok ((ignore2, Some err), it2, s2)) \<Rightarrow> stop False (Some err) it2 s2
                     | Some (Ok ((ignore2, None), it2, s2)) \<Rightarrow>
                         walk_nodes rec load walkFn prfx parentTreeID nodes
                           (if \<not> ignore \<or> \<not> ignore2 then False else allNodesIgnored)
                           (if ignore2 then IDSet_Insert it2 sub else it2) s2))))"

primrec walk ::
  "nat \<Rightarrow> (ID \<Rightarrow> Tree res) \<Rightarrow> 's WalkFunc \<Rightarrow> string \<Rightarrow> ID \<Rightarrow> Tree option \<Rightarrow> IDSet \<Rightarrow> 's \<Rightarrow> 's walked option" where
  "walk 0 load walkFn prfx parentTreeID tree ignoreTrees s = None"
| "walk (Suc d) load walkFn prfx parentTreeID tree ignoreTrees s =
     (case tree of
        None \<Rightarrow> Some (Panic ''nil pointer dereference'')
      | Some t \<Rightarrow>
          walk_nodes (walk d load walkFn) load walkFn prfx parentTreeID (go_sort Nodes_Less (Nodes t))
            (length (Nodes t) \<noteq> 0) ignoreTrees s)"

definition Walk :: "nat \<Rightarrow> (ID \<Rightarrow> Tree res) \<Rightarrow> ID \<Rightarrow> IDSet \<Rightarrow> 's WalkFunc \<Rightarrow> 's \<Rightarrow> (error option \<times> IDSet \<times> 's) res option" where
  "Walk d load root ignoreTrees walkFn s =
     (case walkFn root ''/'' None (load_err (load root)) s of
        ((ignore, Some err), s') \<Rightarrow> Some (Ok (if err = ErrSkipNode then None else Some err, ignoreTrees, s'))
      | ((ignore, None), s') \<Rightarrow>
          map_option (map_r (\<lambda>((ignore2, eo), it, s2). (eo, it, s2)))
            (walk d load walkFn ''/'' root (load_tree (load root)) ignoreTrees s'))"

section \<open>The nodes of a tree in order\<close>

text \<open>The calls of the callback that visit everything below a tree, to the given depth.\<close>

primrec listing :: "nat \<Rightarrow> (ID \<Rightarrow> Tree res) \<Rightarrow> string \<Rightarrow> ID \<Rightarrow> Tree \<Rightarrow> (ID \<times> string \<times> Node) list option" where
  "listing 0 load prfx parent t = None"
| "listing (Suc d) load prfx parent t =
     map_option concat (those (map (\<lambda>node.
       let p = path_Join prfx (n_Name node) in
       if n_Type node = '''' then None
       else if n_Type node \<noteq> ''dir'' then Some [(parent, p, node)]
       else
         (case n_Subtree node of
            None \<Rightarrow> None
          | Some sub \<Rightarrow>
              (case load sub of
                 Ok st \<Rightarrow> map_option (\<lambda>l. (parent, p, node) # l) (listing d load p sub st)
               | _ \<Rightarrow> None))) (go_sort Nodes_Less (Nodes t))))"

definition visit_all :: "(ID \<Rightarrow> string \<Rightarrow> Node option \<Rightarrow> 's \<Rightarrow> 's) \<Rightarrow> 's WalkFunc" where
  "visit_all f parent p node err s = ((False, None), f parent p node s)"

definition visit_list :: "(ID \<Rightarrow> string \<Rightarrow> Node option \<Rightarrow> 's \<Rightarrow> 's) \<Rightarrow> (ID \<times> string \<times> Node) list \<Rightarrow> 's \<Rightarrow> 's" where
  "visit_list f l s = fold (\<lambda>(parent, p, node). f parent p (Some node)) l s"

lemma visit_list_append: "visit_list f (a @ b) s = visit_list f b (visit_list f a s)"
  by (simp add: visit_list_def)

lemma walk_listing:
  "listing d load prfx parent t = Some l \<Longrightarrow>
    walk d load (visit_all f) prfx parent (Some t) [] s = Some (Ok ((False, None), [], visit_list f l s))"
proof (induction d arbitrary: prfx parent t l s)
  case (Suc d)
  let ?g = "\<lambda>node.
       let p = path_Join prfx (n_Name node) in
       if n_Type node = '''' then None
       else if n_Type node \<noteq> ''dir'' then Some [(parent, p, node)]
       else
         (case n_Subtree node of
            None \<Rightarrow> None
          | Some sub \<Rightarrow>
              (case load sub of
                 Ok st \<Rightarrow> map_option (\<lambda>l. (parent, p, node) # l) (listing d load p sub st)
               | _ \<Rightarrow> None))"
  have nodes: "those (map ?g ns) = Some ls \<Longrightarrow>
    walk_nodes (walk d load (visit_all f)) load (visit_all f) prfx parent ns ani [] s =
      Some (Ok ((ani \<and> ns = [], None), [], visit_list f (concat ls) s))" for ns ls ani s
  proof (induction ns arbitrary: ls ani s)
    case Nil
    then show ?case by (simp add: visit_list_def)
  next
    case (Cons node ns)
    from Cons.prems obtain l1 ls' where l1: "?g node = Some l1" "those (map ?g ns) = Some ls'" "ls = l1 # ls'"
      by (auto split: option.splits)
    note IH = Cons.IH [OF l1(2)]
    show ?case
    proof (cases "n_Type node = ''dir''")
      case False
      with l1(1) have "n_Type node \<noteq> ''''" "l1 = [(parent, path_Join prfx (n_Name node), node)]"
        by (auto simp: Let_def split: if_splits)
      with False IH l1(3) show ?thesis by (simp add: Let_def visit_all_def visit_list_def)
    next
      case True
      with l1(1) obtain sub st l2 where sub: "n_Subtree node = Some sub" "load sub = Ok st"
        "listing d load (path_Join prfx (n_Name node)) sub st = Some l2"
        "l1 = (parent, path_Join prfx (n_Name node), node) # l2"
        by (auto simp: Let_def split: option.splits res.splits)
      note W = Suc.IH [OF sub(3)]
      from True sub IH l1(3) W show ?thesis
        by (simp add: Let_def visit_all_def [of f] load_err_def load_tree_def visit_list_def)
    qed
  qed
  from Suc.prems obtain ls where ls: "those (map ?g (go_sort Nodes_Less (Nodes t))) = Some ls" "l = concat ls" by auto
  have "length (Nodes t) \<noteq> 0 \<and> go_sort Nodes_Less (Nodes t) = [] \<longleftrightarrow> False" by (metis length_0_conv length_go_sort)
  then show ?case using nodes [OF ls(1)] ls(2) by simp
qed simp

lemma those_mono:
  assumes "those (map g ns) = Some ls" "\<And>n l. g n = Some l \<Longrightarrow> h n = Some l"
  shows "those (map h ns) = Some ls"
  using assms(1)
proof (induction ns arbitrary: ls)
  case (Cons n ns)
  then obtain l ls' where "g n = Some l" "those (map g ns) = Some ls'" "ls = l # ls'" by (auto split: option.splits)
  then show ?case using Cons.IH assms(2) by simp
qed simp

lemma listing_Suc: "listing d load prfx parent t = Some l \<Longrightarrow> listing (Suc d) load prfx parent t = Some l"
proof (induction d arbitrary: prfx parent t l)
  case (Suc d)
  from Suc.prems obtain ls where "l = concat ls"
    and ls: "those (map (\<lambda>node.
       let p = path_Join prfx (n_Name node) in
       if n_Type node = '''' then None
       else if n_Type node \<noteq> ''dir'' then Some [(parent, p, node)]
       else
         (case n_Subtree node of
            None \<Rightarrow> None
          | Some sub \<Rightarrow>
              (case load sub of
                 Ok st \<Rightarrow> map_option (\<lambda>l. (parent, p, node) # l) (listing d load p sub st)
               | _ \<Rightarrow> None))) (go_sort Nodes_Less (Nodes t))) = Some ls"
    by auto
  show ?case
    unfolding listing.simps(2) [of "Suc d"] \<open>l = concat ls\<close>
    by (subst those_mono [OF ls]) (auto simp: Let_def Suc.IH split: if_splits option.splits res.splits simp del: listing.simps)
qed simp

lemma listing_mono:
  assumes "listing d load prfx parent t = Some l" "d \<le> d'"
  shows "listing d' load prfx parent t = Some l"
proof -
  have "listing (d + k) load prfx parent t = Some l" for k
    using assms(1) by (induction k) (auto dest: listing_Suc simp del: listing.simps)
  from this [of "d' - d"] assms(2) show ?thesis by simp
qed

section \<open>Lemmas: the depth\<close>

text \<open>The loop depends on the recursive call only for the subtrees of its nodes.\<close>

lemma walk_nodes_rec:
  assumes "\<forall>node \<in> set nodes. \<forall>sub p it s. n_Subtree node = Some sub \<longrightarrow>
      rec p sub (load_tree (load sub)) it s = rec' p sub (load_tree (load sub)) it s \<and> rec p sub (load_tree (load sub)) it s \<noteq> None"
  shows "walk_nodes rec load walkFn prfx parent nodes all it s = walk_nodes rec' load walkFn prfx parent nodes all it s \<and>
    walk_nodes rec load walkFn prfx parent nodes all it s \<noteq> None"
  using assms
proof (induction nodes arbitrary: all it s)
  case (Cons node nodes)
  note P = Cons.prems [unfolded list.set(2) ball_simps(7)]
  have I: "walk_nodes rec load walkFn prfx parent nodes all it s = walk_nodes rec' load walkFn prfx parent nodes all it s"
    "walk_nodes rec load walkFn prfx parent nodes all it s \<noteq> None" for all it s
    using Cons.IH [OF conjunct2 [OF P], of all it s] by blast+
  show ?case
  proof (cases "n_Subtree node")
    case None
    then show ?thesis using I by (auto simp: Let_def split: prod.split option.split)
  next
    case (Some sub)
    then have "rec p sub (load_tree (load sub)) it s = rec' p sub (load_tree (load sub)) it s"
      "rec p sub (load_tree (load sub)) it s \<noteq> None" for p it s
      using conjunct1 [OF P] by blast+
    then show ?thesis using I Some
      by (auto simp: Let_def split: prod.split option.split res.split) (metis option.distinct(1))+
  qed
qed simp

lemma walk_depth:
  assumes rank: "\<forall>i t node sub. load i = Ok t \<and> node \<in> set (Nodes t) \<and> n_Subtree node = Some sub \<longrightarrow> rank sub < (rank i :: nat)"
    and "rank i < d" "rank i < d'"
  shows "walk d load walkFn prfx i (load_tree (load i)) it s = walk d' load walkFn prfx i (load_tree (load i)) it s \<and>
    walk d load walkFn prfx i (load_tree (load i)) it s \<noteq> None"
  using assms(2,3)
proof (induction d arbitrary: d' i prfx it s)
  case (Suc d)
  obtain e where d': "d' = Suc e" using Suc.prems(2) by (cases d') auto
  show ?case
  proof (cases "load i")
    case (Ok t)
    have "walk d load walkFn p sub (load_tree (load sub)) it s = walk e load walkFn p sub (load_tree (load sub)) it s \<and>
        walk d load walkFn p sub (load_tree (load sub)) it s \<noteq> None"
      if "node \<in> set (go_sort Nodes_Less (Nodes t))" "n_Subtree node = Some sub" for node sub p it s
    proof -
      have "rank sub < rank i" using rank Ok that by auto
      then have "rank sub < d" "rank sub < e" using Suc.prems d' by simp_all
      then show ?thesis by (rule Suc.IH)
    qed
    then have R: "\<forall>node \<in> set (go_sort Nodes_Less (Nodes t)). \<forall>sub p it s. n_Subtree node = Some sub \<longrightarrow>
        walk d load walkFn p sub (load_tree (load sub)) it s = walk e load walkFn p sub (load_tree (load sub)) it s \<and>
        walk d load walkFn p sub (load_tree (load sub)) it s \<noteq> None"
      by blast
    have "load_tree (load i) = Some t" by (simp add: Ok load_tree_def)
    then show ?thesis 
      using walk_nodes_rec [where rec = "walk d load walkFn" and rec' = "walk e load walkFn" and load = load, OF R,
          of walkFn prfx i "length (Nodes t) \<noteq> 0" it s]
      unfolding d' walk.simps by (elim conjE) (simp only: option.case, simp)
  qed (simp_all add: d' load_tree_def)
qed simp

section \<open>Properties\<close>

text \<open>C37: If every tree below the root can be loaded, every node has a type and every directory a subtree,
  then \<open>Walk\<close> with a callback that returns no error and ignores nothing calls it for the root and then
  for every node exactly once, in depth-first order by name, and returns no error; any depth at
  least that of the tree gives this result.\<close>

theorem Walk_visits_all:
  assumes "load root = Ok t" "listing d load ''/'' root t = Some l" "d \<le> d'"
  shows "Walk d' load root [] (visit_all f) s = Some (Ok (None, [], visit_list f l (f root ''/'' None s)))"
  using walk_listing [OF listing_mono [OF assms(2,3)], of f] assms(1)
  by (simp add: Walk_def visit_all_def [of f root] load_tree_def)

theorem Walk_visits_all_witness:
  "Walk 7 (\<lambda>i. Ok \<lparr>Nodes = [toy_node ''b'' [7], toy_node ''a'' [7]]\<rparr>) [1] [] (visit_all (\<lambda>parent p node s. s @ [p])) [] =
    Some (Ok (None, [], [''/'', ''/a'', ''/b'']))"
proof -
  let ?load = "\<lambda>i :: ID. Ok \<lparr>Nodes = [toy_node ''b'' [7], toy_node ''a'' [7]]\<rparr>"
  let ?l = "[([1], ''/a'', toy_node ''a'' [7]), ([1], ''/b'', toy_node ''b'' [7])]"
  have j: "path_Join ''/'' ''a'' = ''/a''" "path_Join ''/'' ''b'' = ''/b''" by code_simp+
  have tn: "n_Name (toy_node n b) = n" "n_Type (toy_node n b) = ''file''" for n b by (simp_all add: toy_node_def)
  have s: "go_sort Nodes_Less [toy_node ''b'' [7], toy_node ''a'' [7]] = [toy_node ''a'' [7], toy_node ''b'' [7]]"
    by (simp add: Nodes_Less_def tn)
  have "listing 1 ?load ''/'' [1] \<lparr>Nodes = [toy_node ''b'' [7], toy_node ''a'' [7]]\<rparr> = Some ?l"
    by (simp add: s tn j Let_def del: go_sort_Cons)
  from Walk_visits_all [OF refl this, of 7 "\<lambda>parent p node s. s @ [p]" "[]"] show ?thesis
    by (simp add: visit_list_def)
qed



text \<open>C38: \<open>Walk\<close> returns, with every callback: if no tree contains itself, that is, the trees can be ranked such that
  the subtrees of a tree have smaller ranks, then there is one result that every depth beyond the rank of the root gives.\<close>

theorem Walk_terminates:
  assumes "\<forall>i t node sub. load i = Ok t \<and> node \<in> set (Nodes t) \<and> n_Subtree node = Some sub \<longrightarrow> rank sub < (rank i :: nat)"
  shows "\<exists>res. \<forall>d > rank root. Walk d load root ignoreTrees walkFn s = Some res"
proof -
  obtain ig eo s' where w: "walkFn root ''/'' None (load_err (load root)) s = ((ig, eo), s')" by (metis prod.exhaust)
  obtain r where "walk (Suc (rank root)) load walkFn ''/'' root (load_tree (load root)) ignoreTrees s' = Some r"
    using walk_depth [OF assms, of root "Suc (rank root)" "Suc (rank root)" walkFn "''/''" ignoreTrees s'] by auto
  then have "\<forall>d > rank root. walk d load walkFn ''/'' root (load_tree (load root)) ignoreTrees s' = Some r"
    using walk_depth [OF assms, of root "Suc (rank root)" _ walkFn "''/''" ignoreTrees s'] by simp
  then show ?thesis by (cases eo) (auto simp: Walk_def w)
qed

theorem Walk_terminates_witness:
  "\<exists>res. \<forall>d > 0. Walk d (\<lambda>i. Ok \<lparr>Nodes = [toy_node ''b'' [7], toy_node ''a'' [7]]\<rparr>) [1] [] (\<lambda>i p n e s. ((False, e), s)) () = Some res"
  using Walk_terminates [of "\<lambda>i. Ok \<lparr>Nodes = [toy_node ''b'' [7], toy_node ''a'' [7]]\<rparr>" "\<lambda>i. 0" "[1]" "[]" "\<lambda>i p n e s. ((False, e), s)" "()"]
  by (simp add: toy_node_def)

end
