(* ===== verification/Repo.thy ===== *)
theory Repo
  imports MasterIndex Backends
begin

text \<open>
  The repository: \<open>repository/repository.go\<close>, \<open>packer_manager.go\<close> and \<open>index_parallel.go\<close>.

  The state \<open>Repository\<close> holds the state of the backend, the master index and the open packers. What the
  code draws from its surroundings is the record \<open>env\<close>: the primitives, the backend's methods, the
  random source, the clock, the temporary files with their faults, and the JSON form of an index. What
  may differ from call to call takes the number of the call, counted in \<open>r_tick\<close>. A backend error, a
  full disk or a failing random source is thus any choice of \<open>env\<close>.

  All packers and the repository share one key; as masking it is idempotent, the model keeps the key
  as it was. A packer writes through two hashing writers; without a hash of the backend the inner one
  only passes the data on. The packers are worked on in the order of the calls, one call at a time.
\<close>

section \<open>State and surroundings\<close>

text \<open>An operation on a state that may fail: the state is changed also when it does.\<close>

definition bind_st :: "'s \<times> 'a res \<Rightarrow> ('s \<Rightarrow> 'a \<Rightarrow> 's \<times> 'b res) \<Rightarrow> 's \<times> 'b res" where
  "bind_st m f = (case m of (s, Ok a) \<Rightarrow> f s a | (s, Err e) \<Rightarrow> (s, Err e) | (s, Panic msg) \<Rightarrow> (s, Panic msg))"

text \<open>A temporary file: its contents, and whether it was closed.\<close>

type_synonym tmpfile = "bytes \<times> bool"

definition tmp_Write ::
  "(bytes \<Rightarrow> bytes \<Rightarrow> (nat \<times> error) option) \<Rightarrow> tmpfile \<Rightarrow> bytes \<Rightarrow> tmpfile \<times> nat \<times> error option" where
  "tmp_Write fault f d =
     (if snd f then (f, 0, Some (ErrOther ''file already closed''))
      else (case file_Write fault (fst f) d of (f', n, eo) \<Rightarrow> ((f', False), n, eo)))"

text \<open>\<open>Packer\<close> of \<open>packer_manager.go\<close>: \<open>hw\<close> is the outer writer, \<open>beHw\<close> the inner one.\<close>

type_synonym rpacker = "tmpfile Writer Writer Packer"

record 'b env =
  e_prims :: prims
  e_hasher :: "(bytes \<Rightarrow> bytes) option"
  e_Save :: "'b \<Rightarrow> Handle \<Rightarrow> RewindReader \<Rightarrow> 'b \<times> error option"
  e_open :: "'b \<Rightarrow> Handle \<Rightarrow> nat \<Rightarrow> int \<Rightarrow> bytes res"
  e_rand :: "nat \<Rightarrow> bytes option"
  e_now :: "nat \<Rightarrow> int"
  e_maphash :: "BlobType \<Rightarrow> ID \<Rightarrow> uint"
  e_TempFile :: "nat \<Rightarrow> error option"
  e_fault :: "nat \<Rightarrow> bytes \<Rightarrow> bytes \<Rightarrow> (nat \<times> error) option"
  e_seek :: "nat \<Rightarrow> error option \<times> error option"
  e_close :: "nat \<Rightarrow> error option"
  e_remove :: "nat \<Rightarrow> error option"
  e_marshal :: "jsonIndex \<Rightarrow> bytes"
  e_unmarshal :: "bytes \<Rightarrow> jsonIndex unmarshalled"
  e_unmarshalOld :: "bytes \<Rightarrow> packJSON list unmarshalled"

record 'b Repository =
  r_be :: 'b
  r_key :: Key
  r_idx :: MasterIndex
  noAutoIndexUpdate :: bool
  treePM :: "rpacker list"
  dataPM :: "rpacker list"
  r_tick :: nat

definition New :: "'b env \<Rightarrow> 'b \<Rightarrow> Key \<Rightarrow> 'b Repository" where
  "New E be key =
     \<lparr>r_be = be, r_key = key, r_idx = NewMasterIndex (e_maphash E) (e_now E 0), noAutoIndexUpdate = False,
      treePM = [], dataPM = [], r_tick = 0\<rparr>"

definition DisableAutoIndexUpdate :: "'b Repository \<Rightarrow> 'b Repository" where
  "DisableAutoIndexUpdate r = r\<lparr>noAutoIndexUpdate := True\<rparr>"

definition tick :: "'b Repository \<Rightarrow> 'b Repository" where
  "tick r = r\<lparr>r_tick := Suc (r_tick r)\<rparr>"

definition sha256 :: "'b env \<Rightarrow> bytes \<Rightarrow> bytes" where
  "sha256 E = sha256_Sum (e_prims E)"

definition packer_Write :: "'b env \<Rightarrow> nat \<Rightarrow> tmpfile Writer Writer \<Rightarrow> bytes \<Rightarrow> tmpfile Writer Writer \<times> nat \<times> error option" where
  "packer_Write E k = Writer_Write (Writer_Write (tmp_Write (e_fault E k)))"

definition packer_file :: "rpacker \<Rightarrow> tmpfile" where
  "packer_file p = hw_w (hw_w (pkWr p))"

definition close_packer :: "rpacker \<Rightarrow> rpacker" where
  "close_packer p = p\<lparr>pkWr := (pkWr p)\<lparr>hw_w := (hw_w (pkWr p))\<lparr>hw_w := (fst (packer_file p), True)\<rparr>\<rparr>\<rparr>"

section \<open>Files without packs\<close>

definition SaveUnpacked :: "'b env \<Rightarrow> FileType \<Rightarrow> bytes \<Rightarrow> 'b Repository \<Rightarrow> 'b Repository \<times> ID res" where
  "SaveUnpacked E t p r =
     bind_st (tick r, NewRandomNonce (e_rand E (r_tick r))) (\<lambda>r nonce.
     bind_st (r, seal_frame (e_prims E) (r_key r) nonce p) (\<lambda>r ciphertext.
       let i = (if t = ConfigFile then nullID else Hash (sha256 E) ciphertext);
           h = \<lparr>h_Type = t, h_ContainedBlobType = InvalidBlob, h_Name = ID_String i\<rparr>;
           (be', eo) = e_Save E (r_be r) h (NewByteReader ciphertext (e_hasher E));
           r' = r\<lparr>r_be := be'\<rparr> in
       (r', case eo of Some e \<Rightarrow> Err e | None \<Rightarrow> Ok i)))"

definition LoadAndDecrypt :: "'b env \<Rightarrow> FileType \<Rightarrow> ID \<Rightarrow> 'b Repository \<Rightarrow> bytes res" where
  "LoadAndDecrypt E t i0 r =
     (let i = (if t = ConfigFile then nullID else i0);
          h = \<lparr>h_Type = t, h_ContainedBlobType = InvalidBlob, h_Name = ID_String i\<rparr> in
      bind_r (LoadAll (DefaultLoad (e_open E (r_be r))) h) (\<lambda>buf.
        if t \<noteq> ConfigFile \<and> \<not> ID_Equal (Hash (sha256 E) buf) i then Err (Errorf ''load %v: invalid data returned'')
        else open_frame (e_prims E) (r_key r) buf))"

section \<open>The index\<close>

definition SaveIndexFile :: "'b env \<Rightarrow> Index \<Rightarrow> 'b Repository \<Rightarrow> 'b Repository \<times> ID res" where
  "SaveIndexFile E idx r = bind_st (r, Index_encode idx) (\<lambda>r js. SaveUnpacked E IndexFile (e_marshal E js) r)"

primrec save_indexes :: "'b env \<Rightarrow> Index list \<Rightarrow> 'b Repository \<Rightarrow> 'b Repository \<times> unit res" where
  "save_indexes E [] r = (r, Ok ())"
| "save_indexes E (idx # indexes) r = bind_st (SaveIndexFile E idx r) (\<lambda>r sid. save_indexes E indexes r)"

definition saveIndex :: "'b env \<Rightarrow> Index list \<Rightarrow> 'b Repository \<Rightarrow> 'b Repository \<times> unit res" where
  "saveIndex E indexes r =
     bind_st (save_indexes E indexes r) (\<lambda>r _.
       case MergeFinalIndexes (r_idx r) of
         Ok mi \<Rightarrow> (r\<lparr>r_idx := mi\<rparr>, Ok ())
       | Err e \<Rightarrow> (r, Err e)
       | Panic m \<Rightarrow> (r, Panic m))"

text \<open>\<open>SaveIndex\<close> and \<open>SaveFullIndex\<close> save the indexes that were finalized.\<close>

definition save_finalized :: "'b env \<Rightarrow> MasterIndex \<times> nat list \<Rightarrow> 'b Repository \<Rightarrow> 'b Repository \<times> unit res" where
  "save_finalized E mj r = saveIndex E (map (\<lambda>j. mi_idx (fst mj) ! j) (snd mj)) (r\<lparr>r_idx := fst mj\<rparr>)"

definition SaveIndex :: "'b env \<Rightarrow> 'b Repository \<Rightarrow> 'b Repository \<times> unit res" where
  "SaveIndex E r = save_finalized E (FinalizeNotFinalIndexes (r_idx r)) r"

definition SaveFullIndex :: "'b env \<Rightarrow> 'b Repository \<Rightarrow> 'b Repository \<times> unit res" where
  "SaveFullIndex E r = save_finalized E (FinalizeFullIndexes (e_now E (r_tick r)) (r_idx r)) r"

section \<open>Packers (\<open>packer_manager.go\<close>)\<close>

definition minPackSize :: uint where
  "minPackSize = 4 * 1024 * 1024"

definition findPacker :: "'b env \<Rightarrow> nat \<Rightarrow> Key \<Rightarrow> rpacker list \<Rightarrow> (rpacker list \<times> rpacker) res" where
  "findPacker E k key packers =
     (if length packers > 0 then
        (let p = packers ! 0; lst = length packers - 1;
             packers1 = packers[0 := packers ! lst] in
         Ok (take lst packers1, p))
      else
        (case e_TempFile E k of
           Some e \<Rightarrow> Err (Wrap e ''fs.TempFile'')
         | None \<Rightarrow> Ok (packers, NewPacker key (NewWriter (NewWriter ([], False))))))"

definition insertPacker :: "rpacker list \<Rightarrow> rpacker \<Rightarrow> rpacker list" where
  "insertPacker packers p = packers @ [p]"

text \<open>\<open>savePacker\<close> also returns the packer, which it has changed.\<close>

definition store_saved :: "'b env \<Rightarrow> ID \<Rightarrow> rpacker \<Rightarrow> 'b Repository \<Rightarrow> 'b Repository \<times> unit res" where
  "store_saved E i p r =
     (case MI_StorePack (e_maphash E) (e_now E (r_tick r)) (r_idx r) i (Packer_Blobs p) of
        Err e \<Rightarrow> (r, Err e)
      | Panic m \<Rightarrow> (r, Panic m)
      | Ok mi \<Rightarrow>
          (let r' = r\<lparr>r_idx := mi\<rparr> in
           if noAutoIndexUpdate r' then (r', Ok ()) else SaveFullIndex E r'))"

definition savePacker :: "'b env \<Rightarrow> BlobType \<Rightarrow> rpacker \<Rightarrow> 'b Repository \<Rightarrow> ('b Repository \<times> rpacker) \<times> unit res" where
  "savePacker E t p0 r0 =
     (let k = r_tick r0; r = tick r0;
          (p, fin) = Packer_Finalize (e_prims E) (packer_Write E k) (e_rand E k) p0 in
      bind_st ((r, p), fin) (\<lambda>rp _.
      bind_st (rp, IDFromHash (Writer_Sum (sha256 E) (pkWr p) [])) (\<lambda>rp i.
      let h = \<lparr>h_Type = PackFile, h_ContainedBlobType = t, h_Name = ID_String i\<rparr>;
          beHash = map_option (\<lambda>hsh. Writer_Sum hsh (hw_w (pkWr p)) []) (e_hasher E) in
      bind_st (rp, NewFileReader (e_seek E k) (fst (packer_file p)) beHash) (\<lambda>rp rd.
      let (be', eo) = e_Save E (r_be r) h rd;
          r1 = r\<lparr>r_be := be'\<rparr> in
      (case eo of
         Some e \<Rightarrow> ((r1, p), Err e)
       | None \<Rightarrow>
           (case e_close E k of
              Some e \<Rightarrow> ((r1, p), Err (Wrap e ''close tempfile''))
            | None \<Rightarrow>
                (case e_remove E k of
                   Some e \<Rightarrow> ((r1, close_packer p), Err (Wrap e ''Remove''))
                 | None \<Rightarrow> (case store_saved E i p r1 of (r2, res) \<Rightarrow> ((r2, close_packer p), res)))))))))"

section \<open>Blobs\<close>

definition packers_of :: "BlobType \<Rightarrow> 'b Repository \<Rightarrow> rpacker list" where
  "packers_of t r = (if t = TreeBlob then treePM r else dataPM r)"

definition set_packers :: "BlobType \<Rightarrow> rpacker list \<Rightarrow> 'b Repository \<Rightarrow> 'b Repository" where
  "set_packers t ps r = (if t = TreeBlob then r\<lparr>treePM := ps\<rparr> else r\<lparr>dataPM := ps\<rparr>)"

definition SaveAndEncrypt :: "'b env \<Rightarrow> BlobType \<Rightarrow> bytes \<Rightarrow> ID \<Rightarrow> 'b Repository \<Rightarrow> 'b Repository \<times> unit res" where
  "SaveAndEncrypt E t data i r0 =
     bind_st (tick r0, NewRandomNonce (e_rand E (r_tick r0))) (\<lambda>r nonce.
     bind_st (r, seal_frame (e_prims E) (r_key r) nonce data) (\<lambda>r ciphertext.
       if t = InvalidBlob then (r, Panic ''invalid type: %v'')
       else
         bind_st (r, findPacker E (r_tick r0) (r_key r) (packers_of t r)) (\<lambda>r (packers, packer0).
           let r1 = set_packers t packers r;
               (packer, n, eo) = Packer_Add (packer_Write E (r_tick r0)) packer0 t i ciphertext in
           (case eo of
              Some e \<Rightarrow> (r1, Err e)
            | None \<Rightarrow>
                if Packer_Size packer < minPackSize
                then (set_packers t (insertPacker packers packer) r1, Ok ())
                else (case savePacker E t packer r1 of ((r2, p'), res) \<Rightarrow> (r2, res))))))"

definition SaveBlob :: "'b env \<Rightarrow> BlobType \<Rightarrow> bytes \<Rightarrow> ID \<Rightarrow> bool \<Rightarrow> 'b Repository \<Rightarrow> 'b Repository \<times> (ID \<times> bool \<times> unit res)" where
  "SaveBlob E t buf i storeDuplicate r =
     (let newID = (if ID_IsNull i then Hash (sha256 E) buf else i);
          (mi, ok) = addPending (r_idx r) \<lparr>bID = newID, bType = t\<rparr>;
          known = \<not> ok; r1 = r\<lparr>r_idx := mi\<rparr> in
      if \<not> known \<or> storeDuplicate
      then (case SaveAndEncrypt E t buf newID r1 of (r2, res) \<Rightarrow> (r2, newID, known, res))
      else (r1, newID, known, Ok ()))"

text \<open>\<open>FlushPacks\<close>: the loop over the packers of one manager; after an error the packers stay, as they are
  by then.\<close>

primrec flush_loop :: "'b env \<Rightarrow> BlobType \<Rightarrow> rpacker list \<Rightarrow> 'b Repository \<Rightarrow> ('b Repository \<times> rpacker list) \<times> unit res" where
  "flush_loop E t [] r = ((r, []), Ok ())"
| "flush_loop E t (p # ps) r =
     (case savePacker E t p r of
        ((r1, p1), Ok _) \<Rightarrow> (case flush_loop E t ps r1 of ((r2, ps2), res) \<Rightarrow> ((r2, p1 # ps2), res))
      | ((r1, p1), Err e) \<Rightarrow> ((r1, p1 # ps), Err e)
      | ((r1, p1), Panic m) \<Rightarrow> ((r1, p1 # ps), Panic m))"

definition flush_pm :: "'b env \<Rightarrow> BlobType \<Rightarrow> 'b Repository \<Rightarrow> 'b Repository \<times> unit res" where
  "flush_pm E t r =
     (case flush_loop E t (packers_of t r) r of
        ((r1, ps), Ok _) \<Rightarrow> (set_packers t [] r1, Ok ())
      | ((r1, ps), Err e) \<Rightarrow> (set_packers t ps r1, Err e)
      | ((r1, ps), Panic m) \<Rightarrow> (set_packers t ps r1, Panic m))"

definition FlushPacks :: "'b env \<Rightarrow> 'b Repository \<Rightarrow> 'b Repository \<times> unit res" where
  "FlushPacks E r = bind_st (flush_pm E DataBlob r) (\<lambda>r _. flush_pm E TreeBlob r)"

definition Flush :: "'b env \<Rightarrow> 'b Repository \<Rightarrow> 'b Repository \<times> unit res" where
  "Flush E r =
     bind_st (FlushPacks E r) (\<lambda>r _. if noAutoIndexUpdate r then (r, Ok ()) else SaveIndex E r)"

text \<open>\<open>sortCachedPacksFirst\<close> works in place: \<open>cached\<close> is a slice of length \<open>n\<close> over the array of \<open>blobs\<close>.\<close>

primrec cached_loop :: "(Handle \<Rightarrow> bool) \<Rightarrow> nat list \<Rightarrow> nat \<Rightarrow> PackedBlob list \<Rightarrow> PackedBlob list \<Rightarrow> PackedBlob list \<times> nat \<times> PackedBlob list" where
  "cached_loop has [] n noncached blobs = (blobs, n, noncached)"
| "cached_loop has (i # is) n noncached blobs =
     (let blob = blobs ! i in
      if has \<lparr>h_Type = PackFile, h_ContainedBlobType = InvalidBlob, h_Name = ID_String (PackID blob)\<rparr>
      then cached_loop has is (n + 1) noncached (blobs[n := blob])
      else cached_loop has is n (noncached @ [blob]) blobs)"

definition sortCachedPacksFirst :: "(Handle \<Rightarrow> bool) option \<Rightarrow> PackedBlob list \<Rightarrow> PackedBlob list" where
  "sortCachedPacksFirst cache blobs =
     (case cache of
        None \<Rightarrow> blobs
      | Some has \<Rightarrow>
          if length blobs = 1 then blobs
          else
            (case cached_loop has [0..<length blobs] 0 [] blobs of
               (blobs', n, noncached) \<Rightarrow> take n blobs' @ copy_to (drop n blobs') noncached))"

definition load_try :: "'b env \<Rightarrow> BlobType \<Rightarrow> ID \<Rightarrow> PackedBlob \<Rightarrow> 'b Repository \<Rightarrow> bytes res" where
  "load_try E t i blob r =
     (let bt = (if IsMixedPack (r_idx r) (PackID blob) then InvalidBlob else t);
          h = \<lparr>h_Type = PackFile, h_ContainedBlobType = bt, h_Name = ID_String (PackID blob)\<rparr> in
      bind_r (backend_ReadAt (DefaultLoad (e_open E (r_be r))) h (sint (bOffset blob)) (unat (bLength blob))) (\<lambda>buf.
        if of_nat (length buf) \<noteq> bLength blob then Err (Errorf ''error loading blob %v: wrong length returned, want %d, got %d'')
        else
          (case open_frame (e_prims E) (r_key r) buf of
             Panic m \<Rightarrow> Panic m
           | Err e \<Rightarrow> Err (Errorf ''decrypting blob %v failed: %v'')
           | Ok plaintext \<Rightarrow>
               if \<not> ID_Equal (Hash (sha256 E) plaintext) i then Err (Errorf ''blob %v returned invalid hash'')
               else Ok plaintext)))"

text \<open>The loop with \<open>lastError\<close>.\<close>

primrec load_loop :: "'b env \<Rightarrow> BlobType \<Rightarrow> ID \<Rightarrow> PackedBlob list \<Rightarrow> error option \<Rightarrow> 'b Repository \<Rightarrow> bytes res" where
  "load_loop E t i [] lastError r =
     Err (case lastError of Some e \<Rightarrow> e | None \<Rightarrow> Errorf ''loading blob %v from %v packs failed'')"
| "load_loop E t i (blob # blobs) lastError r =
     (case load_try E t i blob r of
        Ok plaintext \<Rightarrow> Ok plaintext
      | Err e \<Rightarrow> load_loop E t i blobs (Some e) r
      | Panic m \<Rightarrow> Panic m)"

text \<open>\<open>cache\<close> is the method \<open>Has\<close> of the repository's cache. Without a cache the interface value holds a nil
  pointer and is not nil itself; \<open>Has\<close> then returns false.\<close>

definition LoadBlob :: "'b env \<Rightarrow> (Handle \<Rightarrow> bool) \<Rightarrow> BlobType \<Rightarrow> ID \<Rightarrow> 'b Repository \<Rightarrow> bytes res" where
  "LoadBlob E cache t i r =
     bind_r (MI_Lookup (r_idx r) \<lparr>bID = i, bType = t\<rparr>) (\<lambda>blobs.
       if length blobs = 0 then Err (Errorf ''id %v not found in repository'')
       else load_loop E t i (sortCachedPacksFirst (Some cache) blobs) None r)"

definition LookupBlobSize :: "ID \<Rightarrow> BlobType \<Rightarrow> 'b Repository \<Rightarrow> uint \<times> bool" where
  "LookupBlobSize i t r = MI_LookupSize (r_idx r) \<lparr>bID = i, bType = t\<rparr>"

section \<open>Lemmas: the order of the packs\<close>

abbreviation pack_handle :: "PackedBlob \<Rightarrow> Handle" where
  "pack_handle b \<equiv> \<lparr>h_Type = PackFile, h_ContainedBlobType = InvalidBlob, h_Name = ID_String (PackID b)\<rparr>"

lemma cached_loop_eq:
  assumes "n \<le> i" "i + length rest = length blobs" "drop i blobs = rest"
  shows "\<exists>blobs'. cached_loop has [i..<length blobs] n noncached blobs =
      (blobs', n + length (filter (\<lambda>b. has (pack_handle b)) rest), noncached @ filter (\<lambda>b. \<not> has (pack_handle b)) rest) \<and>
    length blobs' = length blobs \<and>
    take (n + length (filter (\<lambda>b. has (pack_handle b)) rest)) blobs' = take n blobs @ filter (\<lambda>b. has (pack_handle b)) rest"
  using assms
proof (induction rest arbitrary: i n noncached blobs)
  case (Cons b rest)
  have i: "i < length blobs" "blobs ! i = b" "drop (Suc i) blobs = rest"
    using Cons.prems(2,3) nth_via_drop [of i blobs b rest] by (auto simp: drop_Suc drop_tl)
  have u: "[i..<length blobs] = i # [Suc i..<length blobs]" using i(1) by (rule upt_conv_Cons)
  show ?case
  proof (cases "has (pack_handle b)")
    case True
    have "drop (Suc i) (blobs[n := b]) = rest" using Cons.prems(1) i(3) by (simp add: drop_update_cancel)
    then obtain blobs' where "cached_loop has [Suc i..<length blobs] (n + 1) noncached (blobs[n := b]) =
        (blobs', n + 1 + length (filter (\<lambda>b. has (pack_handle b)) rest), noncached @ filter (\<lambda>b. \<not> has (pack_handle b)) rest)"
      "length blobs' = length blobs"
      "take (n + 1 + length (filter (\<lambda>b. has (pack_handle b)) rest)) blobs' =
        take (n + 1) (blobs[n := b]) @ filter (\<lambda>b. has (pack_handle b)) rest"
      using Cons.IH [of "n + 1" "Suc i" "blobs[n := b]" noncached] Cons.prems(1,2) by auto
    moreover have "take (n + 1) (blobs[n := b]) = take n blobs @ [b]"
      using Cons.prems(1) i(1) by (simp add: take_Suc_conv_app_nth)
    ultimately show ?thesis using True i(2) by (simp add: u)
  next
    case False
    then show ?thesis
      using Cons.IH [of n "Suc i" blobs "noncached @ [b]"] Cons.prems(1,2) i by (simp add: u)
  qed
qed simp

lemma sortCachedPacksFirst_eq:
  "sortCachedPacksFirst (Some has) blobs =
    filter (\<lambda>b. has (pack_handle b)) blobs @ filter (\<lambda>b. \<not> has (pack_handle b)) blobs"
proof (cases "length blobs = 1")
  case True
  then obtain b where "blobs = [b]" by (auto simp: length_Suc_conv)
  then show ?thesis by (simp add: sortCachedPacksFirst_def)
next
  case False
  let ?c = "filter (\<lambda>b. has (pack_handle b)) blobs" and ?n = "filter (\<lambda>b. \<not> has (pack_handle b)) blobs"
  obtain blobs' where l: "cached_loop has [0..<length blobs] 0 [] blobs = (blobs', length ?c, ?n)"
    "length blobs' = length blobs" "take (length ?c) blobs' = ?c"
    using cached_loop_eq [of 0 0 blobs blobs has "[]"] by auto
  have "length (drop (length ?c) blobs') = length ?n"
    using sum_length_filter_compl [of "\<lambda>b. has (pack_handle b)" blobs] l(2) by simp
  then have "copy_to (drop (length ?c) blobs') ?n = ?n" by (simp add: copy_to_full)
  with False l show ?thesis by (simp add: sortCachedPacksFirst_def)
qed

section \<open>The invariant\<close>

text \<open>
  The data of the entry \<open>b\<close> in the file \<open>f\<close>: the range lies inside the file, can be opened with the key,
  and holds data of \<open>D\<close> with the ID of the entry as its hash.
\<close>

definition blob_at :: "'b env \<Rightarrow> Key \<Rightarrow> bytes set \<Rightarrow> bytes \<Rightarrow> 'a Blob_scheme \<Rightarrow> bool" where
  "blob_at E k D f b \<longleftrightarrow>
     unat (bOffset b) + unat (bLength b) \<le> length f \<and> unat (bOffset b) < 2 ^ 63 \<and> 32 \<le> unat (bLength b) \<and>
     (\<exists>d \<in> D. open_frame (e_prims E) k (take (unat (bLength b)) (drop (unat (bOffset b)) f)) = Ok d \<and>
       Hash (sha256 E) d = bID b)"

text \<open>Whatever the index names can be read from the backend.\<close>

definition index_ok :: "'b env \<Rightarrow> ('b \<Rightarrow> FileType \<times> string \<rightharpoonup> bytes) \<Rightarrow> bytes set \<Rightarrow> 'b Repository \<Rightarrow> bool" where
  "index_ok E files D r \<longleftrightarrow>
     mi_inv (r_idx r) \<and>
     (\<forall>b \<in> set (mi_blobs (r_idx r)). ID_String (PackID b) \<noteq> '''' \<and>
        (\<exists>f. files (r_be r) (PackFile, ID_String (PackID b)) = Some f \<and> blob_at E (r_key r) D f b))"

text \<open>The entries of a packer describe its file; \<open>growing\<close>: more can be added to it.\<close>

definition packer_ok :: "'b env \<Rightarrow> Key \<Rightarrow> bytes set \<Rightarrow> rpacker \<Rightarrow> bool" where
  "packer_ok E k D p \<longleftrightarrow> (\<forall>b \<in> set (pkBlobs p). blob_at E k D (fst (packer_file p)) b)"

definition growing :: "rpacker \<Rightarrow> bool" where
  "growing p \<longleftrightarrow> pkBytes p = of_nat (length (fst (packer_file p))) \<and> length (fst (packer_file p)) < unat minPackSize"

definition packers_ok :: "'b env \<Rightarrow> bytes set \<Rightarrow> 'b Repository \<Rightarrow> bool" where
  "packers_ok E D r \<longleftrightarrow> (\<forall>p \<in> set (dataPM r) \<union> set (treePM r). packer_ok E (r_key r) D p \<and> growing p)"

definition repo_inv :: "'b env \<Rightarrow> ('b \<Rightarrow> FileType \<times> string \<rightharpoonup> bytes) \<Rightarrow> bytes set \<Rightarrow> 'b Repository \<Rightarrow> bool" where
  "repo_inv E files D r \<longleftrightarrow> key_ok (r_key r) \<and> index_ok E files D r \<and> packers_ok E D r"

lemma blob_at_append: "blob_at E k D f b \<Longrightarrow> blob_at E k D (f @ x) b"
  by (auto simp: blob_at_def)

lemma blob_at_in_pack [simp]: "blob_at E k D f (in_pack i b) = blob_at E k D f b"
  by (simp add: blob_at_def in_pack_def)

lemma blob_at_mono: "blob_at E k D f b \<Longrightarrow> D \<subseteq> D' \<Longrightarrow> blob_at E k D' f b"
  unfolding blob_at_def by blast

lemma packer_ok_mono: "packer_ok E k D p \<Longrightarrow> D \<subseteq> D' \<Longrightarrow> packer_ok E k D' p"
  unfolding packer_ok_def using blob_at_mono by blast

lemma index_ok_mono: "index_ok E files D r \<Longrightarrow> D \<subseteq> D' \<Longrightarrow> index_ok E files D' r"
  unfolding index_ok_def using blob_at_mono by blast

lemma repo_inv_mono: "repo_inv E files D r \<Longrightarrow> D \<subseteq> D' \<Longrightarrow> repo_inv E files D' r"
  unfolding repo_inv_def packers_ok_def using index_ok_mono packer_ok_mono by blast

lemma sint_small: "unat (x :: uint) < 2 ^ 63 \<Longrightarrow> sint x = int (unat x)"
proof -
  assume "unat x < 2 ^ 63"
  then have "uint x < 2 ^ 63" unfolding uint_nat by (metis of_nat_less_iff of_nat_numeral of_nat_power)
  moreover have "0 \<le> uint x" by simp
  ultimately have "signed_take_bit 63 (uint x) = uint x" by (intro signed_take_bit_int_eq_self) linarith+
  then show ?thesis by (simp only: sint_uint uint_nat len_num1 len_num0 len_bit0 len_bit1) simp
qed

lemma bind_st_cases [res_simps]:
  "bind_st m f = (s, res) \<longleftrightarrow>
    (\<exists>s' a. m = (s', Ok a) \<and> f s' a = (s, res)) \<or>
    (\<exists>e. m = (s, Err e) \<and> res = Err e) \<or> (\<exists>msg. m = (s, Panic msg) \<and> res = Panic msg)"
  by (cases m; cases "snd m") (auto simp: bind_st_def)

lemma bind_st_rel:
  assumes "R s (fst m)" "\<And>s' a. m = (s', Ok a) \<Longrightarrow> R s' (fst (f s' a))"
    and trans: "\<And>x y z. R x y \<Longrightarrow> R y z \<Longrightarrow> R x z"
  shows "R s (fst (bind_st m f))"
  using assms by (cases m; cases "snd m") (auto simp: bind_st_def)

text \<open>What saving a file or an index leaves as it is.\<close>

definition keeps :: "('b \<Rightarrow> FileType \<times> string \<rightharpoonup> bytes) \<Rightarrow> 'b Repository \<Rightarrow> 'b Repository \<Rightarrow> bool" where
  "keeps files r r' \<longleftrightarrow>
     files (r_be r) \<subseteq>\<^sub>m files (r_be r') \<and> r_key r' = r_key r \<and> treePM r' = treePM r \<and> dataPM r' = dataPM r \<and>
     noAutoIndexUpdate r' = noAutoIndexUpdate r \<and>
     (mi_inv (r_idx r) \<longrightarrow> mi_inv (r_idx r') \<and> set (mi_blobs (r_idx r')) = set (mi_blobs (r_idx r)) \<and>
        pendingBlobs (r_idx r') = pendingBlobs (r_idx r))"

lemma keeps_refl [simp]: "keeps files r r"
  by (simp add: keeps_def)

lemma keeps_trans: "keeps files x y \<Longrightarrow> keeps files y z \<Longrightarrow> keeps files x z"
  unfolding keeps_def by (auto intro: map_le_trans)

lemma keeps_tick [simp]: "keeps files r (tick r)"
  by (simp add: keeps_def tick_def)

lemma map_le_Some: "m \<subseteq>\<^sub>m m' \<Longrightarrow> m k = Some v \<Longrightarrow> m' k = Some v"
  unfolding map_le_def by (metis domI)

lemma keeps_index_ok: "keeps files r r' \<Longrightarrow> index_ok E files D r \<Longrightarrow> index_ok E files D r'"
  unfolding keeps_def index_ok_def by (simp, blast intro: map_le_Some)

lemma keeps_packers_ok: "keeps files r r' \<Longrightarrow> packers_ok E D r \<Longrightarrow> packers_ok E D r'"
  by (simp add: keeps_def packers_ok_def)

lemma MI_StorePack_blobs:
  assumes "mi_inv mi" "MI_StorePack hs now mi i bs = Ok mi'"
  shows "mi_inv mi'" "set (mi_blobs mi') = in_pack i ` set bs \<union> set (mi_blobs mi)"
    "set (pendingBlobs mi') = set (pendingBlobs mi) - handle_of ` set bs"
proof -
  have "\<forall>b \<in> set bs. fits b"
    using assms(2) storePack_loop_fits by (auto simp: MI_StorePack_def Let_def res_simps)
  then have *: "mi_inv mi'" "mset (mi_blobs mi') = mset (map (in_pack i) bs) + mset (mi_blobs mi)"
      "set (pendingBlobs mi') = set (pendingBlobs mi) - handle_of ` set bs"
    using MI_StorePack_ok [OF assms(1), of bs hs now i] assms(2) by auto
  from * show "mi_inv mi'" "set (pendingBlobs mi') = set (pendingBlobs mi) - handle_of ` set bs" by simp_all
  from *(2) show "set (mi_blobs mi') = in_pack i ` set bs \<union> set (mi_blobs mi)"
    by (metis set_mset_mset set_mset_union set_map)
qed

section \<open>Lemmas: the writer of a packer\<close>

interpretation packfile: io_writer "packer_Write E k" "\<lambda>w. fst (hw_w (hw_w w))" for E k
proof -
  have "io_writer (tmp_Write (e_fault E k)) fst"
    by unfold_locales (auto simp: tmp_Write_def file_Write_def min_def split: if_splits option.splits prod.splits)
  from io_writer_Writer [OF io_writer_Writer [OF this]]
  show "io_writer (packer_Write E k) (\<lambda>w. fst (hw_w (hw_w w)))" unfolding packer_Write_def .
qed

lemma Finalize_grows:
  assumes "Packer_Finalize P (packer_Write E k) rnd p = (p', res)"
  shows "pkBlobs p' = pkBlobs p \<and> (\<exists>x. fst (packer_file p') = fst (packer_file p) @ x)"
proof -
  have "\<exists>x. fst (hw_w (hw_w w')) = fst (hw_w (hw_w w)) @ x" if "packer_Write E k w d = (w', n, eo)" for w w' d n eo
    using packfile.write_contents [OF that] by blast
  note W = this
  from assms show ?thesis
    unfolding Packer_Finalize_def Let_def packer_file_def
    by (auto split: res.splits prod.splits option.splits if_splits dest!: W)
qed

lemma Finalize_packer_ok:
  assumes "Packer_Finalize P (packer_Write E k) rnd p = (p', res)" "packer_ok E key D p"
  shows "packer_ok E key D p'"
  using Finalize_grows [OF assms(1)] assms(2) blob_at_append unfolding packer_ok_def by metis

lemma close_packer_simps [simp]: "pkBlobs (close_packer p) = pkBlobs p" "fst (packer_file (close_packer p)) = fst (packer_file p)"
  by (simp_all add: close_packer_def packer_file_def)

section \<open>Lemmas: loading and saving over a backend that keeps its contract\<close>

locale repo_env = store "e_Save E" "e_open E" files
  for E :: "'b env" and files :: "'b \<Rightarrow> FileType \<times> string \<rightharpoonup> bytes" +
  assumes prims: "prims_ok (e_prims E)"
begin

text \<open>Every entry of the index can be loaded.\<close>

lemma load_try_ok:
  assumes "index_ok E files D r" "b \<in> set (mi_blobs (r_idx r))"
  shows "\<exists>d \<in> D. load_try E t (bID b) b r = Ok d \<and> Hash (sha256 E) d = bID b"
proof -
  define h where "h = \<lparr>h_Type = PackFile, h_ContainedBlobType = (if IsMixedPack (r_idx r) (PackID b) then InvalidBlob else t),
    h_Name = ID_String (PackID b)\<rparr>"
  obtain f d where f: "files (r_be r) (fkey h) = Some f" and nm: "Handle_Valid h = None"
    and d: "unat (bOffset b) + unat (bLength b) \<le> length f" "unat (bOffset b) < 2 ^ 63" "d \<in> D"
      "open_frame (e_prims E) (r_key r) (take (unat (bLength b)) (drop (unat (bOffset b)) f)) = Ok d"
      "Hash (sha256 E) d = bID b"
    using assms unfolding index_ok_def blob_at_def by (auto simp: h_def fkey_def Handle_Valid_def)
  have "backend_ReadAt (DefaultLoad (e_open E (r_be r))) h (sint (bOffset b)) (unat (bLength b)) =
      Ok (take (unat (bLength b)) (drop (unat (bOffset b)) f))"
    using readat_file [OF nm f d(1)] sint_small [OF d(2)] by simp
  then have "load_try E t (bID b) b r = Ok d"
    using d(1,4,5) by (simp add: load_try_def Let_def h_def [symmetric] ID_Equal_def)
  with d show ?thesis by blast
qed

lemma LoadBlob_found:
  assumes inv: "index_ok E files D r" and "\<lparr>bID = i, bType = t\<rparr> \<in> handle_of ` set (mi_blobs (r_idx r))"
  shows "\<exists>d \<in> D. LoadBlob E cache t i r = Ok d \<and> Hash (sha256 E) d = i"
proof -
  let ?bs = "filter (\<lambda>b. handle_of b = \<lparr>bID = i, bType = t\<rparr>) (mi_blobs (r_idx r))"
  have mi: "mi_inv (r_idx r)" using inv by (simp add: index_ok_def)
  have ne: "?bs \<noteq> []" using assms(2) by (auto simp: filter_empty_conv)
  obtain b bs where s: "sortCachedPacksFirst (Some cache) ?bs = b # bs"
    using ne sum_length_filter_compl [of "\<lambda>b. cache (pack_handle b)" ?bs]
    by (cases "sortCachedPacksFirst (Some cache) ?bs") (auto simp: sortCachedPacksFirst_eq)
  have "b \<in> set (sortCachedPacksFirst (Some cache) ?bs)" by (simp add: s)
  then have b: "b \<in> set (mi_blobs (r_idx r))" "bID b = i"
    by (auto simp: sortCachedPacksFirst_eq handle_of_eq)
  obtain d where "d \<in> D" "load_try E t i b r = Ok d" "Hash (sha256 E) d = i"
    using load_try_ok [OF inv b(1), of t] b(2) by auto
  with s ne show ?thesis by (auto simp: LoadBlob_def MI_Lookup_eq [OF mi])
qed

text \<open>Saving a file or an index changes nothing else, with every outcome.\<close>

lemma keeps_Save: "e_Save E (r_be r) h rd = (be', eo) \<Longrightarrow> keeps files r (r\<lparr>r_be := be'\<rparr>)"
  using save_mono by (simp add: keeps_def)

lemma SaveUnpacked_keeps: "keeps files r (fst (SaveUnpacked E t p r))"
  unfolding SaveUnpacked_def
  by (rule bind_st_rel [where R = "keeps files", OF _ bind_st_rel [where R = "keeps files"]])
    (auto simp: Let_def intro: keeps_trans keeps_Save split: prod.splits)

lemma SaveIndexFile_keeps: "keeps files r (fst (SaveIndexFile E idx r))"
  unfolding SaveIndexFile_def
  by (rule bind_st_rel [where R = "keeps files"]) (auto intro: keeps_trans simp: SaveUnpacked_keeps)

lemma save_indexes_keeps: "keeps files r (fst (save_indexes E idxs r))"
proof (induction idxs arbitrary: r)
  case (Cons idx idxs)
  show ?case unfolding save_indexes.simps
    by (rule bind_st_rel [where R = "keeps files"]) (auto intro: keeps_trans Cons.IH simp: SaveIndexFile_keeps)
qed simp

lemma merge_keeps:
  "MergeFinalIndexes (r_idx r) = Ok mi \<Longrightarrow> keeps files r (r\<lparr>r_idx := mi\<rparr>)"
  using MergeFinalIndexes_ok [of "r_idx r"] by (auto simp: keeps_def)

lemma saveIndex_keeps: "keeps files r (fst (saveIndex E idxs r))"
  unfolding saveIndex_def
  by (rule bind_st_rel [where R = "keeps files"])
    (auto intro: keeps_trans merge_keeps simp: save_indexes_keeps split: res.splits)

lemma save_finalized_keeps:
  assumes "finalize_where p (r_idx r) = mj"
  shows "keeps files r (fst (save_finalized E mj r))"
proof -
  have "keeps files r (r\<lparr>r_idx := fst mj\<rparr>)"
    using finalize_where_ok [of "r_idx r" p "fst mj" "snd mj"] assms by (auto simp: keeps_def)
  then show ?thesis unfolding save_finalized_def using saveIndex_keeps keeps_trans by blast
qed

lemma SaveIndex_keeps: "keeps files r (fst (SaveIndex E r))"
  unfolding SaveIndex_def FinalizeNotFinalIndexes_def by (rule save_finalized_keeps [OF refl])

lemma SaveFullIndex_keeps: "keeps files r (fst (SaveFullIndex E r))"
  unfolding SaveFullIndex_def FinalizeFullIndexes_def by (rule save_finalized_keeps [OF refl])

end

section \<open>Lemmas: packs\<close>

text \<open>The handles that the index, or a packer, holds.\<close>

definition indexed :: "'b Repository \<Rightarrow> BlobHandle set" where
  "indexed r = handle_of ` set (mi_blobs (r_idx r))"

definition packed_handles :: "rpacker list \<Rightarrow> BlobHandle set" where
  "packed_handles ps = (\<Union>p \<in> set ps. handle_of ` set (pkBlobs p))"

definition pending :: "'b Repository \<Rightarrow> BlobHandle set" where
  "pending r = set (pendingBlobs (r_idx r))"

text \<open>What storing a pack leaves as it is.\<close>

definition frame :: "'b Repository \<Rightarrow> 'b Repository \<Rightarrow> bool" where
  "frame r r' \<longleftrightarrow> r_key r' = r_key r \<and> treePM r' = treePM r \<and> dataPM r' = dataPM r \<and>
     noAutoIndexUpdate r' = noAutoIndexUpdate r"

lemma frame_trans: "frame x y \<Longrightarrow> frame y z \<Longrightarrow> frame x z"
  by (simp add: frame_def)

lemma keeps_frame: "keeps files r r' \<Longrightarrow> frame r r'"
  by (simp add: keeps_def frame_def)

lemma keeps_indexed: "keeps files r r' \<Longrightarrow> mi_inv (r_idx r) \<Longrightarrow> indexed r' = indexed r \<and> pending r' = pending r"
  by (simp add: keeps_def indexed_def pending_def)

lemma savePacker_cases:
  assumes run: "savePacker E t p r = ((r', p'), res)"
    and F: "Packer_Finalize (e_prims E) (packer_Write E (r_tick r)) (e_rand E (r_tick r)) p = (p1, fin)"
  shows "r' = tick r \<and> p' = p1 \<and> res \<noteq> Ok () \<or>
    (\<exists>i rd be' eo. rr_data rd = fst (packer_file p1) \<and>
      e_Save E (r_be (tick r)) \<lparr>h_Type = PackFile, h_ContainedBlobType = t, h_Name = ID_String i\<rparr> rd = (be', eo) \<and>
      (r' = (tick r)\<lparr>r_be := be'\<rparr> \<and> res \<noteq> Ok () \<and> (p' = p1 \<or> p' = close_packer p1) \<or>
       eo = None \<and> p' = close_packer p1 \<and> store_saved E i p1 ((tick r)\<lparr>r_be := be'\<rparr>) = (r', res)))"
proof -
  note D = run [unfolded savePacker_def Let_def F prod.case bind_st_def]
  show ?thesis
  proof (cases fin)
    case (Ok u)
    show ?thesis
    proof (cases "IDFromHash (Writer_Sum (sha256 E) (pkWr p1) [])")
      case (Ok i)
      define rdr where "rdr = NewFileReader (e_seek E (r_tick r)) (fst (packer_file p1))
        (map_option (\<lambda>hsh. Writer_Sum hsh (hw_w (pkWr p1)) []) (e_hasher E))"
      note D1 = D [unfolded \<open>fin = Ok u\<close> Ok prod.case res.case, folded rdr_def]
      show ?thesis
      proof (cases rdr)
        case (Ok rd)
        have rd: "rr_data rd = fst (packer_file p1)"
          using Ok by (auto simp: rdr_def NewFileReader_def split: prod.splits option.splits)
        obtain be' eo where sv: "e_Save E (r_be (tick r)) \<lparr>h_Type = PackFile, h_ContainedBlobType = t, h_Name = ID_String i\<rparr> rd = (be', eo)"
          by fastforce
        show ?thesis
          using D1 [unfolded Ok prod.case res.case sv] rd sv
          by (cases eo; cases "e_close E (r_tick r)"; cases "e_remove E (r_tick r)";
              cases "store_saved E i p1 ((tick r)\<lparr>r_be := be'\<rparr>)") auto
      qed (use D1 in auto)
    qed (use D Ok in auto)
  qed (use D in auto)
qed

lemma store_index_ok:
  assumes inv: "index_ok E files D r"
    and f: "ID_String i \<noteq> ''''" "files (r_be r) (PackFile, ID_String i) = Some f"
    and bs: "\<forall>b \<in> set bs. blob_at E (r_key r) D f b"
    and st: "MI_StorePack hs now (r_idx r) i bs = Ok mi"
  shows "index_ok E files D (r\<lparr>r_idx := mi\<rparr>)"
proof -
  have mi: "mi_inv (r_idx r)" using inv by (simp add: index_ok_def)
  show ?thesis
    using inv f bs MI_StorePack_blobs(1) [OF mi st] unfolding index_ok_def by (auto simp: MI_StorePack_blobs(2) [OF mi st])
qed

context repo_env
begin

lemma store_saved_ok:
  assumes inv: "index_ok E files D r"
    and f: "ID_String i \<noteq> ''''" "files (r_be r) (PackFile, ID_String i) = Some f"
    and bs: "\<forall>b \<in> set (pkBlobs p). blob_at E (r_key r) D f b"
    and run: "store_saved E i p r = (r', res)"
  shows "index_ok E files D r' \<and> frame r r' \<and> indexed r \<subseteq> indexed r' \<and>
    (res = Ok () \<longrightarrow> indexed r' = indexed r \<union> handle_of ` set (pkBlobs p) \<and> pending r' = pending r - handle_of ` set (pkBlobs p))"
proof (cases "MI_StorePack (e_maphash E) (e_now E (r_tick r)) (r_idx r) i (Packer_Blobs p)")
  case (Ok mi)
  define r1 where "r1 = r\<lparr>r_idx := mi\<rparr>"
  have mi: "mi_inv (r_idx r)" using inv by (simp add: index_ok_def)
  note S = MI_StorePack_blobs [OF mi Ok, unfolded Packer_Blobs_def]
  have "index_ok E files D r1"
    unfolding r1_def by (rule store_index_ok [OF inv f bs Ok [unfolded Packer_Blobs_def]])
  moreover have "frame r r1" by (simp add: frame_def r1_def)
  moreover have "indexed r1 = indexed r \<union> handle_of ` set (pkBlobs p)"
    by (auto simp: indexed_def r1_def S(2) image_Un image_image)
  moreover have "pending r1 = pending r - handle_of ` set (pkBlobs p)" by (simp add: pending_def r1_def S(3))
  moreover have "keeps files r1 r'"
    using run Ok SaveFullIndex_keeps [of r1] by (auto simp: store_saved_def r1_def Let_def split: if_splits)
  ultimately show ?thesis
    using S(1) keeps_index_ok [of files r1 r'] keeps_frame [of files r1 r'] keeps_indexed [of files r1 r'] frame_trans
    by (auto simp: r1_def)
qed (use run inv in \<open>auto simp: store_saved_def frame_def\<close>)

text \<open>A pack is named in the index only after the backend has it, and keeps its blobs with every outcome.\<close>

lemma savePacker_ok:
  assumes inv: "index_ok E files D r" and p: "packer_ok E (r_key r) D p"
    and run: "savePacker E t p r = ((r', p'), res)"
  shows "index_ok E files D r' \<and> packer_ok E (r_key r) D p' \<and> frame r r' \<and> indexed r \<subseteq> indexed r' \<and>
    (res = Ok () \<longrightarrow> indexed r' = indexed r \<union> handle_of ` set (pkBlobs p) \<and> pending r' = pending r - handle_of ` set (pkBlobs p))"
proof -
  obtain p1 fin where F: "Packer_Finalize (e_prims E) (packer_Write E (r_tick r)) (e_rand E (r_tick r)) p = (p1, fin)" by fastforce
  have p1: "packer_ok E (r_key r) D p1" "packer_ok E (r_key r) D (close_packer p1)" "pkBlobs p1 = pkBlobs p"
    using Finalize_packer_ok [OF F p] Finalize_grows [OF F] by (simp_all add: packer_ok_def)
  have tk: "index_ok E files D (tick r)" "frame r (tick r)" "indexed (tick r) = indexed r" "pending (tick r) = pending r"
    using inv by (simp_all add: index_ok_def tick_def frame_def indexed_def pending_def)
  define h where "h i = \<lparr>h_Type = PackFile, h_ContainedBlobType = t, h_Name = ID_String i\<rparr>" for i
  from savePacker_cases [OF run F] consider (early) "r' = tick r" "p' = p1" "res \<noteq> Ok ()"
    | (saved) i rd be' eo where "rr_data rd = fst (packer_file p1)" "e_Save E (r_be (tick r)) (h i) rd = (be', eo)"
      "r' = (tick r)\<lparr>r_be := be'\<rparr> \<and> res \<noteq> Ok () \<and> (p' = p1 \<or> p' = close_packer p1) \<or>
       eo = None \<and> p' = close_packer p1 \<and> store_saved E i p1 ((tick r)\<lparr>r_be := be'\<rparr>) = (r', res)"
    unfolding h_def by blast
  then show ?thesis
  proof cases
    case early
    then show ?thesis using p1 tk by simp
  next
    case saved
    define r1 where "r1 = (tick r)\<lparr>r_be := be'\<rparr>"
    have k: "keeps files (tick r) r1" using keeps_Save [OF saved(2)] by (simp add: r1_def)
    have mi: "mi_inv (r_idx (tick r))" using tk(1) by (simp add: index_ok_def)
    note r1 = keeps_index_ok [OF k tk(1)] keeps_frame [OF k] keeps_indexed [OF k mi]
    from saved(3) show ?thesis
    proof (elim disjE conjE)
      assume "eo = None" "p' = close_packer p1" and st: "store_saved E i p1 ((tick r)\<lparr>r_be := be'\<rparr>) = (r', res)"
      have sv: "e_Save E (r_be (tick r)) (h i) rd = (be', None)" using saved(2) \<open>eo = None\<close> by simp
      have "files (r_be r1) (PackFile, ID_String i) = Some (fst (packer_file p1))"
        using save_stored [OF sv] saved(1) by (simp add: r1_def h_def fkey_def)
      moreover have "ID_String i \<noteq> ''''" using save_ok [OF sv] by (auto simp: h_def Handle_Valid_def split: if_splits)
      moreover have "\<forall>b \<in> set (pkBlobs p1). blob_at E (r_key r1) D (fst (packer_file p1)) b"
        using p1(1) by (simp add: packer_ok_def r1_def tick_def)
      moreover have "store_saved E i p1 r1 = (r', res)" using st by (simp add: r1_def)
      ultimately have S: "index_ok E files D r' \<and> frame r1 r' \<and> indexed r1 \<subseteq> indexed r' \<and>
        (res = Ok () \<longrightarrow> indexed r' = indexed r1 \<union> handle_of ` set (pkBlobs p1) \<and> pending r' = pending r1 - handle_of ` set (pkBlobs p1))"
        using store_saved_ok [OF r1(1)] by blast
      have "frame r r'" using S frame_trans [OF tk(2) frame_trans [OF r1(2)]] by simp
      with S show ?thesis using p1 r1(3) tk(3,4) \<open>p' = close_packer p1\<close> by simp
    next
      assume "r' = (tick r)\<lparr>r_be := be'\<rparr>" "res \<noteq> Ok ()" "p' = p1"
      then show ?thesis using p1 r1 tk frame_trans [OF tk(2) r1(2)] by (simp add: r1_def [symmetric])
    next
      assume "r' = (tick r)\<lparr>r_be := be'\<rparr>" "res \<noteq> Ok ()" "p' = close_packer p1"
      then show ?thesis using p1 r1 tk frame_trans [OF tk(2) r1(2)] by (simp add: r1_def [symmetric])
    qed
  qed
qed

end

section \<open>Lemmas: saving blobs\<close>

definition held :: "'b Repository \<Rightarrow> BlobHandle set" where
  "held r = indexed r \<union> packed_handles (dataPM r) \<union> packed_handles (treePM r)"

lemma packed_handles_simps [simp]:
  "packed_handles [] = {}" "packed_handles (p # ps) = handle_of ` set (pkBlobs p) \<union> packed_handles ps"
  "packed_handles (ps @ qs) = packed_handles ps \<union> packed_handles qs"
  by (auto simp: packed_handles_def)

lemma findPacker_ok:
  assumes "findPacker E k key ps = Ok (ps', p)"
  shows "mset ps = add_mset p (mset ps') \<or> ps = [] \<and> ps' = [] \<and> p = NewPacker key (NewWriter (NewWriter ([], False)))"
proof (cases ps)
  case (Cons q qs)
  have "mset (take (length qs) ((q # qs)[0 := (q # qs) ! length qs])) = mset qs"
  proof (cases qs rule: rev_cases)
    case (snoc ys y)
    then show ?thesis by (simp add: nth_append take_Cons')
  qed simp
  with assms Cons show ?thesis by (auto simp: findPacker_def Let_def)
qed (use assms in \<open>auto simp: findPacker_def split: option.splits\<close>)

lemma packer_ok_New: "packer_ok E k D (NewPacker key (NewWriter (NewWriter ([], False))))"
  "growing (NewPacker key (NewWriter (NewWriter ([], False))))"
  by (simp_all add: packer_ok_def growing_def NewPacker_def packer_file_def NewWriter_def minPackSize_def)

lemma findPacker_packers:
  assumes "findPacker E k key ps = Ok (ps', p)" "\<forall>p \<in> set ps. packer_ok E key D p \<and> growing p"
  shows "packer_ok E key D p \<and> growing p" "set ps' \<subseteq> set ps"
    "packed_handles ps = handle_of ` set (pkBlobs p) \<union> packed_handles ps'"
proof -
  from findPacker_ok [OF assms(1)]
  have "(packer_ok E key D p \<and> growing p) \<and> set ps' \<subseteq> set ps \<and>
    packed_handles ps = handle_of ` set (pkBlobs p) \<union> packed_handles ps'"
  proof
    assume m: "mset ps = add_mset p (mset ps')"
    then have "set ps = insert p (set ps')" by (metis set_mset_add_mset_insert set_mset_mset)
    then show ?thesis using assms(2) by (auto simp: packed_handles_def)
  next
    assume "ps = [] \<and> ps' = [] \<and> p = NewPacker key (NewWriter (NewWriter ([], False)))"
    then show ?thesis using packer_ok_New by (simp add: NewPacker_def)
  qed
  then show "packer_ok E key D p \<and> growing p" "set ps' \<subseteq> set ps"
    "packed_handles ps = handle_of ` set (pkBlobs p) \<union> packed_handles ps'" by simp_all
qed

lemma unat_uint_of_nat: "n < 2 ^ 64 \<Longrightarrow> unat (of_nat n :: uint) = n"
  by (simp add: unsigned_of_nat take_bit_nat_eq_self)

lemma Add_packer_ok:
  assumes P: "prims_ok (e_prims E)" "key_ok key" and p: "packer_ok E key D p" "growing p"
    and d: "d \<in> D" "Hash (sha256 E) d = i" "length d < 2 ^ 62"
    and c: "seal_frame (e_prims E) key nonce d = Ok c"
    and add: "Packer_Add (packer_Write E k) p t i c = (p', n, None)"
  shows "packer_ok E key D p'" "Packer_Size p' < minPackSize \<Longrightarrow> growing p'"
    "handle_of ` set (pkBlobs p') = insert \<lparr>bID = i, bType = t\<rparr> (handle_of ` set (pkBlobs p))"
proof -
  let ?f = "fst (packer_file p)"
  from add obtain w' where w: "packer_Write E k (pkWr p) c = (w', n, None)"
    and p': "p' = p\<lparr>pkWr := w', pkBytes := pkBytes p + of_nat n,
      pkBlobs := pkBlobs p @ [\<lparr>bID = i, bType = t, bLength = of_nat n, bOffset = pkBytes p\<rparr>]\<rparr>"
    by (auto simp: Packer_Add_def Let_def wrap_err_def split: prod.splits option.splits)
  have f': "fst (packer_file p') = ?f @ c" and n: "n = length c"
    using packfile.write_ok [OF w] by (simp_all add: p' packer_file_def)
  have lc: "length c = length d + 32" using frames.seal_length [OF conjI [OF P] c] .
  have nn: "nonce_ok nonce" using c P by (simp add: seal_frame_Ok_iff)
  have lf: "length ?f < 4194304" "pkBytes p = of_nat (length ?f)" using p(2) by (simp_all add: growing_def minPackSize_def)
  have u: "unat (pkBytes p) = length ?f" "unat (of_nat (length c) :: uint) = length c"
    "unat (of_nat (length ?f + length c) :: uint) = length ?f + length c"
    using lf lc d(3) by (simp_all add: unat_uint_of_nat del: of_nat_add)
  have new: "blob_at E key D (?f @ c) \<lparr>bID = i, bType = t, bLength = of_nat (length c), bOffset = pkBytes p\<rparr>"
    using u(1,2) lf(1) lc d(1,2) frames.open_seal [OF conjI [OF P] nn c] by (auto simp: blob_at_def)
  show "packer_ok E key D p'"
    using p(1) new unfolding packer_ok_def f' by (auto simp: p' n intro: blob_at_append)
  show "growing p'" if "Packer_Size p' < minPackSize"
    using that u(3) lf(2) unfolding growing_def f'
    by (simp add: p' n Packer_Size_def word_less_nat_alt minPackSize_def)
  show "handle_of ` set (pkBlobs p') = insert \<lparr>bID = i, bType = t\<rparr> (handle_of ` set (pkBlobs p))"
    by (simp add: p' handle_of_def)
qed

lemma set_packers_simps [simp]:
  "r_key (set_packers t ps r) = r_key r" "r_idx (set_packers t ps r) = r_idx r" "r_be (set_packers t ps r) = r_be r"
  "noAutoIndexUpdate (set_packers t ps r) = noAutoIndexUpdate r"
  "set_packers t ps (set_packers t qs r) = set_packers t ps r"
  "index_ok E files D (set_packers t ps r) = index_ok E files D r"
  "indexed (set_packers t ps r) = indexed r" "pending (set_packers t ps r) = pending r"
  by (simp_all add: set_packers_def index_ok_def indexed_def pending_def)

lemma packers_ok_set:
  assumes "packers_ok E D r" "\<forall>p \<in> set ps. packer_ok E (r_key r) D p \<and> growing p"
  shows "packers_ok E D (set_packers t ps r)"
  using assms by (auto simp: packers_ok_def set_packers_def)

lemma packers_ok_of: "packers_ok E D r \<Longrightarrow> \<forall>p \<in> set (packers_of t r). packer_ok E (r_key r) D p \<and> growing p"
  by (auto simp: packers_ok_def packers_of_def)

lemma held_set_packers:
  "held (set_packers t ps r) \<union> packed_handles (packers_of t r) = held r \<union> packed_handles ps"
  by (auto simp: held_def set_packers_def packers_of_def indexed_def)

lemma frame_packers_ok: "frame r r' \<Longrightarrow> packers_ok E D r \<Longrightarrow> packers_ok E D r'"
  by (simp add: frame_def packers_ok_def)

lemma SaveAndEncrypt_cases:
  assumes run: "SaveAndEncrypt E t data i r = (r', res)"
  shows "r' = tick r \<and> res \<noteq> Ok () \<or>
    (\<exists>nonce c ps p q n eo. seal_frame (e_prims E) (r_key (tick r)) nonce data = Ok c \<and>
      findPacker E (r_tick r) (r_key (tick r)) (packers_of t (tick r)) = Ok (ps, p) \<and>
      Packer_Add (packer_Write E (r_tick r)) p t i c = (q, n, eo) \<and>
      (case eo of Some e \<Rightarrow> (r', res) = (set_packers t ps (tick r), Err e)
       | None \<Rightarrow> if Packer_Size q < minPackSize then (r', res) = (set_packers t (ps @ [q]) (tick r), Ok ())
          else (\<exists>p'. savePacker E t q (set_packers t ps (tick r)) = ((r', p'), res))))"
proof -
  note D = run [unfolded SaveAndEncrypt_def bind_st_def Let_def prod.case]
  show ?thesis
  proof (cases "NewRandomNonce (e_rand E (r_tick r))")
    case (Ok nonce)
    note D1 = D [unfolded Ok prod.case res.case]
    show ?thesis
    proof (cases "seal_frame (e_prims E) (r_key (tick r)) nonce data")
      case (Ok c)
      note D2 = D1 [unfolded Ok prod.case res.case]
      show ?thesis
      proof (cases "t = InvalidBlob \<or> (\<forall>x. findPacker E (r_tick r) (r_key (tick r)) (packers_of t (tick r)) \<noteq> Ok x)")
        case False
        then obtain ps p where f: "findPacker E (r_tick r) (r_key (tick r)) (packers_of t (tick r)) = Ok (ps, p)" by auto
        obtain q n eo where q: "Packer_Add (packer_Write E (r_tick r)) p t i c = (q, n, eo)" by (metis prod_cases3)
        have "case eo of Some e \<Rightarrow> (r', res) = (set_packers t ps (tick r), Err e)
          | None \<Rightarrow> if Packer_Size q < minPackSize then (r', res) = (set_packers t (ps @ [q]) (tick r), Ok ())
            else (\<exists>p'. savePacker E t q (set_packers t ps (tick r)) = ((r', p'), res))"
          using D2 False by (cases eo; cases "savePacker E t q (set_packers t ps (tick r))")
            (auto simp: f q insertPacker_def split: if_splits)
        with Ok f q show ?thesis by blast
      qed (use D2 in \<open>auto split: if_splits res.splits\<close>)
    qed (use D1 in auto)
  qed (use D in auto)
qed

context repo_env
begin

lemma SaveAndEncrypt_ok:
  assumes inv: "repo_inv E files D r" and d: "data \<in> D" "Hash (sha256 E) data = i" "length data < 2 ^ 62"
    and run: "SaveAndEncrypt E t data i r = (r', res)"
  shows "repo_inv E files D r' \<and> r_key r' = r_key r \<and> noAutoIndexUpdate r' = noAutoIndexUpdate r \<and>
    (res = Ok () \<longrightarrow> held r' = insert \<lparr>bID = i, bType = t\<rparr> (held r) \<and> pending r' \<subseteq> pending r)"
proof -
  define r1 where "r1 = tick r"
  have r1: "key_ok (r_key r1)" "index_ok E files D r1" "packers_ok E D r1" "held r1 = held r" "pending r1 = pending r"
    "r_key r1 = r_key r" "noAutoIndexUpdate r1 = noAutoIndexUpdate r"
    using inv by (simp_all add: repo_inv_def r1_def tick_def index_ok_def packers_ok_def held_def indexed_def pending_def)
  consider (fail) "r' = r1" "res \<noteq> Ok ()"
    | (go) nonce c ps p q n eo where "seal_frame (e_prims E) (r_key r1) nonce data = Ok c"
      "findPacker E (r_tick r) (r_key r1) (packers_of t r1) = Ok (ps, p)"
      "Packer_Add (packer_Write E (r_tick r)) p t i c = (q, n, eo)"
      "case eo of Some e \<Rightarrow> (r', res) = (set_packers t ps r1, Err e)
       | None \<Rightarrow> if Packer_Size q < minPackSize then (r', res) = (set_packers t (ps @ [q]) r1, Ok ())
          else (\<exists>p'. savePacker E t q (set_packers t ps r1) = ((r', p'), res))"
    using SaveAndEncrypt_cases [OF run] unfolding r1_def by blast
  then show ?thesis
  proof cases
    case go
    note F = findPacker_packers [OF go(2) packers_ok_of [OF r1(3)]]
    have ps: "packers_ok E D (set_packers t ps r1)"
      using F(2) packers_ok_of [OF r1(3), of t] by (intro packers_ok_set [OF r1(3)]) blast
    have old: "held r1 \<union> packed_handles ps = held (set_packers t ps r1) \<union> packed_handles ps \<union> handle_of ` set (pkBlobs p)"
      using held_set_packers [of t ps r1] F(3) by blast
    show ?thesis
    proof (cases eo)
      case None
      note A = Add_packer_ok [OF prims r1(1) conjunct1 [OF F(1)] conjunct2 [OF F(1)] d go(1) go(3) [unfolded None]]
      have sub: "packed_handles ps \<subseteq> held (set_packers t ps r1)" "packed_handles ps \<subseteq> held r1"
        using F(3) by (auto simp: held_def set_packers_def packers_of_def split: if_splits)
      show ?thesis
      proof (cases "Packer_Size q < minPackSize")
        case True
        have "packers_ok E D (set_packers t (ps @ [q]) r1)"
          using A(1) A(2) [OF True] F(2) packers_ok_of [OF r1(3), of t] by (intro packers_ok_set [OF r1(3)]) auto
        moreover have "held (set_packers t (ps @ [q]) r1) = insert \<lparr>bID = i, bType = t\<rparr> (held r1)"
          using F(3) A(3) by (cases "t = TreeBlob") (auto simp: held_def set_packers_def packers_of_def indexed_def)
        ultimately show ?thesis using go(4) None True r1 by (simp add: repo_inv_def)
      next
        case False
        then obtain p' where sp: "savePacker E t q (set_packers t ps r1) = ((r', p'), res)" using go(4) None by auto
        have S: "index_ok E files D r'" "frame (set_packers t ps r1) r'"
          "res = Ok () \<Longrightarrow> indexed r' = indexed (set_packers t ps r1) \<union> handle_of ` set (pkBlobs q) \<and>
            pending r' = pending (set_packers t ps r1) - handle_of ` set (pkBlobs q)"
          using savePacker_ok [OF _ _ sp, of D] r1(2) A(1) by simp_all
        have h: "held r' = insert \<lparr>bID = i, bType = t\<rparr> (held r1)" if "res = Ok ()"
        proof -
          have "held r' = held (set_packers t ps r1) \<union> handle_of ` set (pkBlobs q)"
            using S(2) S(3) [OF that] by (auto simp: held_def frame_def)
          then show ?thesis using old sub A(3) by auto
        qed
        show ?thesis
          using S h r1 frame_packers_ok [OF S(2) ps] by (auto simp: repo_inv_def frame_def)
      qed
    qed (use go(4) ps r1 in \<open>simp add: repo_inv_def\<close>)
  qed (use r1 in \<open>simp add: repo_inv_def\<close>)
qed

text \<open>\<open>SaveBlob\<close> keeps the invariant whatever happens; when no error is returned, the blob is held.\<close>

lemma SaveBlob_ok:
  assumes inv: "repo_inv E files D r" and d: "buf \<in> D" "length buf < 2 ^ 62"
    and i: "ID_IsNull i \<or> i = Hash (sha256 E) buf"
    and run: "SaveBlob E t buf i dup r = (r', newID, kn, res)"
  shows "newID = Hash (sha256 E) buf" "repo_inv E files D r'" "r_key r' = r_key r" "noAutoIndexUpdate r' = noAutoIndexUpdate r"
    "res = Ok () \<Longrightarrow> pending r \<subseteq> held r \<Longrightarrow>
      \<lparr>bID = newID, bType = t\<rparr> \<in> held r' \<and> held r \<subseteq> held r' \<and> pending r' \<subseteq> held r'"
proof -
  let ?h = "\<lparr>bID = Hash (sha256 E) buf, bType = t\<rparr>"
  obtain mi ok where ap: "addPending (r_idx r) ?h = (mi, ok)" by fastforce
  define r1 where "r1 = r\<lparr>r_idx := mi\<rparr>"
  have n: "newID = Hash (sha256 E) buf" using run i by (auto simp: SaveBlob_def Let_def split: prod.splits if_splits)
  then show "newID = Hash (sha256 E) buf" .
  have mi: "mi_inv (r_idx r)" using inv by (simp add: repo_inv_def index_ok_def)
  note A = addPending_ok [OF mi ap]
  have b: "mi_blobs mi = mi_blobs (r_idx r)" by (simp add: mi_blobs_def A(4))
  have r1: "repo_inv E files D r1" using inv A(1) by (simp add: repo_inv_def r1_def index_ok_def packers_ok_def b)
  have h1: "held r1 = held r" "pending r1 \<subseteq> insert ?h (pending r)"
    using ap by (auto simp: held_def indexed_def r1_def b pending_def addPending_def split: if_splits)
  have old: "?h \<in> pending r \<union> indexed r" if "\<not> ok"
    using A(3) that MI_Has_iff [OF mi] by (simp add: pending_def indexed_def)
  have "(\<exists>res'. SaveAndEncrypt E t buf (Hash (sha256 E) buf) r1 = (r', res) \<and> res' = res) \<or>
      r' = r1 \<and> res = Ok () \<and> \<not> ok"
    using run i ap n by (auto simp: SaveBlob_def Let_def r1_def split: prod.splits if_splits)
  then consider (save) "SaveAndEncrypt E t buf (Hash (sha256 E) buf) r1 = (r', res)" | (same) "r' = r1" "\<not> ok" by blast
  then have "repo_inv E files D r' \<and> r_key r' = r_key r \<and> noAutoIndexUpdate r' = noAutoIndexUpdate r \<and>
    (res = Ok () \<longrightarrow> pending r \<subseteq> held r \<longrightarrow> ?h \<in> held r' \<and> held r \<subseteq> held r' \<and> pending r' \<subseteq> held r')"
  proof cases
    case save
    then show ?thesis using SaveAndEncrypt_ok [OF r1 d(1) refl d(2) save] h1 by (auto simp: r1_def)
  next
    case same
    then show ?thesis using r1 h1 old by (auto simp: r1_def held_def)
  qed
  then show "repo_inv E files D r'" "r_key r' = r_key r" "noAutoIndexUpdate r' = noAutoIndexUpdate r"
    "res = Ok () \<Longrightarrow> pending r \<subseteq> held r \<Longrightarrow>
      \<lparr>bID = newID, bType = t\<rparr> \<in> held r' \<and> held r \<subseteq> held r' \<and> pending r' \<subseteq> held r'"
    using n by simp_all
qed

end

section \<open>Lemmas: flushing\<close>

text \<open>The invariant without the possibility to add to the packers.\<close>

definition repo_safe :: "'b env \<Rightarrow> ('b \<Rightarrow> FileType \<times> string \<rightharpoonup> bytes) \<Rightarrow> bytes set \<Rightarrow> 'b Repository \<Rightarrow> bool" where
  "repo_safe E files D r \<longleftrightarrow> key_ok (r_key r) \<and> index_ok E files D r \<and>
     (\<forall>p \<in> set (dataPM r) \<union> set (treePM r). packer_ok E (r_key r) D p)"

lemma repo_inv_safe: "repo_inv E files D r \<longleftrightarrow> repo_safe E files D r \<and> (\<forall>p \<in> set (dataPM r) \<union> set (treePM r). growing p)"
  by (auto simp: repo_inv_def repo_safe_def packers_ok_def)

lemma keeps_safe: "keeps files r r' \<Longrightarrow> repo_safe E files D r \<Longrightarrow> repo_safe E files D r'"
  using keeps_index_ok [of files r r' E D] keeps_frame [of files r r'] by (auto simp: repo_safe_def frame_def)

lemma keeps_held: "keeps files r r' \<Longrightarrow> mi_inv (r_idx r) \<Longrightarrow> held r' = held r"
  using keeps_indexed [of files r r'] by (simp add: held_def keeps_def)

context repo_env
begin

lemma flush_loop_ok:
  assumes "index_ok E files D r" "\<forall>p \<in> set ps. packer_ok E (r_key r) D p" "flush_loop E t ps r = ((r', ps'), res)"
  shows "index_ok E files D r' \<and> (\<forall>p \<in> set ps'. packer_ok E (r_key r) D p) \<and> frame r r' \<and> indexed r \<subseteq> indexed r' \<and>
    (res = Ok () \<longrightarrow> indexed r' = indexed r \<union> packed_handles ps \<and> pending r' \<subseteq> pending r)"
  using assms
proof (induction ps arbitrary: r ps')
  case (Cons p ps)
  obtain r1 p1 res1 where sp: "savePacker E t p r = ((r1, p1), res1)" by (metis prod.exhaust)
  have S: "index_ok E files D r1" "packer_ok E (r_key r) D p1" "frame r r1" "indexed r \<subseteq> indexed r1"
    "res1 = Ok () \<Longrightarrow> indexed r1 = indexed r \<union> handle_of ` set (pkBlobs p) \<and> pending r1 = pending r - handle_of ` set (pkBlobs p)"
    using savePacker_ok [OF Cons.prems(1) _ sp] Cons.prems(2) by simp_all
  show ?case
  proof (cases res1)
    case (Ok u)
    obtain r2 ps2 res2 where fl: "flush_loop E t ps r1 = ((r2, ps2), res2)" by (metis prod.exhaust)
    have k: "r_key r1 = r_key r" using S(3) by (simp add: frame_def)
    have eq: "r' = r2" "ps' = p1 # ps2" "res = res2" using Cons.prems(3) by (simp_all add: sp Ok fl)
    have "\<forall>p \<in> set ps. packer_ok E (r_key r1) D p" using Cons.prems(2) k by simp
    note I = Cons.IH [OF S(1) this fl [folded eq(1,3)], unfolded k]
    show ?thesis using I S Ok frame_trans [OF S(3), of r'] by (auto simp: eq(2))
  qed (use Cons.prems sp S in auto)
qed (auto simp: frame_def)

lemma flush_pm_ok:
  assumes inv: "repo_safe E files D r" and run: "flush_pm E t r = (r', res)"
  shows "repo_safe E files D r' \<and> r_key r' = r_key r \<and> noAutoIndexUpdate r' = noAutoIndexUpdate r \<and>
    (res = Ok () \<longrightarrow> packers_of t r' = [] \<and> held r' = held r \<and> pending r' \<subseteq> pending r \<and>
       (if t = TreeBlob then dataPM r' = dataPM r else treePM r' = treePM r))"
proof -
  obtain r1 ps res1 where fl: "flush_loop E t (packers_of t r) r = ((r1, ps), res1)" by (metis prod.exhaust)
  have io: "index_ok E files D r" and pk: "\<forall>p \<in> set (packers_of t r). packer_ok E (r_key r) D p"
    using inv by (auto simp: repo_safe_def packers_of_def)
  have F: "index_ok E files D r1" "\<forall>p \<in> set ps. packer_ok E (r_key r) D p" "frame r r1"
    "res1 = Ok () \<Longrightarrow> indexed r1 = indexed r \<union> packed_handles (packers_of t r) \<and> pending r1 \<subseteq> pending r"
    using flush_loop_ok [OF io pk fl] by simp_all
  have safe: "repo_safe E files D (set_packers t qs r1)" if "\<forall>p \<in> set qs. packer_ok E (r_key r) D p" for qs
    using F(1,3) inv that by (auto simp: repo_safe_def frame_def set_packers_def index_ok_def)
  show ?thesis
  proof (cases res1)
    case (Ok u)
    have "r' = set_packers t [] r1" "res = Ok ()" using run by (simp_all add: flush_pm_def fl Ok)
    then show ?thesis using safe [of "[]"] F Ok
      by (cases "t = TreeBlob") (auto simp: frame_def held_def set_packers_def packers_of_def indexed_def pending_def)
  qed (use run safe [OF F(2)] F(3) in \<open>auto simp: flush_pm_def fl frame_def\<close>)
qed

lemma FlushPacks_ok:
  assumes inv: "repo_safe E files D r" and run: "FlushPacks E r = (r', res)"
  shows "repo_safe E files D r' \<and> r_key r' = r_key r \<and> noAutoIndexUpdate r' = noAutoIndexUpdate r \<and>
    (res = Ok () \<longrightarrow> dataPM r' = [] \<and> treePM r' = [] \<and> held r' = held r \<and> pending r' \<subseteq> pending r)"
proof -
  obtain r1 res1 where f: "flush_pm E DataBlob r = (r1, res1)" by fastforce
  note A = flush_pm_ok [OF inv f]
  show ?thesis
  proof (cases res1)
    case (Ok u)
    then have f2: "flush_pm E TreeBlob r1 = (r', res)" using run f by (simp add: FlushPacks_def bind_st_def)
    show ?thesis using flush_pm_ok [OF _ f2, of D] A Ok by (auto simp: packers_of_def)
  qed (use run f A in \<open>auto simp: FlushPacks_def bind_st_def\<close>)
qed

lemma Flush_ok:
  assumes inv: "repo_safe E files D r" and run: "Flush E r = (r', res)"
  shows "repo_safe E files D r' \<and>
    (res = Ok () \<longrightarrow> dataPM r' = [] \<and> treePM r' = [] \<and> held r' = held r \<and> indexed r' = held r \<and> pending r' \<subseteq> pending r)"
proof -
  obtain r1 res1 where f: "FlushPacks E r = (r1, res1)" by fastforce
  note A = FlushPacks_ok [OF inv f]
  show ?thesis
  proof (cases res1)
    case (Ok u)
    then have "keeps files r1 r'"
      using run f SaveIndex_keeps [of r1] by (auto simp: Flush_def bind_st_def split: if_splits)
    moreover have "mi_inv (r_idx r1)" using A by (simp add: repo_safe_def index_ok_def)
    ultimately show ?thesis
      using A Ok keeps_safe [of files r1 r' E D] keeps_held [of files r1 r'] keeps_indexed [of files r1 r']
      by (auto simp: keeps_def held_def)
  qed (use run f A in \<open>auto simp: Flush_def bind_st_def\<close>)
qed

end

end
