(* ===== verification/RepoRuns.thy ===== *)
theory RepoRuns
  imports Repo
begin

text \<open>
  Sessions with a repository: loading the index (\<open>LoadIndex\<close> of \<open>repository/repository.go\<close>, \<open>ForAllIndexes\<close> of
  \<open>index_parallel.go\<close>), runs of the operations, and the properties of whole sessions.

  A session saves blobs and flushes; a later session opens the same backend, loads the index and reads the
  blobs. The workers of \<open>ForAllIndexes\<close> are taken one at a time in the order of the listing, which the backend
  is free to choose.
\<close>

section \<open>Loading the index\<close>

text \<open>\<open>List\<close>: names that are not IDs are skipped. \<open>lst\<close> is what the backend lists, with the error at the end.\<close>

type_synonym 'b Lister = "'b \<Rightarrow> FileType \<Rightarrow> FileInfo list \<times> error option"

primrec Repo_List :: "FileInfo list \<Rightarrow> (ID \<Rightarrow> nat \<Rightarrow> 's \<Rightarrow> 's \<times> unit res) \<Rightarrow> 's \<Rightarrow> 's \<times> unit res" where
  "Repo_List [] fn s = (s, Ok ())"
| "Repo_List (fi # fis) fn s =
     (case ParseID (fi_Name fi) of
        Ok i \<Rightarrow> bind_st (fn i (fi_Size fi) s) (\<lambda>s _. Repo_List fis fn s)
      | Err e \<Rightarrow> Repo_List fis fn s
      | Panic m \<Rightarrow> (s, Panic m))"

text \<open>The body of a worker of \<open>ForAllIndexes\<close> for one file; a panic ends the program.\<close>

definition load_index :: "'b env \<Rightarrow> 'b Repository \<Rightarrow> ID \<Rightarrow> (Index \<times> bool) res" where
  "load_index E r i =
     bind_r (LoadAndDecrypt E IndexFile i r) (\<lambda>buf.
       DecodeIndex (e_maphash E) (e_now E (r_tick r)) (e_unmarshal E buf) (e_unmarshalOld E buf) i)"

definition index_worker ::
  "'b env \<Rightarrow> 'b Repository \<Rightarrow> (ID \<Rightarrow> (Index \<times> bool) res \<Rightarrow> 's \<Rightarrow> 's \<times> unit res) \<Rightarrow> ID \<Rightarrow> nat \<Rightarrow> 's \<Rightarrow> 's \<times> unit res" where
  "index_worker E r fn i sz s = (case load_index E r i of Panic m \<Rightarrow> (s, Panic m) | idx \<Rightarrow> fn i idx s)"

definition ForAllIndexes ::
  "'b env \<Rightarrow> 'b Lister \<Rightarrow> 'b Repository \<Rightarrow> (ID \<Rightarrow> (Index \<times> bool) res \<Rightarrow> 's \<Rightarrow> 's \<times> unit res) \<Rightarrow> 's \<Rightarrow> 's \<times> unit res" where
  "ForAllIndexes E lst r fn s =
     (case lst (r_be r) IndexFile of (fis, eo) \<Rightarrow>
        bind_st
          (Repo_List fis (index_worker E r fn) s)
          (\<lambda>s _. (s, case eo of None \<Rightarrow> Ok () | Some e \<Rightarrow> Err e)))"

text \<open>The callback of \<open>LoadIndex\<close>, on the master index and the IDs of the valid indexes.\<close>

definition insert_index :: "ID \<Rightarrow> (Index \<times> bool) res \<Rightarrow> MasterIndex \<times> IDSet \<Rightarrow> (MasterIndex \<times> IDSet) \<times> unit res" where
  "insert_index i x s =
     (case x of
        Ok (idx, oldFormat) \<Rightarrow>
          (case Index_IDs idx of
             Ok ids \<Rightarrow> ((MI_Insert (fst s) idx, fold (\<lambda>i s. IDSet_Insert s i) ids (snd s)), Ok ())
           | Err e \<Rightarrow> (s, Err e)
           | Panic m \<Rightarrow> (s, Panic m))
      | Err e \<Rightarrow> (s, Err e)
      | Panic m \<Rightarrow> (s, Panic m))"

text \<open>\<open>LoadIndex\<close>; the IDs it returns are those to which \<open>PrepareCache\<close> restricts the cached indexes.\<close>

definition LoadIndex :: "'b env \<Rightarrow> 'b Lister \<Rightarrow> 'b Repository \<Rightarrow> 'b Repository \<times> IDSet res" where
  "LoadIndex E lst r =
     (case ForAllIndexes E lst r insert_index (r_idx r, NewIDSet []) of
        ((mi, valid), Ok _) \<Rightarrow>
          (case MergeFinalIndexes mi of
             Ok mi' \<Rightarrow> (r\<lparr>r_idx := mi'\<rparr>, Ok valid)
           | Err e \<Rightarrow> (r\<lparr>r_idx := mi\<rparr>, Err e)
           | Panic m \<Rightarrow> (r\<lparr>r_idx := mi\<rparr>, Panic m))
      | ((mi, valid), Err e) \<Rightarrow> (r\<lparr>r_idx := mi\<rparr>, Err (Fatal ''err.Error()''))
      | ((mi, valid), Panic m) \<Rightarrow> (r\<lparr>r_idx := mi\<rparr>, Panic m))"

section \<open>Lemmas: index files\<close>

text \<open>An index with a blob in the null pack is not encoded, so that an encoded one has none.\<close>

lemma fold_bind_Ok:
  "fold (\<lambda>e r. bind_r r (F e)) es r = Ok l' \<Longrightarrow> (\<exists>l. r = Ok l) \<and> (\<forall>e \<in> set es. \<exists>x y. F e x = Ok y)"
proof (induction es arbitrary: r)
  case (Cons e es)
  have "(\<exists>l. bind_r r (F e) = Ok l) \<and> (\<forall>e \<in> set es. \<exists>x y. F e x = Ok y)" using Cons by simp
  then show ?case by (cases r) auto
qed auto

lemma generatePackList_Ok:
  assumes "idx_inv idx" "generatePackList idx = Ok l"
  shows "set (json_blobs l) = set (blob_list idx)"
proof -
  let ?F = "\<lambda>t e lst. bind_r (index_r (idx_packs idx) (int (packIndex e))) (\<lambda>packID.
      if ID_IsNull packID then Panic ''null pack id''
      else Ok (packlist_add packID
        \<lparr>bjID = eID e, bjType = t, bjOffset = ucast (eOffset e), bjLength = ucast (eLength e)\<rparr> lst))"
  let ?g = "\<lambda>t r. fold (\<lambda>e r. bind_r r (?F t e)) (im_all (byType idx t)) r"
  have g: "?g TreeBlob (?g DataBlob (?g InvalidBlob (Ok []))) = Ok l"
    using assms(2) by (simp add: generatePackList_def fold_types foreach_all)
  note T = fold_bind_Ok [OF g]
  obtain l2 where l2: "?g DataBlob (?g InvalidBlob (Ok [])) = Ok l2" using T by blast
  note D = fold_bind_Ok [OF l2]
  obtain l1 where l1: "?g InvalidBlob (Ok []) = Ok l1" using D by blast
  note I = fold_bind_Ok [OF l1]
  have ok: "\<exists>x y. ?F t e x = Ok y" if "e \<in> set (im_all (byType idx t))" for t e
    using that conjunct2 [OF T] conjunct2 [OF D] conjunct2 [OF I] by (cases t) blast+
  have "PackID b \<noteq> nullID" if "b \<in># idx_blobs idx" for b
  proof -
    from that obtain t e where e: "e \<in> set (im_all (byType idx t))" "b = packed idx t e" by (auto simp: mem_idx_blobs)
    have "packIndex e < length (idx_packs idx)" using idx_inv_entry [OF assms(1) e(1)] by simp
    with ok [OF e(1)] show ?thesis by (auto simp: e(2) packed_def index_r_def ID_IsNull_def split: if_splits)
  qed
  then have "mset (json_blobs l) = idx_blobs idx" using generatePackList_ok [OF assms(1)] assms(2) by auto
  then show ?thesis by (metis idx_blobs_def set_mset_mset)
qed

text \<open>A blob that can be read from the backend: what \<open>index_ok\<close> says of each entry.\<close>

definition readable :: "'b env \<Rightarrow> ('b \<Rightarrow> FileType \<times> string \<rightharpoonup> bytes) \<Rightarrow> bytes set \<Rightarrow> 'b \<Rightarrow> Key \<Rightarrow> PackedBlob \<Rightarrow> bool" where
  "readable E files D be k b \<longleftrightarrow> ID_String (PackID b) \<noteq> '''' \<and>
     (\<exists>f. files be (PackFile, ID_String (PackID b)) = Some f \<and> blob_at E k D f b)"

lemma index_ok_readable:
  "index_ok E files D r \<longleftrightarrow> mi_inv (r_idx r) \<and> (\<forall>b \<in> set (mi_blobs (r_idx r)). readable E files D (r_be r) (r_key r) b)"
  by (simp add: index_ok_def readable_def)

lemma readable_mono: "readable E files D be k b \<Longrightarrow> files be \<subseteq>\<^sub>m files be' \<Longrightarrow> readable E files D be' k b"
  unfolding readable_def by (elim conjE exE, intro conjI exI) (erule (1) map_le_Some | assumption)+

text \<open>The file \<open>f\<close> named \<open>n\<close> is the encrypted form of \<open>js\<close>.\<close>

definition index_file :: "'b env \<Rightarrow> Key \<Rightarrow> string \<Rightarrow> bytes \<Rightarrow> jsonIndex \<Rightarrow> bool" where
  "index_file E k n f js \<longleftrightarrow> n = ID_String (Hash (sha256 E) f) \<and> open_frame (e_prims E) k f = Ok (e_marshal E js) \<and>
     (\<forall>b \<in> set (json_blobs (jsPacks js)). fits b)"

definition filed :: "'b env \<Rightarrow> ('b \<Rightarrow> FileType \<times> string \<rightharpoonup> bytes) \<Rightarrow> 'b \<Rightarrow> Key \<Rightarrow> PackedBlob set" where
  "filed E files be k = {b. \<exists>n f js. files be (IndexFile, n) = Some f \<and> index_file E k n f js \<and> b \<in> set (json_blobs (jsPacks js))}"

definition filed_by :: "'b env \<Rightarrow> ('b \<Rightarrow> FileType \<times> string \<rightharpoonup> bytes) \<Rightarrow> 'b \<Rightarrow> Key \<Rightarrow> string \<Rightarrow> PackedBlob set" where
  "filed_by E files be k n = {b. \<exists>f js. files be (IndexFile, n) = Some f \<and> index_file E k n f js \<and> b \<in> set (json_blobs (jsPacks js))}"

lemma filed_Union: "filed E files be k = (\<Union>n \<in> {n. files be (IndexFile, n) \<noteq> None}. filed_by E files be k n)"
  by (auto simp: filed_def filed_by_def)

text \<open>Every index file is one, and what it lists can be read.\<close>

definition files_ok :: "'b env \<Rightarrow> ('b \<Rightarrow> FileType \<times> string \<rightharpoonup> bytes) \<Rightarrow> bytes set \<Rightarrow> 'b \<Rightarrow> Key \<Rightarrow> bool" where
  "files_ok E files D be k \<longleftrightarrow>
     (\<forall>n f. files be (IndexFile, n) = Some f \<longrightarrow> (\<exists>js. index_file E k n f js)) \<and>
     (\<forall>b \<in> filed E files be k. readable E files D be k b)"

lemma filed_mono: "files be \<subseteq>\<^sub>m files be' \<Longrightarrow> filed E files be k \<subseteq> filed E files be' k"
  unfolding filed_def
  by (intro subsetI, unfold mem_Collect_eq, elim conjE exE, intro exI conjI) (erule (1) map_le_Some | assumption)+

lemma filed_same:
  "(\<And>n. files be' (IndexFile, n) = files be (IndexFile, n)) \<Longrightarrow> filed E files be' k = filed E files be k"
  by (simp add: filed_def)

text \<open>The blobs of the indexes that are final.\<close>

definition final_blobs :: "MasterIndex \<Rightarrow> PackedBlob set" where
  "final_blobs mi = (\<Union>idx \<in> {idx \<in> set (mi_idx mi). idx_final idx}. set (blob_list idx))"

lemma final_blobs_sub: "final_blobs mi \<subseteq> set (mi_blobs mi)"
  by (auto simp: final_blobs_def mi_blobs_def)

lemma storePack_loop_final:
  "storePack_loop new i bs idxs = Ok idxs' \<Longrightarrow> \<forall>idx \<in> set (new # idxs). idx_inv idx \<Longrightarrow> \<not> idx_final new \<Longrightarrow>
    filter idx_final idxs' = filter idx_final idxs"
proof (induction idxs arbitrary: idxs')
  case Nil
  then obtain y where y: "Index_StorePack new i bs = Ok y" "idxs' = [y]" by (auto simp: res_simps)
  then have "\<not> idx_final y"
    using index.store_pack_ok [of new bs i] StorePack_Ok_fits [OF y(1)] Nil by auto
  with y show ?case by simp
next
  case (Cons idx idxs)
  show ?case
  proof (cases "idx_final idx")
    case False
    then obtain y where y: "Index_StorePack idx i bs = Ok y" "idxs' = y # idxs"
      using Cons.prems(1) by (auto simp: Index_Final_def res_simps)
    then have "\<not> idx_final y"
      using index.store_pack_ok [of idx bs i] StorePack_Ok_fits [OF y(1)] False Cons.prems(2) by auto
    with y False show ?thesis by simp
  qed (use Cons in \<open>auto simp: Index_Final_def res_simps\<close>)
qed

lemma StorePack_final:
  assumes "mi_inv mi" "MI_StorePack hs now mi i bs = Ok mi'"
  shows "final_blobs mi' = final_blobs mi"
proof -
  have "filter idx_final (mi_idx mi') = filter idx_final (mi_idx mi)"
    using assms storePack_loop_final [of "NewIndex hs now" i bs "mi_idx mi" "mi_idx mi'"] NewIndex_inv [of hs now]
    by (auto simp: MI_StorePack_def Let_def res_simps mi_inv_def)
  then show ?thesis unfolding final_blobs_def by (metis set_filter)
qed

lemma finalize_final:
  assumes "mi_inv mi" "finalize_where p mi = (mi', js)"
  shows "final_blobs mi' \<subseteq> final_blobs mi \<union> (\<Union>idx \<in> set (map (\<lambda>j. mi_idx mi' ! j) js). set (blob_list idx))"
    and "set (map (\<lambda>j. mi_idx mi' ! j) js) \<subseteq> set (mi_idx mi')"
proof -
  have e: "mi_idx mi' = map (\<lambda>idx. if p idx then Index_Finalize idx else idx) (mi_idx mi)"
    "js = filter (\<lambda>j. p (mi_idx mi ! j)) [0..<length (mi_idx mi)]"
    using assms(2) by (auto simp: finalize_where_def)
  show "set (map (\<lambda>j. mi_idx mi' ! j) js) \<subseteq> set (mi_idx mi')" by (auto simp: e)
  show "final_blobs mi' \<subseteq> final_blobs mi \<union> (\<Union>idx \<in> set (map (\<lambda>j. mi_idx mi' ! j) js). set (blob_list idx))"
  proof
    fix b assume "b \<in> final_blobs mi'"
    then obtain idx where idx: "idx \<in> set (mi_idx mi')" "idx_final idx" "b \<in> set (blob_list idx)"
      by (auto simp: final_blobs_def)
    obtain k where "k < length (mi_idx mi')" "mi_idx mi' ! k = idx" using idx(1) unfolding in_set_conv_nth by blast
    with idx have k: "k < length (mi_idx mi)" "idx_final (mi_idx mi' ! k)" "b \<in> set (blob_list (mi_idx mi' ! k))"
      by (simp_all add: e(1))
    show "b \<in> final_blobs mi \<union> (\<Union>idx \<in> set (map (\<lambda>j. mi_idx mi' ! j) js). set (blob_list idx))"
    proof (cases "p (mi_idx mi ! k)")
      case True
      then have "k \<in> set js" using k(1) by (simp add: e)
      with k(3) show ?thesis by auto
    next
      case False
      then have "mi_idx mi' ! k = mi_idx mi ! k" using k(1) by (simp add: e)
      with k show ?thesis by (auto simp: final_blobs_def)
    qed
  qed
qed

lemma MergeFinal_final:
  assumes "mi_inv mi" "MergeFinalIndexes mi = Ok mi'"
  shows "final_blobs mi' \<subseteq> final_blobs mi" "(\<forall>idx \<in> set (mi_idx mi). idx_final idx) \<Longrightarrow> final_blobs mi' = set (mi_blobs mi')"
proof -
  obtain m rest where mr: "mi_idx mi = m # rest" using assms(1) by (cases "mi_idx mi") (auto simp: mi_inv_def)
  have inv: "idx_inv m" "\<forall>x \<in> set (filter idx_final rest). idx_inv x \<and> idx_final x" "idx_final m"
    using assms mr by (auto simp: mi_inv_def)
  obtain m' where m: "mi_idx mi' = m' # filter (\<lambda>x. \<not> idx_final x) rest"
    "fold_r (\<lambda>y x. Index_merge x y) (filter idx_final rest) m = Ok m'"
    using MergeFinalIndexes_eq [OF assms(1) mr] assms(2) by auto
  then have m': "idx_final m'"
    "mset (blob_list m') = add_new (mset (blob_list m)) (concat (map blob_list (filter idx_final rest)))"
    using index.mrg_all [OF inv(1,2)] inv(3) by auto
  have "set (blob_list m') = set (blob_list m) \<union> set (concat (map blob_list (filter idx_final rest)))"
    using arg_cong [OF m'(2), of set_mset] by simp
  then show "final_blobs mi' \<subseteq> final_blobs mi" using inv(3) by (auto simp: final_blobs_def m(1) mr)
  show "final_blobs mi' = set (mi_blobs mi')" if "\<forall>idx \<in> set (mi_idx mi). idx_final idx"
    using that m'(1) by (auto simp: final_blobs_def mi_blobs_def m(1) mr)
qed

text \<open>The index files hold what the final indexes hold.\<close>

definition session_ok :: "'b env \<Rightarrow> ('b \<Rightarrow> FileType \<times> string \<rightharpoonup> bytes) \<Rightarrow> bytes set \<Rightarrow> 'b Repository \<Rightarrow> bool" where
  "session_ok E files D r \<longleftrightarrow> files_ok E files D (r_be r) (r_key r) \<and>
     final_blobs (r_idx r) \<subseteq> filed E files (r_be r) (r_key r)"

context repo_env
begin

lemma SaveUnpacked_Ok:
  assumes "SaveUnpacked E t p r = (r', Ok i)"
  shows "\<exists>nonce f be'. seal_frame (e_prims E) (r_key r) nonce p = Ok f \<and> r' = (tick r)\<lparr>r_be := be'\<rparr> \<and>
    i = (if t = ConfigFile then nullID else Hash (sha256 E) f) \<and>
    Handle_Valid \<lparr>h_Type = t, h_ContainedBlobType = InvalidBlob, h_Name = ID_String i\<rparr> = None \<and>
    files be' = (files (r_be r))(fkey \<lparr>h_Type = t, h_ContainedBlobType = InvalidBlob, h_Name = ID_String i\<rparr> \<mapsto> f)"
proof -
  obtain nonce f where f: "NewRandomNonce (e_rand E (r_tick r)) = Ok nonce" "seal_frame (e_prims E) (r_key r) nonce p = Ok f"
    using assms by (auto simp: SaveUnpacked_def res_simps tick_def)
  define j where "j = (if t = ConfigFile then nullID else Hash (sha256 E) f)"
  let ?h = "\<lparr>h_Type = t, h_ContainedBlobType = InvalidBlob, h_Name = ID_String j\<rparr>"
  obtain be' eo where sv: "e_Save E (r_be r) ?h (NewByteReader f (e_hasher E)) = (be', eo)" by fastforce
  have k: "r_key (tick r) = r_key r" "r_be (tick r) = r_be r" by (simp_all add: tick_def)
  have e: "eo = None" "i = j" "r' = (tick r)\<lparr>r_be := be'\<rparr>"
    using assms by (auto simp: SaveUnpacked_def bind_st_def f k Let_def j_def [symmetric] sv split: option.splits)
  have "Handle_Valid ?h = None" "files be' = (files (r_be r))(fkey ?h \<mapsto> f)"
    using save_ok [OF sv [unfolded e(1)]] by (simp_all add: NewByteReader_def)
  with f(2) e(2,3) j_def show ?thesis by blast
qed

text \<open>What \<open>SaveUnpacked\<close> has saved is what \<open>LoadAndDecrypt\<close> returns.\<close>

lemma LoadAndDecrypt_file:
  assumes "Handle_Valid \<lparr>h_Type = t, h_ContainedBlobType = InvalidBlob, h_Name = ID_String i\<rparr> = None"
    "files (r_be r) (t, if t = ConfigFile then '''' else ID_String i) = Some f"
    "t = ConfigFile \<or> i = Hash (sha256 E) f"
  shows "LoadAndDecrypt E t i r = open_frame (e_prims E) (r_key r) f"
proof -
  let ?h = "\<lparr>h_Type = t, h_ContainedBlobType = InvalidBlob, h_Name = ID_String (if t = ConfigFile then nullID else i)\<rparr>"
  have "Handle_Valid ?h = None" "files (r_be r) (fkey ?h) = Some f"
    using assms(1,2) by (auto simp: fkey_def Handle_Valid_def split: if_splits)
  from loadall_file [OF this] show ?thesis
    using assms(3) by (auto simp: LoadAndDecrypt_def ID_Equal_def)
qed

end

text \<open>The JSON decoder inverts the encoder on the values that are saved.\<close>

locale json_env = repo_env +
  assumes json: "e_unmarshal E (e_marshal E js) = Unmarshalled js"
begin

lemma SaveIndexFile_Ok:
  assumes run: "SaveIndexFile E idx r = (r', Ok i)" and idx: "idx_inv idx"
    and rd: "\<forall>b \<in> set (blob_list idx). readable E files D (r_be r) (r_key r) b"
    and fo: "files_ok E files D (r_be r) (r_key r)" and key: "key_ok (r_key r)"
  shows "files_ok E files D (r_be r') (r_key r) \<and> set (blob_list idx) \<subseteq> filed E files (r_be r') (r_key r) \<and>
    files (r_be r) \<subseteq>\<^sub>m files (r_be r') \<and> r_idx r' = r_idx r \<and> r_key r' = r_key r"
proof -
  obtain js where js: "Index_encode idx = Ok js" "SaveUnpacked E IndexFile (e_marshal E js) r = (r', Ok i)"
    using run by (auto simp: SaveIndexFile_def res_simps)
  obtain l where l: "generatePackList idx = Ok l" "jsPacks js = l" using js(1) by (auto simp: Index_encode_def res_simps)
  have sb: "set (json_blobs (jsPacks js)) = set (blob_list idx)" using generatePackList_Ok [OF idx l(1)] l(2) by simp
  obtain nonce f be' where S: "seal_frame (e_prims E) (r_key r) nonce (e_marshal E js) = Ok f" "r' = (tick r)\<lparr>r_be := be'\<rparr>"
    "i = Hash (sha256 E) f" "files be' = (files (r_be r))((IndexFile, ID_String i) \<mapsto> f)"
    using SaveUnpacked_Ok [OF js(2)] by (auto simp: fkey_def)
  have nn: "nonce_ok nonce" using S(1) key by (simp add: seal_frame_Ok_iff)
  have "set (json_blobs (jsPacks js)) \<subseteq> {b. fits b}" using idx_blobs_fit [of _ idx] sb by (auto simp: idx_blobs_def)
  then have ixf: "index_file E (r_key r) (ID_String i) f js"
    using frames.open_seal [OF conjI [OF prims key] nn S(1)] by (auto simp: index_file_def S(3))
  have mono: "files (r_be r) \<subseteq>\<^sub>m files be'"
    using SaveUnpacked_keeps [of r IndexFile "e_marshal E js"] js(2) S(2) by (simp add: keeps_def)
  have uniq: "js' = js" if "e_marshal E js' = e_marshal E js" for js'
    using that json [of js] json [of js'] by simp
  have "b \<in> filed E files (r_be r) (r_key r) \<or> b \<in> set (blob_list idx)" if "b \<in> filed E files be' (r_key r)" for b
  proof -
    from that obtain n g js' where g: "files be' (IndexFile, n) = Some g" "index_file E (r_key r) n g js'" "b \<in> set (json_blobs (jsPacks js'))"
      by (auto simp: filed_def)
    show ?thesis
    proof (cases "n = ID_String i")
      case True
      then have "g = f" using g(1) by (simp add: S(4))
      then have "js' = js" using g(2) ixf uniq by (simp add: index_file_def)
      then show ?thesis using g(3) sb by simp
    next
      case False
      then have "files (r_be r) (IndexFile, n) = Some g" using g(1) by (simp add: S(4))
      then show ?thesis using g(2,3) by (auto simp: filed_def)
    qed
  qed
  then have "\<forall>b \<in> filed E files be' (r_key r). readable E files D be' (r_key r) b"
    using fo rd readable_mono [where files = files, OF _ mono] unfolding files_ok_def by blast
  moreover have "\<exists>js. index_file E (r_key r) n g js" if "files be' (IndexFile, n) = Some g" for n g
    using that fo ixf by (auto simp: S(4) files_ok_def split: if_splits)
  moreover have "set (blob_list idx) \<subseteq> filed E files be' (r_key r)"
    using ixf sb by (auto simp: filed_def S(4))
  ultimately show ?thesis using mono by (simp add: files_ok_def S(2) tick_def)
qed

end

context json_env
begin

lemma save_indexes_Ok:
  assumes "save_indexes E idxs r = (r', Ok ())"
    "\<forall>idx \<in> set idxs. idx_inv idx \<and> (\<forall>b \<in> set (blob_list idx). readable E files D (r_be r) (r_key r) b)"
    "files_ok E files D (r_be r) (r_key r)" "key_ok (r_key r)"
  shows "files_ok E files D (r_be r') (r_key r) \<and> (\<Union>idx \<in> set idxs. set (blob_list idx)) \<subseteq> filed E files (r_be r') (r_key r) \<and>
    files (r_be r) \<subseteq>\<^sub>m files (r_be r') \<and> r_idx r' = r_idx r \<and> r_key r' = r_key r"
  using assms
proof (induction idxs arbitrary: r)
  case (Cons idx idxs)
  obtain r1 i where 1: "SaveIndexFile E idx r = (r1, Ok i)" "save_indexes E idxs r1 = (r', Ok ())"
    using Cons.prems(1) by (auto simp: res_simps)
  have S: "files_ok E files D (r_be r1) (r_key r)" "set (blob_list idx) \<subseteq> filed E files (r_be r1) (r_key r)"
    "files (r_be r) \<subseteq>\<^sub>m files (r_be r1)" "r_idx r1 = r_idx r" "r_key r1 = r_key r"
    using SaveIndexFile_Ok [OF 1(1)] Cons.prems(2-4) by auto
  have "\<forall>idx \<in> set idxs. idx_inv idx \<and> (\<forall>b \<in> set (blob_list idx). readable E files D (r_be r1) (r_key r1) b)"
    using Cons.prems(2) readable_mono [where files = files, OF _ S(3)] S(5) by auto
  note I = Cons.IH [OF 1(2) this, unfolded S(4,5), OF S(1) Cons.prems(4)]
  have "set (blob_list idx) \<subseteq> filed E files (r_be r') (r_key r)"
    using I S(2) filed_mono [of files "r_be r1" "r_be r'" E "r_key r"] by blast
  then show ?case using I S(3) map_le_trans by auto
qed auto

lemma saveIndex_Ok:
  assumes run: "saveIndex E idxs r = (r', Ok ())" and inv: "index_ok E files D r" "key_ok (r_key r)"
    and fo: "files_ok E files D (r_be r) (r_key r)" and sub: "set idxs \<subseteq> set (mi_idx (r_idx r))"
    and fin: "final_blobs (r_idx r) \<subseteq> filed E files (r_be r) (r_key r) \<union> (\<Union>idx \<in> set idxs. set (blob_list idx))"
  shows "session_ok E files D r'"
    "\<forall>idx \<in> set (mi_idx (r_idx r)). idx_final idx \<Longrightarrow> final_blobs (r_idx r') = set (mi_blobs (r_idx r'))"
proof -
  obtain r1 where r1: "save_indexes E idxs r = (r1, Ok ())"
    "(case MergeFinalIndexes (r_idx r1) of Ok mi \<Rightarrow> (r1\<lparr>r_idx := mi\<rparr>, Ok ()) | Err e \<Rightarrow> (r1, Err e) | Panic m \<Rightarrow> (r1, Panic m)) = (r', Ok ())"
    using run by (auto simp: saveIndex_def res_simps)
  then obtain mi where 1: "save_indexes E idxs r = (r1, Ok ())" "MergeFinalIndexes (r_idx r1) = Ok mi" "r' = r1\<lparr>r_idx := mi\<rparr>"
    by (cases "MergeFinalIndexes (r_idx r1)") auto
  have "\<forall>idx \<in> set idxs. idx_inv idx \<and> (\<forall>b \<in> set (blob_list idx). readable E files D (r_be r) (r_key r) b)"
    using sub inv unfolding index_ok_readable mi_inv_def mi_blobs_def by auto
  note S = save_indexes_Ok [OF 1(1) this fo inv(2)]
  have mi: "mi_inv (r_idx r1)" using inv S by (simp add: index_ok_def)
  have "final_blobs (r_idx r) \<subseteq> filed E files (r_be r1) (r_key r)"
    using fin S filed_mono [of files "r_be r" "r_be r1" E "r_key r"] by blast
  then show "session_ok E files D r'"
    using S MergeFinal_final(1) [OF mi 1(2)] by (auto simp: session_ok_def 1(3))
  show "final_blobs (r_idx r') = set (mi_blobs (r_idx r'))" if "\<forall>idx \<in> set (mi_idx (r_idx r)). idx_final idx"
    using MergeFinal_final(2) [OF mi 1(2)] that S by (simp add: 1(3))
qed

lemma save_finalized_Ok:
  assumes run: "save_finalized E (finalize_where p (r_idx r)) r = (r', Ok ())"
    and inv: "index_ok E files D r" "key_ok (r_key r)" "session_ok E files D r"
  shows "session_ok E files D r'"
    "\<forall>idx. idx_final idx \<or> p idx \<Longrightarrow> final_blobs (r_idx r') = set (mi_blobs (r_idx r'))"
proof -
  obtain mi js where f: "finalize_where p (r_idx r) = (mi, js)" by fastforce
  have mi: "mi_inv (r_idx r)" using inv by (simp add: index_ok_def)
  define r1 where "r1 = r\<lparr>r_idx := mi\<rparr>"
  have i1: "index_ok E files D r1" "key_ok (r_key r1)" "files_ok E files D (r_be r1) (r_key r1)"
    using inv finalize_where_ok [OF mi f] by (simp_all add: index_ok_def r1_def session_ok_def)
  have run1: "saveIndex E (map (\<lambda>j. mi_idx mi ! j) js) r1 = (r', Ok ())" using run by (simp add: save_finalized_def f r1_def)
  have sub: "set (map (\<lambda>j. mi_idx mi ! j) js) \<subseteq> set (mi_idx (r_idx r1))" using finalize_final(2) [OF mi f] by (simp add: r1_def)
  have "final_blobs (r_idx r1) \<subseteq> filed E files (r_be r1) (r_key r1) \<union> (\<Union>idx \<in> set (map (\<lambda>j. mi_idx mi ! j) js). set (blob_list idx))"
    using finalize_final(1) [OF mi f] inv(3) by (auto simp: session_ok_def r1_def)
  note S = saveIndex_Ok [OF run1 i1 sub this]
  show "session_ok E files D r'" by (rule S(1))
  show "final_blobs (r_idx r') = set (mi_blobs (r_idx r'))" if "\<forall>idx. idx_final idx \<or> p idx"
  proof (rule S(2))
    show "\<forall>idx \<in> set (mi_idx (r_idx r1)). idx_final idx"
      using f that mi by (auto simp: r1_def finalize_where_def mi_inv_def Finalize_ok)
  qed
qed

lemmas SaveFullIndex_Ok = save_finalized_Ok(1) [of "\<lambda>idx. \<not> Index_Final idx \<and> IndexFull now idx" for now,
  folded FinalizeFullIndexes_def]

lemma SaveIndex_Ok:
  assumes "SaveIndex E r = (r', Ok ())" "index_ok E files D r" "key_ok (r_key r)" "session_ok E files D r"
  shows "session_ok E files D r' \<and> final_blobs (r_idx r') = set (mi_blobs (r_idx r'))"
  using save_finalized_Ok [OF _ assms(2-4), of "\<lambda>idx. \<not> Index_Final idx" r'] assms(1)
  by (auto simp: SaveIndex_def FinalizeNotFinalIndexes_def Index_Final_def)

lemma savePacker_session:
  assumes run: "savePacker E t p r = ((r', p'), Ok ())" and inv: "index_ok E files D r" "key_ok (r_key r)"
    and p: "packer_ok E (r_key r) D p" and so: "session_ok E files D r"
  shows "session_ok E files D r'"
proof -
  obtain p1 fin where F: "Packer_Finalize (e_prims E) (packer_Write E (r_tick r)) (e_rand E (r_tick r)) p = (p1, fin)" by fastforce
  obtain i rd be' where sv: "rr_data rd = fst (packer_file p1)"
    "e_Save E (r_be (tick r)) \<lparr>h_Type = PackFile, h_ContainedBlobType = t, h_Name = ID_String i\<rparr> rd = (be', None)"
    "store_saved E i p1 ((tick r)\<lparr>r_be := be'\<rparr>) = (r', Ok ())"
    using savePacker_cases [OF run F] by auto
  define r1 where "r1 = (tick r)\<lparr>r_be := be'\<rparr>"
  have k: "keeps files r r1" using keeps_trans [OF keeps_tick keeps_Save [OF sv(2)]] by (simp add: r1_def)
  have f1: "files be' = (files (r_be r))((PackFile, ID_String i) \<mapsto> fst (packer_file p1))" "ID_String i \<noteq> ''''"
    using save_ok [OF sv(2)] sv(1) by (auto simp: fkey_def tick_def Handle_Valid_def split: if_splits)
  have fl: "filed E files be' (r_key r) = filed E files (r_be r) (r_key r)" by (rule filed_same) (simp add: f1(1))
  have mono: "files (r_be r) \<subseteq>\<^sub>m files be'" using k by (simp add: keeps_def r1_def)
  have "files_ok E files D be' (r_key r)"
    using so readable_mono [where files = files, OF _ mono] by (auto simp: session_ok_def files_ok_def fl f1(1))
  then have so1: "session_ok E files D r1" using so by (simp add: session_ok_def r1_def tick_def fl)
  obtain mi where mi: "MI_StorePack (e_maphash E) (e_now E (r_tick r1)) (r_idx r1) i (pkBlobs p1) = Ok mi"
    "(if noAutoIndexUpdate r1 then (r1\<lparr>r_idx := mi\<rparr>, Ok ()) else SaveFullIndex E (r1\<lparr>r_idx := mi\<rparr>)) = (r', Ok ())"
    using sv(3) by (auto simp: store_saved_def r1_def Packer_Blobs_def Let_def split: res.splits if_splits)
  have i1: "index_ok E files D r1" by (rule keeps_index_ok [OF k inv(1)])
  have "packer_ok E (r_key r) D p1" by (rule Finalize_packer_ok [OF F p])
  then have i2: "index_ok E files D (r1\<lparr>r_idx := mi\<rparr>)"
    using store_index_ok [OF i1 f1(2) _ _ mi(1), of "fst (packer_file p1)"] by (simp add: r1_def tick_def f1(1) packer_ok_def)
  have m1: "mi_inv (r_idx r1)" using i1 by (simp add: index_ok_def)
  have so2: "session_ok E files D (r1\<lparr>r_idx := mi\<rparr>)" using so1 StorePack_final [OF m1 mi(1)] by (simp add: session_ok_def)
  show ?thesis
    using mi(2) so2 SaveFullIndex_Ok [of _ "r1\<lparr>r_idx := mi\<rparr>" r' D] i2 inv(2)
    by (auto simp: SaveFullIndex_def r1_def tick_def split: if_splits)
qed

end

section \<open>Lemmas: a session without errors\<close>

lemma session_ok_set_packers [simp]: "session_ok E files D (set_packers t ps r) = session_ok E files D r"
  by (simp add: session_ok_def)

lemma session_ok_tick [simp]: "session_ok E files D (tick r) = session_ok E files D r"
  by (simp add: session_ok_def tick_def)

context json_env
begin

lemma SaveAndEncrypt_session:
  assumes inv: "repo_inv E files D r" and d: "data \<in> D" "Hash (sha256 E) data = i" "length data < 2 ^ 62"
    and run: "SaveAndEncrypt E t data i r = (r', Ok ())" and so: "session_ok E files D r"
  shows "session_ok E files D r'"
proof -
  have r1: "key_ok (r_key (tick r))" "index_ok E files D (tick r)" "packers_ok E D (tick r)"
    using inv by (simp_all add: repo_inv_def tick_def index_ok_def packers_ok_def)
  obtain nonce c ps p q n eo where go: "seal_frame (e_prims E) (r_key (tick r)) nonce data = Ok c"
    "findPacker E (r_tick r) (r_key (tick r)) (packers_of t (tick r)) = Ok (ps, p)"
    "Packer_Add (packer_Write E (r_tick r)) p t i c = (q, n, eo)"
    "case eo of Some e \<Rightarrow> (r', Ok ()) = (set_packers t ps (tick r), Err e)
     | None \<Rightarrow> if Packer_Size q < minPackSize then (r', Ok ()) = (set_packers t (ps @ [q]) (tick r), Ok ())
        else (\<exists>p'. savePacker E t q (set_packers t ps (tick r)) = ((r', p'), Ok ()))"
    using SaveAndEncrypt_cases [OF run] by blast
  note F = findPacker_packers [OF go(2) packers_ok_of [OF r1(3)]]
  have eo: "eo = None" using go(4) by (cases eo) auto
  note A = Add_packer_ok [OF prims r1(1) conjunct1 [OF F(1)] conjunct2 [OF F(1)] d go(1) go(3) [unfolded eo]]
  show ?thesis
  proof (cases "Packer_Size q < minPackSize")
    case False
    then obtain p' where sp: "savePacker E t q (set_packers t ps (tick r)) = ((r', p'), Ok ())" using go(4) eo by auto
    show ?thesis using savePacker_session [OF sp] r1(1,2) A(1) so by simp
  qed (use go(4) eo so in simp)
qed

lemma SaveBlob_session:
  assumes inv: "repo_inv E files D r" and d: "buf \<in> D" "length buf < 2 ^ 62" and i: "ID_IsNull i \<or> i = Hash (sha256 E) buf"
    and run: "SaveBlob E t buf i dup r = (r', newID, kn, Ok ())" and so: "session_ok E files D r"
  shows "session_ok E files D r'"
proof -
  obtain mi ok where ap: "addPending (r_idx r) \<lparr>bID = Hash (sha256 E) buf, bType = t\<rparr> = (mi, ok)" by fastforce
  define r1 where "r1 = r\<lparr>r_idx := mi\<rparr>"
  have mi: "mi_inv (r_idx r)" using inv by (simp add: repo_inv_def index_ok_def)
  note A = addPending_ok [OF mi ap]
  have r1: "repo_inv E files D r1"
    using inv A(1,4) by (simp add: repo_inv_def r1_def index_ok_def packers_ok_def mi_blobs_def)
  have s1: "session_ok E files D r1" using so A(4) by (simp add: session_ok_def final_blobs_def r1_def)
  have "SaveAndEncrypt E t buf (Hash (sha256 E) buf) r1 = (r', Ok ()) \<or> r' = r1"
    using run i ap by (auto simp: SaveBlob_def Let_def r1_def split: prod.splits if_splits)
  then show ?thesis using s1 SaveAndEncrypt_session [OF r1 d(1) refl d(2) _ s1] by auto
qed

lemma flush_loop_session:
  assumes "flush_loop E t ps r = ((r', ps'), Ok ())" "index_ok E files D r" "key_ok (r_key r)"
    "\<forall>p \<in> set ps. packer_ok E (r_key r) D p" "session_ok E files D r"
  shows "session_ok E files D r'"
  using assms
proof (induction ps arbitrary: r ps')
  case (Cons p ps)
  obtain r1 p1 res1 where sp: "savePacker E t p r = ((r1, p1), res1)" by (metis prod.exhaust)
  obtain r2 ps2 res2 where fl: "flush_loop E t ps r1 = ((r2, ps2), res2)" by (metis prod.exhaust)
  have eq: "res1 = Ok ()" "r' = r2" "res2 = Ok ()" using Cons.prems(1) by (cases res1; auto simp: sp fl)+
  have p: "packer_ok E (r_key r) D p" using Cons.prems(4) by simp
  have k: "index_ok E files D r1" "r_key r1 = r_key r"
    using savePacker_ok [OF Cons.prems(2) p sp] by (simp_all add: frame_def)
  have "session_ok E files D r1" by (rule savePacker_session [OF sp [unfolded eq(1)] Cons.prems(2,3) p Cons.prems(5)])
  with Cons.IH [of r1 ps2] fl eq k Cons.prems(3,4) show ?case by simp
qed simp

lemma flush_pm_session:
  assumes "flush_pm E t r = (r', Ok ())" "repo_safe E files D r" "session_ok E files D r"
  shows "session_ok E files D r'"
proof -
  obtain r1 ps res1 where fl: "flush_loop E t (packers_of t r) r = ((r1, ps), res1)" by (metis prod.exhaust)
  have e: "res1 = Ok ()" "r' = set_packers t [] r1" using assms(1) by (cases res1; auto simp: flush_pm_def fl)+
  have "session_ok E files D r1"
    using flush_loop_session [OF fl [unfolded e(1)]] assms(2,3) by (auto simp: repo_safe_def packers_of_def split: if_splits)
  then show ?thesis by (simp add: e(2))
qed

lemma Flush_session:
  assumes run: "Flush E r = (r', Ok ())" and inv: "repo_safe E files D r" "session_ok E files D r" and auto: "\<not> noAutoIndexUpdate r"
  shows "session_ok E files D r' \<and> set (mi_blobs (r_idx r')) \<subseteq> filed E files (r_be r') (r_key r') \<and> r_key r' = r_key r"
proof -
  obtain r1 r2 where f: "flush_pm E DataBlob r = (r1, Ok ())" "flush_pm E TreeBlob r1 = (r2, Ok ())"
    "(if noAutoIndexUpdate r2 then (r2, Ok ()) else SaveIndex E r2) = (r', Ok ())"
    using run by (auto simp: Flush_def FlushPacks_def res_simps)
  note 1 = flush_pm_ok [OF inv(1) f(1)] flush_pm_session [OF f(1) inv]
  note 2 = flush_pm_ok [OF conjunct1 [OF 1(1)] f(2)] flush_pm_session [OF f(2) conjunct1 [OF 1(1)] 1(2)]
  have s: "SaveIndex E r2 = (r', Ok ())" using f(3) 1 2 auto by simp
  have "r_key r' = r_key r2" using SaveIndex_keeps [of r2] s by (simp add: keeps_def)
  moreover have "index_ok E files D r2" "key_ok (r_key r2)" using conjunct1 [OF 2(1)] unfolding repo_safe_def by blast+
  note SaveIndex_Ok [OF s this 2(2)]
  ultimately show ?thesis using 1 2 by (auto simp: session_ok_def)
qed

text \<open>Another session on the same backend: the index is loaded from the files.\<close>

lemma load_index_file:
  assumes "files (r_be r) (IndexFile, n) = Some f" "index_file E (r_key r) n f js" "n \<noteq> ''''"
  shows "\<exists>i idx. ParseID n = Ok i \<and> load_index E r i = Ok (idx, False) \<and> idx_inv idx \<and> idx_final idx \<and>
    set (blob_list idx) = set (json_blobs (jsPacks js))"
proof -
  define i where "i = Hash (sha256 E) f"
  have n: "n = ID_String i" and op: "open_frame (e_prims E) (r_key r) f = Ok (e_marshal E js)"
    and ft: "\<forall>b \<in> set (json_blobs (jsPacks js)). fits b"
    using assms(2) by (simp_all add: index_file_def i_def)
  have "is_ID i" using prims by (simp add: i_def Hash_def is_ID_def sha256_def prims_ok_def idSize_def)
  then have p: "ParseID n = Ok i" by (simp add: n ParseID_String)
  have "LoadAndDecrypt E IndexFile i r = Ok (e_marshal E js)"
    using LoadAndDecrypt_file [of IndexFile i r f] assms(1,3) op by (simp add: n i_def Handle_Valid_def)
  moreover obtain idx where "DecodeIndex (e_maphash E) (e_now E (r_tick r)) (Unmarshalled js) (e_unmarshalOld E (e_marshal E js)) i = Ok (idx, False)"
    "idx_inv idx" "idx_final idx" "idx_blobs idx = mset (json_blobs (jsPacks js))"
    using DecodeIndex_ok [OF ft] by metis
  moreover from this(4) have "set (blob_list idx) = set (json_blobs (jsPacks js))" by (metis idx_blobs_def set_mset_mset)
  ultimately show ?thesis using p by (auto simp: load_index_def json)
qed

lemma json_inj: "e_marshal E a = e_marshal E b \<Longrightarrow> a = b"
  by (metis json unmarshalled.inject(1))

lemma filed_by_eq:
  assumes "files be (IndexFile, n) = Some f" "index_file E k n f js"
  shows "filed_by E files be k n = set (json_blobs (jsPacks js))"
proof -
  have uniq: "js' = js" if "index_file E k n f js'" for js'
    using that assms(2) json_inj [of js' js] by (simp add: index_file_def)
  show ?thesis
  proof (intro set_eqI iffI)
    fix b assume "b \<in> filed_by E files be k n"
    then obtain js' where js': "index_file E k n f js'" "b \<in> set (json_blobs (jsPacks js'))"
      using assms(1) by (auto simp: filed_by_def)
    with uniq [OF js'(1)] show "b \<in> set (json_blobs (jsPacks js))" by simp
  qed (use assms in \<open>auto simp: filed_by_def\<close>)
qed

lemma load_loop_indexes:
  assumes "\<forall>fi \<in> set fis. \<exists>f js. files (r_be r) (IndexFile, fi_Name fi) = Some f \<and> index_file E (r_key r) (fi_Name fi) f js"
    "\<forall>fi \<in> set fis. fi_Name fi \<noteq> []" "mi_inv mi"
  shows "\<exists>mi' v. Repo_List fis (index_worker E r insert_index) (mi, valid) = ((mi', v), Ok ()) \<and> mi_inv mi' \<and>
    set (mi_blobs mi') = set (mi_blobs mi) \<union> (\<Union>fi \<in> set fis. filed_by E files (r_be r) (r_key r) (fi_Name fi))"
  using assms
proof (induction fis arbitrary: mi valid)
  case (Cons fi fis)
  obtain f js where f: "files (r_be r) (IndexFile, fi_Name fi) = Some f" "index_file E (r_key r) (fi_Name fi) f js"
    using Cons.prems(1) by auto
  obtain i idx where i: "ParseID (fi_Name fi) = Ok i" "load_index E r i = Ok (idx, False)" "idx_inv idx" "idx_final idx"
    "set (blob_list idx) = set (json_blobs (jsPacks js))"
    using load_index_file [OF f] Cons.prems(2) by auto
  define mi1 where "mi1 = MI_Insert mi idx"
  have mi1: "mi_inv mi1" "set (mi_blobs mi1) = set (mi_blobs mi) \<union> filed_by E files (r_be r) (r_key r) (fi_Name fi)"
    using Cons.prems(3) i(3,5) by (auto simp: mi1_def MI_Insert_def mi_inv_def mi_blobs_def filed_by_eq [OF f])
  define v1 where "v1 = fold (\<lambda>i s. IDSet_Insert s i) (idx_ids idx) valid"
  obtain mi' v where I: "Repo_List fis (index_worker E r insert_index) (mi1, v1) = ((mi', v), Ok ())" "mi_inv mi'"
    "set (mi_blobs mi') = set (mi_blobs mi1) \<union> (\<Union>fi \<in> set fis. filed_by E files (r_be r) (r_key r) (fi_Name fi))"
    using Cons.IH [OF _ _ mi1(1), of v1] Cons.prems(1,2) by auto
  have "index_worker E r insert_index i (fi_Size fi) (mi, valid) = ((mi1, v1), Ok ())"
    using i(2,4) by (simp add: index_worker_def insert_index_def Index_IDs_def mi1_def v1_def)
  then have "Repo_List (fi # fis) (index_worker E r insert_index) (mi, valid) = ((mi', v), Ok ())" using I(1) i(1) by (simp add: bind_st_def)
  with I(2,3) mi1(2) show ?case by (auto simp: Un_assoc)
qed auto

end

lemma New_simps [simp]:
  "r_be (New E be key) = be" "r_key (New E be key) = key" "dataPM (New E be key) = []" "treePM (New E be key) = []"
  "mi_blobs (r_idx (New E be key)) = []" "pending (New E be key) = {}" "held (New E be key) = {}" "mi_inv (r_idx (New E be key))"
  "\<not> noAutoIndexUpdate (New E be key)" "final_blobs (r_idx (New E be key)) = {}"
proof -
  have b: "blob_list (Index_Finalize (NewIndex h n)) = []" for h n
    using Finalize_ok [OF NewIndex_inv, of h n] NewIndex_blobs [of h n] by (simp add: idx_blobs_def)
  then show "mi_blobs (r_idx (New E be key)) = []" "final_blobs (r_idx (New E be key)) = {}"
    by (simp_all add: New_def mi_blobs_def NewMasterIndex_def final_blobs_def)
  then show "held (New E be key) = {}" by (simp add: held_def indexed_def) (simp add: New_def)
  show "mi_inv (r_idx (New E be key))" by (simp add: New_def NewMasterIndex_inv)
qed (simp_all add: New_def pending_def NewMasterIndex_def)

lemma New_inv: "key_ok key \<Longrightarrow> repo_inv E files D (New E be key)"
  by (simp add: repo_inv_def index_ok_def packers_ok_def)

context json_env
begin

lemma LoadIndex_ok:
  assumes fo: "files_ok E files D be key" and key: "key_ok key"
    and lst: "lst be IndexFile = (fis, None)" "set (map fi_Name fis) = {n. files be (IndexFile, n) \<noteq> None}"
  shows "\<exists>r' v. LoadIndex E lst (New E be key) = (r', Ok v) \<and> index_ok E files D r' \<and>
    set (mi_blobs (r_idx r')) = filed E files be key \<and> r_be r' = be \<and> r_key r' = key"
proof -
  let ?r = "New E be key"
  have names: "\<exists>f js. files be (IndexFile, fi_Name fi) = Some f \<and> index_file E key (fi_Name fi) f js" if "fi \<in> set fis" for fi
  proof -
    have "fi_Name fi \<in> {n. files be (IndexFile, n) \<noteq> None}" using that unfolding lst(2) [symmetric] by simp
    then show ?thesis using fo by (auto simp: files_ok_def)
  qed
  have "fi_Name fi \<noteq> []" if fi: "fi \<in> set fis" for fi
  proof -
    obtain f where "fi_Name fi = ID_String (Hash (sha256 E) f)" using names [OF fi] by (auto simp: index_file_def)
    moreover have "length (Hash (sha256 E) f) = 32" using prims by (simp add: Hash_def sha256_def prims_ok_def)
    then have "ID_String (Hash (sha256 E) f) \<noteq> ID_String []" unfolding ID_String_inj by auto
    ultimately show ?thesis by (simp add: ID_String_def)
  qed
  then obtain mi v where L: "Repo_List fis (index_worker E ?r insert_index) (r_idx ?r, NewIDSet []) = ((mi, v), Ok ())" "mi_inv mi"
    "set (mi_blobs mi) = (\<Union>fi \<in> set fis. filed_by E files be key (fi_Name fi))"
    using load_loop_indexes [of fis ?r "r_idx ?r" "NewIDSet []"] names by auto
  have "(\<Union>fi \<in> set fis. filed_by E files be key (fi_Name fi)) = filed E files be key"
    unfolding filed_Union lst(2) [symmetric] by simp
  with L(3) have b: "set (mi_blobs mi) = filed E files be key" by simp
  obtain mi' where m: "MergeFinalIndexes mi = Ok mi'" "mi_inv mi'" "set (mi_blobs mi') = set (mi_blobs mi)"
    using MergeFinalIndexes_ok [OF L(2)] by blast
  have "LoadIndex E lst ?r = (?r\<lparr>r_idx := mi'\<rparr>, Ok v)"
    using L(1) m(1) lst(1) by (simp add: LoadIndex_def ForAllIndexes_def bind_st_def)
  moreover have "index_ok E files D (?r\<lparr>r_idx := mi'\<rparr>)"
    using m(2,3) b fo by (simp add: index_ok_readable files_ok_def)
  ultimately show ?thesis using m(3) b by (intro exI conjI) (assumption | simp)+
qed

end

section \<open>Runs\<close>

text \<open>Blobs saved one after the other until an error: the type, the data, the ID given by the caller (or the null
  ID) and \<open>storeDuplicate\<close>.\<close>

primrec save_blobs :: "'b env \<Rightarrow> (BlobType \<times> bytes \<times> ID \<times> bool) list \<Rightarrow> 'b Repository \<Rightarrow> 'b Repository \<times> unit res" where
  "save_blobs E [] r = (r, Ok ())"
| "save_blobs E (x # xs) r =
     (case x of (t, buf, i, dup) \<Rightarrow>
        (case SaveBlob E t buf i dup r of (r', newID, kn, res) \<Rightarrow> bind_st (r', res) (\<lambda>r _. save_blobs E xs r)))"

definition blob_args_ok :: "'b env \<Rightarrow> bytes set \<Rightarrow> BlobType \<times> bytes \<times> ID \<times> bool \<Rightarrow> bool" where
  "blob_args_ok E D = (\<lambda>(t, buf, i, dup). buf \<in> D \<and> length buf < 2 ^ 62 \<and> (ID_IsNull i \<or> i = Hash (sha256 E) buf))"

context json_env
begin

lemma save_blobs_ok:
  assumes "save_blobs E xs r = (r', Ok ())" "\<forall>x \<in> set xs. blob_args_ok E D x" "repo_inv E files D r"
    "pending r \<subseteq> held r" "session_ok E files D r"
  shows "repo_inv E files D r' \<and> session_ok E files D r' \<and> noAutoIndexUpdate r' = noAutoIndexUpdate r \<and> r_key r' = r_key r \<and>
    held r \<subseteq> held r' \<and> (\<forall>(t, buf, i, dup) \<in> set xs. \<lparr>bID = Hash (sha256 E) buf, bType = t\<rparr> \<in> held r')"
  using assms
proof (induction xs arbitrary: r)
  case (Cons x xs)
  obtain t buf i dup where x: "x = (t, buf, i, dup)" by (cases x)
  obtain r1 newID kn res where s: "SaveBlob E t buf i dup r = (r1, newID, kn, res)" by (metis prod_cases4)
  have res: "res = Ok ()" "save_blobs E xs r1 = (r', Ok ())" using Cons.prems(1) by (auto simp: x s res_simps)
  have a: "buf \<in> D" "length buf < 2 ^ 62" "ID_IsNull i \<or> i = Hash (sha256 E) buf"
    using Cons.prems(2) by (auto simp: blob_args_ok_def x)
  note B = SaveBlob_ok [OF Cons.prems(3) a s] SaveBlob_session [OF Cons.prems(3) a s [unfolded res(1)] Cons.prems(5)]
  have h: "\<lparr>bID = newID, bType = t\<rparr> \<in> held r1" "held r \<subseteq> held r1" "pending r1 \<subseteq> held r1"
    using B(5) [OF res(1) Cons.prems(4)] by auto
  have "\<forall>x \<in> set xs. blob_args_ok E D x" using Cons.prems(2) by simp
  note I = Cons.IH [OF res(2) this B(2) h(3) B(6)]
  show ?case using I B(1,3,4) h(1,2) by (auto simp: x)
qed simp

lemma session_loads:
  assumes key: "key_ok key" and new: "\<forall>n. files be (IndexFile, n) = None" and xs: "\<forall>x \<in> set xs. blob_args_ok E D x"
    and inj: "inj_on (Hash (sha256 E)) D"
    and run: "save_blobs E xs (New E be key) = (r1, Ok ())" "Flush E r1 = (r2, Ok ())"
    and lst: "lst (r_be r2) IndexFile = (fis, None)" "set (map fi_Name fis) = {n. files (r_be r2) (IndexFile, n) \<noteq> None}"
    and x: "(t, buf, i, dup) \<in> set xs"
  shows "LoadBlob E cache t (Hash (sha256 E) buf) r2 = Ok buf"
    "\<exists>r3 v. LoadIndex E lst (New E (r_be r2) key) = (r3, Ok v) \<and> LoadBlob E cache t (Hash (sha256 E) buf) r3 = Ok buf"
proof -
  have "files_ok E files D be key" using new by (simp add: files_ok_def filed_def)
  then have "session_ok E files D (New E be key)" by (simp add: session_ok_def)
  note S = save_blobs_ok [OF run(1) xs New_inv [OF key] _ this, simplified]
  have safe: "repo_safe E files D r1" using S by (simp add: repo_inv_safe)
  note F = Flush_ok [OF safe run(2)] Flush_session [OF run(2) safe]
  have h: "\<lparr>bID = Hash (sha256 E) buf, bType = t\<rparr> \<in> handle_of ` set (mi_blobs (r_idx r2))"
    using S F(1) x by (auto simp: indexed_def)
  have same: "d = buf" if "d \<in> D" "Hash (sha256 E) d = Hash (sha256 E) buf" for d
    using inj_onD [OF inj that(2,1)] xs x by (auto simp: blob_args_ok_def)
  have i2: "index_ok E files D r2" using F(1) by (simp add: repo_safe_def)
  show "LoadBlob E cache t (Hash (sha256 E) buf) r2 = Ok buf"
    using LoadBlob_found [OF i2 h, of cache] same by auto
  have "session_ok E files D r1" "\<not> noAutoIndexUpdate r1" using S by simp_all
  note F2 = F(2) [OF this]
  have so: "files_ok E files D (r_be r2) key" "set (mi_blobs (r_idx r2)) \<subseteq> filed E files (r_be r2) key"
    using F2 S unfolding session_ok_def by (elim conjE, simp)+
  obtain r3 v where r3: "LoadIndex E lst (New E (r_be r2) key) = (r3, Ok v)" "index_ok E files D r3"
    "set (mi_blobs (r_idx r3)) = filed E files (r_be r2) key"
    using LoadIndex_ok [of D "r_be r2" key lst fis, OF so(1) key lst] by blast
  have "\<lparr>bID = Hash (sha256 E) buf, bType = t\<rparr> \<in> handle_of ` set (mi_blobs (r_idx r3))" using h so(2) r3(3) by auto
  then show "\<exists>r3 v. LoadIndex E lst (New E (r_be r2) key) = (r3, Ok v) \<and> LoadBlob E cache t (Hash (sha256 E) buf) r3 = Ok buf"
    using LoadBlob_found [OF r3(2), of "Hash (sha256 E) buf" t cache] same r3(1) by blast
qed

end

text \<open>
  One step of a session, with any outcome. The flag says that the packers can be added to: after a
  \<open>Flush\<close> that failed they hold headers of unfinished packs, and blobs may only be saved again once a later
  \<open>Flush\<close> has succeeded.
\<close>

inductive repo_step :: "'b env \<Rightarrow> bytes set \<Rightarrow> 'b Repository \<times> bool \<Rightarrow> 'b Repository \<times> bool \<Rightarrow> bool" for E D where
  blob: "blob_args_ok E D (t, buf, i, dup) \<Longrightarrow> SaveBlob E t buf i dup r = (r', out) \<Longrightarrow> repo_step E D (r, True) (r', True)"
| unpacked: "SaveUnpacked E t p r = (r', out) \<Longrightarrow> repo_step E D (r, b) (r', b)"
| index: "SaveIndex E r = (r', out) \<Longrightarrow> repo_step E D (r, b) (r', b)"
| fullIndex: "SaveFullIndex E r = (r', out) \<Longrightarrow> repo_step E D (r, b) (r', b)"
| flushPacks: "FlushPacks E r = (r', res) \<Longrightarrow> repo_step E D (r, b) (r', res = Ok ())"
| flush: "Flush E r = (r', res) \<Longrightarrow> repo_step E D (r, b) (r', res = Ok ())"
| noAuto: "repo_step E D (r, b) (DisableAutoIndexUpdate r, b)"

inductive_cases repo_stepE: "repo_step E D (r, b) (r', b')"

definition repo_typed :: "'b env \<Rightarrow> ('b \<Rightarrow> FileType \<times> string \<rightharpoonup> bytes) \<Rightarrow> bytes set \<Rightarrow> 'b Repository \<times> bool \<Rightarrow> bool" where
  "repo_typed E files D s \<longleftrightarrow> repo_safe E files D (fst s) \<and> (snd s \<longrightarrow> repo_inv E files D (fst s))"

lemma keeps_typed: "keeps files r r' \<Longrightarrow> repo_typed E files D (r, b) \<Longrightarrow> repo_typed E files D (r', b)"
  using keeps_safe [of files r r' E D] keeps_packers_ok [of files r r' E D]
  by (auto simp: repo_typed_def repo_inv_def repo_safe_def)

lemma flushed_typed: "repo_safe E files D r \<Longrightarrow> dataPM r = [] \<Longrightarrow> treePM r = [] \<Longrightarrow> repo_typed E files D (r, b)"
  by (simp add: repo_typed_def repo_inv_safe)

lemma unflushed_typed: "repo_safe E files D r \<Longrightarrow> repo_typed E files D (r, False)"
  by (simp add: repo_typed_def)

context repo_env
begin

lemma step_typed:
  assumes "repo_step E D s s'" "repo_typed E files D s"
  shows "repo_typed E files D s'"
  using assms
proof (induction rule: repo_step.induct)
  case (blob t buf i dup r r' out)
  obtain newID kn res where "out = (newID, kn, res)" by (metis prod_cases3)
  then have "repo_inv E files D r'"
    using SaveBlob_ok(2) [of D r buf i t dup r' newID kn res] blob by (auto simp: blob_args_ok_def repo_typed_def)
  then show ?case by (simp add: repo_typed_def repo_inv_safe)
next
  case (unpacked t p r r' out b)
  then show ?case using SaveUnpacked_keeps [of r t p] keeps_typed by fastforce
next
  case (index r r' out b)
  then show ?case using SaveIndex_keeps [of r] keeps_typed by fastforce
next
  case (fullIndex r r' out b)
  then show ?case using SaveFullIndex_keeps [of r] keeps_typed by fastforce
next
  case (flushPacks r r' res b)
  then have F: "repo_safe E files D r'" "res = Ok () \<Longrightarrow> dataPM r' = [] \<and> treePM r' = []"
    using FlushPacks_ok [of D r r' res] by (auto simp: repo_typed_def)
  then show ?case using flushed_typed unflushed_typed by (cases "res = Ok ()") auto
next
  case (flush r r' res b)
  then have F: "repo_safe E files D r'" "res = Ok () \<Longrightarrow> dataPM r' = [] \<and> treePM r' = []"
    using Flush_ok [of D r r' res] by (auto simp: repo_typed_def)
  then show ?case using flushed_typed unflushed_typed by (cases "res = Ok ()") auto
next
  case (noAuto r b)
  then show ?case
    by (auto simp: repo_typed_def repo_safe_def repo_inv_def packers_ok_def index_ok_def DisableAutoIndexUpdate_def)
qed

lemma run_typed: "(repo_step E D)\<^sup>*\<^sup>* s s' \<Longrightarrow> repo_typed E files D s \<Longrightarrow> repo_typed E files D s'"
  by (induction rule: rtranclp_induct) (auto intro: step_typed)

end

section \<open>A repository in the memory backend\<close>

definition mem_lister :: "memMap Lister" where
  "mem_lister be t = (mem_entries be t, None)"

text \<open>A form of an index as bytes with its inverse, in place of JSON text, for concrete evaluations.\<close>

definition enc_nat :: "nat \<Rightarrow> bytes" where
  "enc_nat n = replicate n 1 @ [0]"

definition dec_nat :: "bytes \<Rightarrow> nat \<times> bytes" where
  "dec_nat b = (length (takeWhile (\<lambda>x. x = 1) b), tl (dropWhile (\<lambda>x. x = 1) b))"

primrec dec_n :: "(bytes \<Rightarrow> 'a \<times> bytes) \<Rightarrow> nat \<Rightarrow> bytes \<Rightarrow> 'a list \<times> bytes" where
  "dec_n d 0 b = ([], b)"
| "dec_n d (Suc n) b = (case d b of (x, b1) \<Rightarrow> (case dec_n d n b1 of (xs, b2) \<Rightarrow> (x # xs, b2)))"

definition enc_list :: "('a \<Rightarrow> bytes) \<Rightarrow> 'a list \<Rightarrow> bytes" where
  "enc_list e xs = enc_nat (length xs) @ concat (map e xs)"

definition dec_list :: "(bytes \<Rightarrow> 'a \<times> bytes) \<Rightarrow> bytes \<Rightarrow> 'a list \<times> bytes" where
  "dec_list d b = (case dec_nat b of (n, b1) \<Rightarrow> dec_n d n b1)"

definition enc_id :: "ID \<Rightarrow> bytes" where
  "enc_id = enc_list (\<lambda>x. [x])"

definition dec_id :: "bytes \<Rightarrow> ID \<times> bytes" where
  "dec_id = dec_list (\<lambda>b. (hd b, tl b))"

definition enc_blob :: "blobJSON \<Rightarrow> bytes" where
  "enc_blob b = enc_id (bjID b) @ enc_nat (case bjType b of InvalidBlob \<Rightarrow> 0 | DataBlob \<Rightarrow> 1 | TreeBlob \<Rightarrow> 2) @
     enc_nat (unat (bjOffset b)) @ enc_nat (unat (bjLength b))"

definition dec_blob :: "bytes \<Rightarrow> blobJSON \<times> bytes" where
  "dec_blob b =
     (case dec_id b of (i, b1) \<Rightarrow> case dec_nat b1 of (t, b2) \<Rightarrow> case dec_nat b2 of (off, b3) \<Rightarrow> case dec_nat b3 of (l, b4) \<Rightarrow>
        (\<lparr>bjID = i, bjType = if t = 0 then InvalidBlob else if t = 1 then DataBlob else TreeBlob,
          bjOffset = of_nat off, bjLength = of_nat l\<rparr>, b4))"

definition enc_pack :: "packJSON \<Rightarrow> bytes" where
  "enc_pack p = enc_id (pjID p) @ enc_list enc_blob (pjBlobs p)"

definition dec_pack :: "bytes \<Rightarrow> packJSON \<times> bytes" where
  "dec_pack b = (case dec_id b of (i, b1) \<Rightarrow> case dec_list dec_blob b1 of (bs, b2) \<Rightarrow> (\<lparr>pjID = i, pjBlobs = bs\<rparr>, b2))"

definition toy_marshal :: "jsonIndex \<Rightarrow> bytes" where
  "toy_marshal js = enc_list enc_id (jsSupersedes js) @ enc_list enc_pack (jsPacks js)"

definition toy_unmarshal :: "bytes \<Rightarrow> jsonIndex unmarshalled" where
  "toy_unmarshal b =
     (case dec_list dec_id b of (s, b1) \<Rightarrow> case dec_list dec_pack b1 of (ps, b2) \<Rightarrow> Unmarshalled \<lparr>jsSupersedes = s, jsPacks = ps\<rparr>)"

lemma dec_enc_nat [simp]: "dec_nat (enc_nat n @ b) = (n, b)"
  by (induction n) (auto simp: dec_nat_def enc_nat_def)

lemma dec_enc_list [simp]:
  assumes "\<And>x b. d (e x @ b) = (x, b)"
  shows "dec_list d (enc_list e xs @ b) = (xs, b)"
proof -
  have "dec_n d (length xs) (concat (map e xs) @ b) = (xs, b)" by (induction xs) (auto simp: assms)
  then show ?thesis by (simp add: dec_list_def enc_list_def)
qed

lemma dec_enc_id [simp]: "dec_id (enc_id i @ b) = (i, b)"
  unfolding dec_id_def enc_id_def by (rule dec_enc_list) simp

lemma dec_enc_blob [simp]: "dec_blob (enc_blob x @ b) = (x, b)"
  by (cases x) (simp add: dec_blob_def enc_blob_def split: BlobType.split)

lemma dec_enc_pack [simp]: "dec_pack (enc_pack x @ b) = (x, b)"
  by (cases x) (simp add: dec_pack_def enc_pack_def)

lemma toy_unmarshal_marshal: "toy_unmarshal (toy_marshal js) = Unmarshalled js"
proof -
  have "dec_list dec_pack (enc_list enc_pack (jsPacks js)) = (jsPacks js, [])"
    using dec_enc_list [OF dec_enc_pack, of "jsPacks js" "[]"] by simp
  then show ?thesis by (cases js) (simp add: toy_unmarshal_def toy_marshal_def)
qed

text \<open>The memory backend as the surroundings of a repository; \<open>rnd\<close> is the random source.\<close>

definition mem_env :: "prims \<Rightarrow> (bytes \<Rightarrow> bytes) \<Rightarrow> (nat \<Rightarrow> bytes option) \<Rightarrow> (nat \<Rightarrow> bytes \<Rightarrow> bytes \<Rightarrow> (nat \<times> error) option) \<Rightarrow> memMap env" where
  "mem_env P md5 rnd fault =
     \<lparr>e_prims = P, e_hasher = Some md5, e_Save = mem_Save md5 None, e_open = mem_openReader None, e_rand = rnd,
      e_now = int, e_maphash = (\<lambda>t i. 0), e_TempFile = (\<lambda>k. None), e_fault = fault, e_seek = (\<lambda>k. (None, None)),
      e_close = (\<lambda>k. None), e_remove = (\<lambda>k. None), e_marshal = toy_marshal, e_unmarshal = toy_unmarshal,
      e_unmarshalOld = (\<lambda>b. UnmarshalError [])\<rparr>"

lemma mem_json_env:
  assumes "prims_ok P"
  shows "json_env (mem_env P md5 rnd fault) mem_files"
proof -
  have "store (e_Save (mem_env P md5 rnd fault)) (e_open (mem_env P md5 rnd fault)) mem_files"
    using mem.store_axioms by (simp add: mem_env_def)
  then show ?thesis
    using assms toy_unmarshal_marshal by (simp add: json_env_def repo_env_def repo_env_axioms_def json_env_axioms_def mem_env_def)
qed

interpretation mem_repo: json_env "mem_env toy_prims md5 rnd fault" mem_files for md5 rnd fault
  by (rule mem_json_env [OF toy_prims_ok])

lemma mem_lister_names:
  assumes "list_all (\<lambda>(k, d). h_ContainedBlobType k = InvalidBlob) be"
  shows "set (map fi_Name (mem_entries be t)) = {n. mem_files be (t, n) \<noteq> None}"
proof -
  have "n \<in> set (map fi_Name (mem_entries be t)) \<longleftrightarrow> (\<exists>k d. (k, d) \<in> set be \<and> h_Type k = t \<and> h_Name k = n)" for n
    by (force simp: mem_entries_def)
  moreover have "mem_files be (t, n) \<noteq> None \<longleftrightarrow> (\<exists>d. (\<lparr>h_Type = t, h_ContainedBlobType = InvalidBlob, h_Name = n\<rparr>, d) \<in> set be)" for n
    unfolding mem_files_def map_of_eq_None_iff by (force simp: image_iff)
  moreover have "k = \<lparr>h_Type = t, h_ContainedBlobType = InvalidBlob, h_Name = n\<rparr> \<longleftrightarrow> h_Type k = t \<and> h_Name k = n" if "(k, d) \<in> set be" for k d n
    using that assms by (cases k) (auto simp: list_all_iff)
  ultimately show ?thesis by (intro set_eqI) (simp, metis)
qed

text \<open>The count of blobs on integers, for evaluation.\<close>

lemma IndexFull_code [code]:
  "IndexFull now idx =
     (now - idx_created idx \<ge> indexMaxAge \<or>
      int (im_len (byType idx InvalidBlob)) + int (im_len (byType idx DataBlob)) + int (im_len (byType idx TreeBlob)) \<ge> 50000)"
  by (auto simp: IndexFull_def Let_def all_types_def indexMaxBlobs_def)

definition toy_rand :: "nat \<Rightarrow> bytes option" where
  "toy_rand k = Some (replicate 16 (of_nat k + 1))"

definition toy_env :: "(nat \<Rightarrow> bytes \<Rightarrow> bytes \<Rightarrow> (nat \<times> error) option) \<Rightarrow> memMap env" where
  "toy_env fault = mem_env toy_prims (\<lambda>b. []) toy_rand fault"

definition no_fault :: "nat \<Rightarrow> bytes \<Rightarrow> bytes \<Rightarrow> (nat \<times> error) option" where
  "no_fault k f d = None"

definition toy_saved :: "memMap Repository \<times> unit res" where
  "toy_saved = save_blobs (toy_env no_fault) [(DataBlob, [1, 2, 3], nullID, False)] (New (toy_env no_fault) mem_New toy_key)"

definition toy_flushed :: "memMap Repository \<times> unit res" where
  "toy_flushed = Flush (toy_env no_fault) (fst toy_saved)"

lemma is_ok_unit: "is_ok res \<Longrightarrow> res = Ok ()" for res :: "unit res"
  by (cases res) auto

lemma toy_saved_ok: "toy_saved = (fst toy_saved, Ok ())"
proof -
  have "is_ok (snd toy_saved)" by code_simp
  then show ?thesis using is_ok_unit [of "snd toy_saved"] by (simp add: prod_eq_iff)
qed

lemma toy_flushed_ok: "toy_flushed = (fst toy_flushed, Ok ())"
  "list_all (\<lambda>(k, d). h_ContainedBlobType k = InvalidBlob) (r_be (fst toy_flushed))"
proof -
  have "is_ok (snd toy_flushed)" by code_simp
  then show "toy_flushed = (fst toy_flushed, Ok ())" using is_ok_unit [of "snd toy_flushed"] by (simp add: prod_eq_iff)
  show "list_all (\<lambda>(k, d). h_ContainedBlobType k = InvalidBlob) (r_be (fst toy_flushed))" by code_simp
qed

section \<open>Properties\<close>

text \<open>C1: Backup and restore. In a repository without index files, blobs are saved with \<open>SaveBlob\<close>, each with its
  hash or the null ID as the ID, and \<open>Flush\<close> is called; no call returns an error. Then \<open>LoadBlob\<close> returns each
  blob, whatever is cached. And another session, which opens the same backend with the same key and calls
  \<open>LoadIndex\<close>, loads the index without an error and \<open>LoadBlob\<close> returns each blob as well. The hypotheses
  are the contract of the backend, a JSON decoder that inverts the encoder, a complete listing of the index files, and
  that the hash tells apart the data that was saved.\<close>

theorem session_roundtrip:
  assumes "json_env E files" "key_ok key" "\<forall>n. files be (IndexFile, n) = None"
    and "\<forall>x \<in> set xs. blob_args_ok E D x" "inj_on (Hash (sha256 E)) D"
    and "save_blobs E xs (New E be key) = (r1, Ok ())" "Flush E r1 = (r2, Ok ())"
    and "lst (r_be r2) IndexFile = (fis, None)" "set (map fi_Name fis) = {n. files (r_be r2) (IndexFile, n) \<noteq> None}"
    and "(t, buf, i, dup) \<in> set xs"
  shows "LoadBlob E cache t (Hash (sha256 E) buf) r2 = Ok buf \<and>
    (\<exists>r3 v. LoadIndex E lst (New E (r_be r2) key) = (r3, Ok v) \<and> LoadBlob E cache t (Hash (sha256 E) buf) r3 = Ok buf)"
  using json_env.session_loads [OF assms(1-7), of lst fis, OF assms(8-10)] by blast

theorem session_roundtrip_witness:
  "LoadBlob (toy_env no_fault) (\<lambda>h. False) DataBlob (Hash (sha256 (toy_env no_fault)) [1, 2, 3]) (fst toy_flushed) = Ok [1, 2, 3]"
proof -
  have "json_env (toy_env no_fault) mem_files" unfolding toy_env_def by (rule mem_json_env [OF toy_prims_ok])
  moreover have "save_blobs (toy_env no_fault) [(DataBlob, [1, 2, 3], nullID, False)] (New (toy_env no_fault) mem_New toy_key) = (fst toy_saved, Ok ())"
    by (subst toy_saved_def [symmetric]) (rule toy_saved_ok)
  moreover have "Flush (toy_env no_fault) (fst toy_saved) = (fst toy_flushed, Ok ())"
    by (subst toy_flushed_def [symmetric]) (rule toy_flushed_ok(1))
  moreover have "\<forall>x \<in> set [(DataBlob, [1, 2, 3], nullID, False)]. blob_args_ok (toy_env no_fault) {[1, 2, 3]} x"
    by (simp add: blob_args_ok_def ID_IsNull_def)
  moreover have "mem_lister (r_be (fst toy_flushed)) IndexFile = (mem_entries (r_be (fst toy_flushed)) IndexFile, None)"
    by (simp add: mem_lister_def)
  moreover note mem_lister_names [OF toy_flushed_ok(2), of IndexFile]
  moreover have "\<forall>n. mem_files mem_New (IndexFile, n) = None" by (simp add: mem_files_def mem_New_def)
  ultimately have "LoadBlob (toy_env no_fault) (\<lambda>h. False) DataBlob (Hash (sha256 (toy_env no_fault)) [1, 2, 3]) (fst toy_flushed) = Ok [1, 2, 3] \<and>
    (\<exists>r3 v. LoadIndex (toy_env no_fault) mem_lister (New (toy_env no_fault) (r_be (fst toy_flushed)) toy_key) = (r3, Ok v) \<and>
      LoadBlob (toy_env no_fault) (\<lambda>h. False) DataBlob (Hash (sha256 (toy_env no_fault)) [1, 2, 3]) r3 = Ok [1, 2, 3])"
    by - (rule session_roundtrip [OF _ toy_key_ok, where i = nullID and dup = False], assumption+, simp_all)
  then show ?thesis by (rule conjunct1)
qed



lemma write_fails:
  assumes "\<forall>f d. e_fault E k f d \<noteq> None"
  shows "\<exists>w' n e. packer_Write E k w d = (w', n, Some e)"
proof -
  have "\<exists>f' n e. tmp_Write (e_fault E k) f d = (f', n, Some e)" for f
    using assms [rule_format, of "fst f" d] by (auto simp: tmp_Write_def file_Write_def split: prod.splits)
  then obtain f' n e where "tmp_Write (e_fault E k) (hw_w (hw_w w)) d = (f', n, Some e)" by blast
  then show ?thesis by (simp add: packer_Write_def Writer_Write_def)
qed

text \<open>C36: A failed write loses blobs that were saved before. If the write of a new blob to the temporary file of the
  packer fails, \<open>SaveBlob\<close> returns the error, but the packer is gone, with the blobs that were added to it without an
  error. They are in no index, so that \<open>LoadBlob\<close> does not find them; and they are still known to the master index, so
  that saving one of them again returns without an error and saves nothing.\<close>

theorem write_error_loses_blobs:
  assumes "mi_inv (r_idx r)" "key_ok (r_key r)" "dataPM r = [p]"
    and b: "b \<in> set (pkBlobs p)" "bType b = DataBlob" "\<not> ID_IsNull (bID b)" "handle_of b \<in> pending r" "handle_of b \<notin> indexed r"
    and "e_rand E (r_tick r) = Some nonce" "nonce_ok nonce" "\<forall>f d. e_fault E (r_tick r) f d \<noteq> None"
    and "SaveBlob E DataBlob buf i False r = (r', j, False, res)"
  shows "\<not> is_ok res \<and> dataPM r' = [] \<and>
    LoadBlob E cache DataBlob (bID b) r' = Err (Errorf ''id %v not found in repository'') \<and>
    SaveBlob E DataBlob buf' (bID b) False r' = (r', bID b, True, Ok ())"
proof -
  obtain mi ok where ap: "addPending (r_idx r) \<lparr>bID = if ID_IsNull i then Hash (sha256 E) buf else i, bType = DataBlob\<rparr> = (mi, ok)" by fastforce
  note A = addPending_ok [OF assms(1) ap]
  define r1 where "r1 = r\<lparr>r_idx := mi\<rparr>"
  have sv: "SaveAndEncrypt E DataBlob buf j r1 = (r', res)"
    using assms(12) ap by (auto simp: SaveBlob_def Let_def r1_def split: prod.splits if_splits)
  obtain nonce' c where c: "NewRandomNonce (e_rand E (r_tick r)) = Ok nonce'" "seal_frame (e_prims E) (r_key r) nonce' buf = Ok c"
    using assms(9,10) seal_frame_ok [OF assms(2,10), of "e_prims E" buf]
    by (auto simp: NewRandomNonce_def rand_Read_def nonce_ok_def)
  obtain q n e where q: "Packer_Add (packer_Write E (r_tick r)) p DataBlob j c = (q, n, Some e)"
    using write_fails [OF assms(11), of "pkWr p" c] by (auto simp: Packer_Add_def Let_def wrap_err_def split: prod.splits)
  have r': "r' = set_packers DataBlob [] (tick r1)" "\<not> is_ok res"
    using sv c q assms(3) by (auto simp: SaveAndEncrypt_def bind_st_def findPacker_def packers_of_def r1_def tick_def Let_def)
  have mi: "r_idx r' = mi" "mi_inv mi" using A(1) by (simp_all add: r'(1) r1_def tick_def)
  have h: "handle_of b = \<lparr>bID = bID b, bType = DataBlob\<rparr>" using b(2) by (simp add: handle_of_def)
  have ni: "\<lparr>bID = bID b, bType = DataBlob\<rparr> \<notin> handle_of ` set (mi_blobs mi)"
    using b(5) A(4) h by (simp add: indexed_def mi_blobs_def)
  then have "filter (\<lambda>x. handle_of x = \<lparr>bID = bID b, bType = DataBlob\<rparr>) (mi_blobs mi) = []"
    unfolding filter_empty_conv by (metis imageI)
  then have "LoadBlob E cache DataBlob (bID b) r' = Err (Errorf ''id %v not found in repository'')"
    by (simp add: LoadBlob_def mi MI_Lookup_eq)
  moreover have "BlobSet_Has (pendingBlobs mi) \<lparr>bID = bID b, bType = DataBlob\<rparr>"
    using b(4) h ap by (auto simp: pending_def addPending_def split: if_splits)
  then have "SaveBlob E DataBlob buf' (bID b) False r' = (r', bID b, True, Ok ())"
    using b(3) mi(1) by (simp add: SaveBlob_def addPending_def)
  ultimately show ?thesis using r' by (simp add: set_packers_def)
qed

definition disk_full :: "nat \<Rightarrow> bytes \<Rightarrow> bytes \<Rightarrow> (nat \<times> error) option" where
  "disk_full k f d = (if k = 1 then Some (0, ErrOther ''no space left on device'') else None)"

definition toy_one :: "memMap Repository" where
  "toy_one = fst (SaveBlob (toy_env disk_full) DataBlob [1, 2, 3] nullID False (New (toy_env disk_full) mem_New toy_key))"

theorem write_error_loses_blobs_witness:
  "dataPM (fst (SaveBlob (toy_env disk_full) DataBlob [4, 5] nullID False toy_one)) = []"
proof -
  define p where "p = hd (dataPM toy_one)"
  define b where "b = hd (pkBlobs p)"
  define out where "out = SaveBlob (toy_env disk_full) DataBlob [4, 5] nullID False toy_one"
  have "length (dataPM toy_one) = 1" "length (pkBlobs (hd (dataPM toy_one))) = 1" by code_simp+
  then have p: "dataPM toy_one = [p]" "b \<in> set (pkBlobs p)" by (auto simp: p_def b_def length_Suc_conv)
  have b: "bType b = DataBlob" "\<not> ID_IsNull (bID b)" "handle_of b \<in> pending toy_one"
    unfolding b_def p_def pending_def by code_simp+
  have env: "repo_env (toy_env disk_full) mem_files"
    unfolding toy_env_def using mem_json_env [OF toy_prims_ok] by (simp add: json_env_def)
  obtain j kn res where sv: "SaveBlob (toy_env disk_full) DataBlob [1, 2, 3] nullID False (New (toy_env disk_full) mem_New toy_key) = (toy_one, j, kn, res)"
    unfolding toy_one_def by (metis prod.collapse)
  have "repo_inv (toy_env disk_full) mem_files UNIV toy_one"
    by (rule repo_env.SaveBlob_ok(2) [OF env New_inv [OF toy_key_ok] _ _ _ sv]) (simp_all add: ID_IsNull_def)
  then have mi: "mi_inv (r_idx toy_one)" "key_ok (r_key toy_one)" by (simp_all add: repo_inv_def index_ok_def)
  have "mi_blobs (r_idx toy_one) = []" by code_simp
  then have ni: "handle_of b \<notin> indexed toy_one" by (simp add: indexed_def)
  have tk: "r_tick toy_one = 1" by code_simp
  have rnd: "e_rand (toy_env disk_full) (r_tick toy_one) = Some (replicate 16 2)" "nonce_ok (replicate 16 2)" unfolding tk by code_simp+
  have ft: "\<forall>f d. e_fault (toy_env disk_full) (r_tick toy_one) f d \<noteq> None"
    by (simp add: tk toy_env_def mem_env_def disk_full_def)
  have "\<not> fst (snd (snd (SaveBlob (toy_env disk_full) DataBlob [4, 5] nullID False toy_one)))" by code_simp
  then have "out = (fst out, fst (snd out), False, snd (snd (snd out)))" by (simp add: prod_eq_iff out_def)
  from write_error_loses_blobs [OF mi p b(1,2,3) ni rnd ft this [unfolded out_def]]
  show ?thesis by (simp add: out_def)
qed

end
