(* ===== verification/Keys.thy ===== *)
theory Keys
  imports RepoRuns
begin

text \<open>
  Key files and opening a repository: \<open>repository/key.go\<close>, \<open>key_rapi.go\<close>, the JSON forms of keys in
  \<open>crypto/crypto.go\<close>, \<open>restic/config.go\<close>, and \<open>Init\<close> and \<open>SearchKey\<close> of \<open>repository/repository.go\<close>.

  A key file holds the master key of the repository, encrypted with a key that is derived from the password. The
  record \<open>keyenv\<close> holds what the code takes from libraries and the system: scrypt, the calibration of its
  parameters, the names of host and user, the JSON text of the values handed to the encoder, and the test of a
  polynomial. The random bytes of a call are the record \<open>draws\<close>.

  A backend that lists files may or may not look at its context between two files; \<open>stops\<close> says whether it does.
\<close>

section \<open>Forms of keys\<close>

record jsonKeys =
  jk_K :: bytes
  jk_R :: bytes
  jk_encrypt :: bytes

definition Key_MarshalJSON :: "Key \<Rightarrow> jsonKeys" where
  "Key_MarshalJSON k = \<lparr>jk_K = macK (kMAC k), jk_R = macR (kMAC k), jk_encrypt = kEnc k\<rparr>"

text \<open>The values are copied into the arrays of a new key.\<close>

definition MACKey_UnmarshalJSON :: "jsonKeys \<Rightarrow> MACKey" where
  "MACKey_UnmarshalJSON j =
     \<lparr>macK = copy_to (replicate macKeySizeK 0) (jk_K j), macR = copy_to (replicate macKeySizeR 0) (jk_R j), masked = False\<rparr>"

definition EncryptionKey_UnmarshalJSON :: "jsonKeys \<Rightarrow> bytes" where
  "EncryptionKey_UnmarshalJSON j = copy_to (replicate aesKeySize 0) (jk_encrypt j)"

definition Key_UnmarshalJSON :: "jsonKeys \<Rightarrow> Key" where
  "Key_UnmarshalJSON j = \<lparr>kMAC = MACKey_UnmarshalJSON j, kEnc = EncryptionKey_UnmarshalJSON j\<rparr>"

text \<open>The exported fields of \<open>repository.Key\<close>, which are its JSON form, and the whole structure.\<close>

record keyFile =
  k_Created :: int
  k_Username :: string
  k_Hostname :: string
  k_KDF :: string
  k_N :: int
  k_R :: int
  k_P :: int
  k_Salt :: bytes
  k_Data :: bytes

record RepoKey =
  k_file :: keyFile
  k_user :: "Key option"
  k_master :: "Key option"
  k_name :: string

record Config =
  cfg_Version :: uint
  cfg_ID :: string
  ChunkerPolynomial :: uint

record keyenv =
  ke_check :: "Params \<Rightarrow> nat \<Rightarrow> error option"
  ke_scrypt :: "string \<Rightarrow> bytes \<Rightarrow> Params \<Rightarrow> nat \<Rightarrow> bytes res"
  ke_Calibrate :: "Params res"
  ke_now :: int
  ke_Hostname :: string
  ke_user :: "string option"
  ke_marshalKeys :: "jsonKeys \<Rightarrow> bytes"
  ke_unmarshalKeys :: "bytes \<Rightarrow> jsonKeys res"
  ke_marshalFile :: "keyFile \<Rightarrow> bytes"
  ke_unmarshalFile :: "bytes \<Rightarrow> keyFile res"
  ke_marshalConfig :: "Config \<Rightarrow> bytes"
  ke_unmarshalConfig :: "bytes \<Rightarrow> Config res"
  ke_Irreducible :: "uint \<Rightarrow> bool"

record draws =
  d_salt :: "bytes option"
  d_enc :: "bytes option"
  d_macK :: "bytes option"
  d_macR :: "bytes option"
  d_nonce :: "bytes option"

abbreviation ErrMaxKeysReached :: error where
  "ErrMaxKeysReached \<equiv> Wrap (fatalError ''maximum number of keys reached'') ''Fatal''"

section \<open>Opening a key\<close>

definition RepoKey_Valid :: "RepoKey \<Rightarrow> bool res" where
  "RepoKey_Valid k =
     (case k_user k of
        None \<Rightarrow> Panic ''nil pointer dereference''
      | Some user \<Rightarrow>
          if \<not> Key_Valid user then Ok False
          else
            (case k_master k of
               None \<Rightarrow> Panic ''nil pointer dereference''
             | Some master \<Rightarrow> Ok (Key_Valid master)))"

text \<open>What \<open>OpenKey\<close> and \<open>Open\<close> do with the key they have loaded.\<close>

definition open_loaded :: "keyenv \<Rightarrow> prims \<Rightarrow> string \<Rightarrow> keyFile \<Rightarrow> string \<Rightarrow> RepoKey res" where
  "open_loaded KE P name k password =
     (if k_KDF k \<noteq> ''scrypt'' then Err (Errorf ''only supported KDF is scrypt()'')
      else
        (case KDF (ke_check KE) (ke_scrypt KE) \<lparr>pN = k_N k, pR = k_R k, pP = k_P k\<rparr> (k_Salt k) password of
           Panic m \<Rightarrow> Panic m
         | Err e \<Rightarrow> Err (Wrap e ''crypto.KDF'')
         | Ok user \<Rightarrow>
             bind_r (slice_to (k_Data k) (int (Key_NonceSize user))) (\<lambda>nonce.
             bind_r (slice_from (k_Data k) (int (Key_NonceSize user))) (\<lambda>ciphertext.
               (case Key_Open P user [] nonce ciphertext of (user', res) \<Rightarrow>
                  bind_r res (\<lambda>buf.
                    (case ke_unmarshalKeys KE buf of
                       Panic m \<Rightarrow> Panic m
                     | Err e \<Rightarrow> Err (Wrap e ''Unmarshal'')
                     | Ok j \<Rightarrow>
                         (let k' = \<lparr>k_file = k, k_user = Some user', k_master = Some (Key_UnmarshalJSON j), k_name = name\<rparr> in
                          bind_r (RepoKey_Valid k') (\<lambda>valid.
                            if \<not> valid then Err (Errorf ''Invalid key for repository'') else Ok k')))))))))"

definition unmarshal_file :: "keyenv \<Rightarrow> bytes \<Rightarrow> keyFile res" where
  "unmarshal_file KE data =
     (case ke_unmarshalFile KE data of Ok k \<Rightarrow> Ok k | Err e \<Rightarrow> Err (Wrap e ''Unmarshal'') | Panic m \<Rightarrow> Panic m)"

definition LoadKey :: "keyenv \<Rightarrow> 'b env \<Rightarrow> 'b \<Rightarrow> string \<Rightarrow> keyFile res" where
  "LoadKey KE E be name =
     bind_r (LoadAll (DefaultLoad (e_open E be)) \<lparr>h_Type = KeyFile, h_ContainedBlobType = InvalidBlob, h_Name = name\<rparr>)
       (unmarshal_file KE)"

definition OpenKey :: "keyenv \<Rightarrow> 'b env \<Rightarrow> 'b \<Rightarrow> string \<Rightarrow> string \<Rightarrow> RepoKey res" where
  "OpenKey KE E be name password =
     bind_r (LoadKey KE E be name) (\<lambda>k. open_loaded KE (e_prims E) name k password)"

text \<open>\<open>Open\<close> of \<open>key_rapi.go\<close> on what its reader yields.\<close>

definition loadKey :: "keyenv \<Rightarrow> bytes res \<Rightarrow> keyFile res" where
  "loadKey KE readAll = bind_r readAll (unmarshal_file KE)"

definition Open :: "keyenv \<Rightarrow> prims \<Rightarrow> bytes res \<Rightarrow> string \<Rightarrow> RepoKey res" where
  "Open KE P readAll password = bind_r (loadKey KE readAll) (\<lambda>k. open_loaded KE P '''' k password)"

section \<open>Searching for a key\<close>

text \<open>The callback of the listing: the variables \<open>checked\<close> and \<open>k\<close>, and whether the context was cancelled.\<close>

definition search_cb ::
  "keyenv \<Rightarrow> 'b env \<Rightarrow> 'b \<Rightarrow> string \<Rightarrow> int \<Rightarrow> FileInfo \<Rightarrow> int \<times> RepoKey option \<times> bool \<Rightarrow> (int \<times> RepoKey option \<times> bool) res" where
  "search_cb KE E be password maxKeys fi s =
     (case s of (checked, k, cancelled) \<Rightarrow>
        if maxKeys > 0 \<and> checked > maxKeys then Err ErrMaxKeysReached
        else
          (case ParseID (fi_Name fi) of
             Panic m \<Rightarrow> Panic m
           | Err e \<Rightarrow> Ok s
           | Ok i \<Rightarrow>
               (case OpenKey KE E be (fi_Name fi) password of
                  Panic m \<Rightarrow> Panic m
                | Err e \<Rightarrow> if Cause e = ErrUnauthenticated then Ok s else Err e
                | Ok key \<Rightarrow> Ok (checked, Some key, True))))"

primrec search_list ::
  "bool \<Rightarrow> (FileInfo \<Rightarrow> int \<times> RepoKey option \<times> bool \<Rightarrow> (int \<times> RepoKey option \<times> bool) res) \<Rightarrow> error option \<Rightarrow> FileInfo list \<Rightarrow>
    int \<times> RepoKey option \<times> bool \<Rightarrow> (int \<times> RepoKey option \<times> bool) \<times> unit res" where
  "search_list stops cb eo [] s =
     (s, if stops \<and> snd (snd s) then Err ErrCanceled else case eo of Some e \<Rightarrow> Err e | None \<Rightarrow> Ok ())"
| "search_list stops cb eo (fi # fis) s =
     (if stops \<and> snd (snd s) then (s, Err ErrCanceled)
      else
        (case cb fi s of
           Panic m \<Rightarrow> (s, Panic m)
         | Err e \<Rightarrow> (s, Err e)
         | Ok s' \<Rightarrow> search_list stops cb eo fis s'))"

definition lister_fold :: "'b Lister \<Rightarrow> 'b \<Rightarrow> FileType \<Rightarrow> (FileInfo \<Rightarrow> 's \<Rightarrow> 's res) \<Rightarrow> 's \<Rightarrow> 's res" where
  "lister_fold lst be t fn s =
     (case lst be t of (fis, eo) \<Rightarrow> bind_r (fold_r fn fis s) (\<lambda>s. case eo of Some e \<Rightarrow> Err e | None \<Rightarrow> Ok s))"

definition search_all :: "keyenv \<Rightarrow> 'b env \<Rightarrow> 'b Lister \<Rightarrow> bool \<Rightarrow> 'b \<Rightarrow> string \<Rightarrow> int \<Rightarrow> RepoKey res" where
  "search_all KE E lst stops be password maxKeys =
     (case lst be KeyFile of (fis, eo) \<Rightarrow>
        (case search_list stops (search_cb KE E be password maxKeys) eo fis (0, None, False) of ((checked, k, c), res) \<Rightarrow>
           (case res of
              Panic m \<Rightarrow> Panic m
            | Err e \<Rightarrow> if e \<noteq> ErrCanceled then Err e else (case k of None \<Rightarrow> Err ErrNoKeyFound | Some key \<Rightarrow> Ok key)
            | Ok _ \<Rightarrow> (case k of None \<Rightarrow> Err ErrNoKeyFound | Some key \<Rightarrow> Ok key))))"

definition SearchKey ::
  "keyenv \<Rightarrow> 'b env \<Rightarrow> 'b Lister \<Rightarrow> bool \<Rightarrow> 'b \<Rightarrow> string \<Rightarrow> int \<Rightarrow> string \<Rightarrow> RepoKey res" where
  "SearchKey KE E lst stops be password maxKeys keyHint =
     (if length keyHint > 0 then
        (case Find (lister_fold lst be KeyFile) keyHint of
           Panic m \<Rightarrow> Panic m
         | Err e \<Rightarrow> search_all KE E lst stops be password maxKeys
         | Ok name \<Rightarrow>
             (case OpenKey KE E be name password of
                Panic m \<Rightarrow> Panic m
              | Err e \<Rightarrow> search_all KE E lst stops be password maxKeys
              | Ok key \<Rightarrow> Ok key))
      else search_all KE E lst stops be password maxKeys)"

section \<open>Adding a key\<close>

text \<open>The state is the backend and the variable \<open>Params\<close> of the package.\<close>

definition calibrated :: "keyenv \<Rightarrow> Params option \<Rightarrow> Params res" where
  "calibrated KE params =
     (case params of
        Some p \<Rightarrow> Ok p
      | None \<Rightarrow> (case ke_Calibrate KE of Ok p \<Rightarrow> Ok p | Err e \<Rightarrow> Err (Wrap e ''Calibrate'') | Panic m \<Rightarrow> Panic m))"

definition AddKey ::
  "keyenv \<Rightarrow> 'b env \<Rightarrow> draws \<Rightarrow> string \<Rightarrow> string \<Rightarrow> string \<Rightarrow> Key option \<Rightarrow> 'b \<times> Params option \<Rightarrow> ('b \<times> Params option) \<times> RepoKey res" where
  "AddKey KE E dr password username hostname template s =
     bind_st (s, calibrated KE (snd s)) (\<lambda>s0 p.
     let s = (fst s0, Some p);
         k0 = \<lparr>k_Created = ke_now KE,
               k_Username = (if username = '''' then (case ke_user KE of Some u \<Rightarrow> u | None \<Rightarrow> '''') else username),
               k_Hostname = (if hostname = '''' then ke_Hostname KE else hostname),
               k_KDF = ''scrypt'', k_N = pN p, k_R = pR p, k_P = pP p, k_Salt = [], k_Data = []\<rparr> in
     bind_st (s, NewSalt (d_salt dr)) (\<lambda>s salt.
     bind_st (s, KDF (ke_check KE) (ke_scrypt KE) p salt password) (\<lambda>s user.
     bind_st (s, case template of None \<Rightarrow> NewRandomKey (d_enc dr) (d_macK dr) (d_macR dr) | Some t \<Rightarrow> Ok t) (\<lambda>s master.
     bind_st (s, NewRandomNonce (d_nonce dr)) (\<lambda>s nonce.
     case Key_Seal (e_prims E) user nonce nonce (ke_marshalKeys KE (Key_MarshalJSON master)) [] of (user', sealed) \<Rightarrow>
     bind_st (s, sealed) (\<lambda>s ciphertext.
       let k = k0\<lparr>k_Salt := salt, k_Data := ciphertext\<rparr>;
           buf = ke_marshalFile KE k;
           name = ID_String (Hash (sha256 E) buf);
           (be', eo) = e_Save E (fst s) \<lparr>h_Type = KeyFile, h_ContainedBlobType = InvalidBlob, h_Name = name\<rparr>
             (NewByteReader buf (e_hasher E)) in
       ((be', snd s),
        case eo of
          Some e \<Rightarrow> Err e
        | None \<Rightarrow> Ok \<lparr>k_file = k, k_user = Some user', k_master = Some master, k_name = name\<rparr>)))))))"

definition createMasterKey ::
  "keyenv \<Rightarrow> 'b env \<Rightarrow> draws \<Rightarrow> string \<Rightarrow> 'b \<times> Params option \<Rightarrow> ('b \<times> Params option) \<times> RepoKey res" where
  "createMasterKey KE E dr password s = AddKey KE E dr password '''' '''' None s"

section \<open>The configuration, and opening a repository\<close>

definition RepoVersion :: uint where
  "RepoVersion = 1"

text \<open>\<open>pol\<close> is what \<open>chunker.RandomPolynomial\<close> yields, \<open>i\<close> the random ID.\<close>

definition CreateConfig :: "uint res \<Rightarrow> ID res \<Rightarrow> Config res" where
  "CreateConfig pol i =
     (case pol of
        Panic m \<Rightarrow> Panic m
      | Err e \<Rightarrow> Err (Wrap e ''chunker.RandomPolynomial'')
      | Ok p \<Rightarrow> bind_r i (\<lambda>i. Ok \<lparr>cfg_Version = RepoVersion, cfg_ID = ID_String i, ChunkerPolynomial = p\<rparr>))"

definition LoadConfig :: "keyenv \<Rightarrow> 'b env \<Rightarrow> 'b Repository \<Rightarrow> Config res" where
  "LoadConfig KE E r =
     bind_r (LoadAndDecrypt E ConfigFile nullID r) (\<lambda>buf.
     bind_r (ke_unmarshalConfig KE buf) (\<lambda>cfg.
       if cfg_Version cfg \<noteq> RepoVersion then Err (Errorf ''unsupported repository version'')
       else if \<not> ke_Irreducible KE (ChunkerPolynomial cfg) then Err (Errorf ''invalid chunker polynomial'')
       else Ok cfg))"

text \<open>An open repository: with its configuration and the name of its key. \<open>None\<close>: the error left them unset.\<close>

type_synonym 'b opened = "'b Repository \<times> Config option \<times> string"

definition Repo_init ::
  "keyenv \<Rightarrow> 'b env \<Rightarrow> draws \<Rightarrow> Params option \<Rightarrow> string \<Rightarrow> Config \<Rightarrow> 'b Repository \<Rightarrow> 'b opened \<times> unit res" where
  "Repo_init KE E dr params password cfg r =
     (case createMasterKey KE E dr password (r_be r, params) of ((be', params'), res) \<Rightarrow>
        (let r1 = r\<lparr>r_be := be'\<rparr> in
         case res of
           Panic m \<Rightarrow> ((r1, None, ''''), Panic m)
         | Err e \<Rightarrow> ((r1, None, ''''), Err e)
         | Ok key \<Rightarrow>
             (let r2 = r1\<lparr>r_key := the (k_master key)\<rparr> in
              case SaveUnpacked E ConfigFile (ke_marshalConfig KE cfg) r2 of (r3, res) \<Rightarrow>
                ((r3, Some cfg, k_name key), map_r (\<lambda>i. ()) res))))"

definition Init ::
  "keyenv \<Rightarrow> 'b env \<Rightarrow> ('b \<Rightarrow> Handle \<Rightarrow> bool \<times> error option) \<Rightarrow> draws \<Rightarrow> Params option \<Rightarrow> uint res \<Rightarrow> ID res \<Rightarrow>
    string \<Rightarrow> uint option \<Rightarrow> 'b Repository \<Rightarrow> 'b opened \<times> unit res" where
  "Init KE E test dr params pol i password chunkerPolynomial r =
     (case test (r_be r) \<lparr>h_Type = ConfigFile, h_ContainedBlobType = InvalidBlob, h_Name = ''''\<rparr> of (has, eo) \<Rightarrow>
        (case eo of
           Some e \<Rightarrow> ((r, None, ''''), Err e)
         | None \<Rightarrow>
             if has then ((r, None, ''''), Err (Errorf ''repository master key and config already initialized''))
             else
               (case CreateConfig pol i of
                  Panic m \<Rightarrow> ((r, None, ''''), Panic m)
                | Err e \<Rightarrow> ((r, None, ''''), Err e)
                | Ok cfg \<Rightarrow>
                    Repo_init KE E dr params password
                      (case chunkerPolynomial of None \<Rightarrow> cfg | Some p \<Rightarrow> cfg\<lparr>ChunkerPolynomial := p\<rparr>) r)))"

definition Repo_SearchKey ::
  "keyenv \<Rightarrow> 'b env \<Rightarrow> 'b Lister \<Rightarrow> bool \<Rightarrow> string \<Rightarrow> int \<Rightarrow> string \<Rightarrow> 'b Repository \<Rightarrow> 'b opened \<times> unit res" where
  "Repo_SearchKey KE E lst stops password maxKeys keyHint r =
     (case SearchKey KE E lst stops (r_be r) password maxKeys keyHint of
        Panic m \<Rightarrow> ((r, None, ''''), Panic m)
      | Err e \<Rightarrow> ((r, None, ''''), Err e)
      | Ok key \<Rightarrow>
          (let r1 = r\<lparr>r_key := the (k_master key)\<rparr> in
           case LoadConfig KE E r1 of
             Panic m \<Rightarrow> ((r1, None, k_name key), Panic m)
           | Err e \<Rightarrow> ((r1, None, k_name key), Err (Fatalf ''config cannot be loaded: %v''))
           | Ok cfg \<Rightarrow> ((r1, Some cfg, k_name key), Ok ())))"

section \<open>Lemmas: keys that differ in the flag of the mask\<close>

definition unmasked :: "Key \<Rightarrow> Key" where
  "unmasked k = k\<lparr>kMAC := (kMAC k)\<lparr>masked := False\<rparr>\<rparr>"

text \<open>A key whose flag tells the truth: masking it anew changes nothing.\<close>

definition mask_true :: "Key \<Rightarrow> bool" where
  "mask_true k \<longleftrightarrow> maskKey ((kMAC k)\<lparr>masked := False\<rparr>) = maskKey (kMAC k)"

lemma map2_and_idem: "map2 (AND) (map2 (AND) xs ms) ms = map2 (AND) (xs :: bytes) ms"
  by (induction xs ms rule: list_induct2') (simp_all add: and.assoc)

lemma mask_true_maskKey: "\<not> masked m \<Longrightarrow> mask_true \<lparr>kMAC = maskKey m, kEnc = e\<rparr>"
  by (simp add: mask_true_def maskKey_def map2_and_idem)

lemma key_ok_unmasked: "key_ok k \<Longrightarrow> key_ok (unmasked k)"
  by (simp add: key_ok_def unmasked_def Key_Valid_def MACKey_Valid_iff)

lemma seal_bytes_unmasked: "mask_true k \<Longrightarrow> seal_bytes P (unmasked k) n m = seal_bytes P k n m"
  by (simp add: mask_true_def seal_bytes_def unmasked_def poly1305MAC_def poly1305PrepareKey_def Let_def)

lemma Key_json: "key_ok k \<Longrightarrow> Key_UnmarshalJSON (Key_MarshalJSON k) = unmasked k"
  by (cases k; cases "kMAC k") (simp add: Key_UnmarshalJSON_def Key_MarshalJSON_def MACKey_UnmarshalJSON_def EncryptionKey_UnmarshalJSON_def
      key_ok_def unmasked_def size_defs copy_to_full)

lemma NewRandomKey_ok:
  assumes "NewRandomKey a b c = Ok k"
  shows "mask_true k" "length (kEnc k) = 32 \<and> length (macK (kMAC k)) = 16 \<and> length (macR (kMAC k)) = 16"
proof -
  obtain e x y where k: "k = \<lparr>kMAC = maskKey \<lparr>macK = x, macR = y, masked = False\<rparr>, kEnc = e\<rparr>"
    "length e = 32" "length x = 16" "length y = 16"
    using assms by (auto simp: NewRandomKey_def res_simps rand_Read_def size_defs split: option.splits if_splits)
  show "mask_true k" unfolding k(1) by (rule mask_true_maskKey) simp
  show "length (kEnc k) = 32 \<and> length (macK (kMAC k)) = 16 \<and> length (macR (kMAC k)) = 16"
    using k by (simp add: maskKey_def poly1305KeyMask_def)
qed

lemma KDF_ok:
  assumes "KDF check scrypt p salt password = Ok k"
  shows "masked (kMAC k)" "length (kEnc k) = 32 \<and> length (macK (kMAC k)) = 16 \<and> length (macR (kMAC k)) = 16"
  using assms
  by (auto simp: KDF_def Let_def res_simps macKeyFromSlice_def size_defs maskKey_def poly1305KeyMask_def split: if_splits option.splits res.splits)

lemma Seal_Ok_valid: "Key_Seal P k dst n m [] = (k', Ok c) \<Longrightarrow> Key_Valid k \<and> nonce_ok n"
  by (auto simp: Key_Seal_def nonce_ok_def split: if_splits)

section \<open>Lemmas: adding and opening\<close>

definition keyenv_ok :: "keyenv \<Rightarrow> bool" where
  "keyenv_ok KE \<longleftrightarrow>
     (\<forall>j. ke_unmarshalKeys KE (ke_marshalKeys KE j) = Ok j) \<and> (\<forall>k. ke_unmarshalFile KE (ke_marshalFile KE k) = Ok k) \<and>
     (\<forall>c. ke_unmarshalConfig KE (ke_marshalConfig KE c) = Ok c)"

text \<open>What a call of \<open>AddKey\<close> without an error has done.\<close>

lemma AddKey_Ok:
  assumes "AddKey KE E dr password u h template s = (s', Ok k)"
  shows "\<exists>p salt user master nonce c. KDF (ke_check KE) (ke_scrypt KE) p salt password = Ok user \<and>
    (case template of None \<Rightarrow> NewRandomKey (d_enc dr) (d_macK dr) (d_macR dr) | Some t \<Rightarrow> Ok t) = Ok master \<and>
    snd (Key_Seal (e_prims E) user nonce nonce (ke_marshalKeys KE (Key_MarshalJSON master)) []) = Ok c \<and>
    k_KDF (k_file k) = ''scrypt'' \<and> \<lparr>pN = k_N (k_file k), pR = k_R (k_file k), pP = k_P (k_file k)\<rparr> = p \<and>
    k_Salt (k_file k) = salt \<and> k_Data (k_file k) = c \<and> k_master k = Some master \<and>
    k_name k = ID_String (Hash (sha256 E) (ke_marshalFile KE (k_file k))) \<and>
    e_Save E (fst s) \<lparr>h_Type = KeyFile, h_ContainedBlobType = InvalidBlob, h_Name = k_name k\<rparr>
      (NewByteReader (ke_marshalFile KE (k_file k)) (e_hasher E)) = (fst s', None)"
proof -
  from assms obtain p where p: "calibrated KE (snd s) = Ok p"
    by (cases "calibrated KE (snd s)") (auto simp: AddKey_def bind_st_def)
  from assms p obtain salt where salt: "NewSalt (d_salt dr) = Ok salt"
    by (cases "NewSalt (d_salt dr)") (auto simp: AddKey_def bind_st_def Let_def)
  from assms p salt obtain user where user: "KDF (ke_check KE) (ke_scrypt KE) p salt password = Ok user"
    by (cases "KDF (ke_check KE) (ke_scrypt KE) p salt password") (auto simp: AddKey_def bind_st_def Let_def)
  let ?t = "case template of None \<Rightarrow> NewRandomKey (d_enc dr) (d_macK dr) (d_macR dr) | Some t \<Rightarrow> Ok t"
  from assms p salt user obtain master where master: "?t = Ok master"
    by (cases ?t) (auto simp: AddKey_def bind_st_def Let_def)
  from assms p salt user master obtain nonce where nonce: "NewRandomNonce (d_nonce dr) = Ok nonce"
    by (cases "NewRandomNonce (d_nonce dr)") (auto simp: AddKey_def bind_st_def Let_def)
  obtain user' sealed where sl: "Key_Seal (e_prims E) user nonce nonce (ke_marshalKeys KE (Key_MarshalJSON master)) [] = (user', sealed)"
    by fastforce
  from assms p salt user master nonce sl obtain c where c: "sealed = Ok c"
    by (cases sealed) (auto simp: AddKey_def bind_st_def Let_def)
  define f where "f = \<lparr>k_Created = ke_now KE, k_Username = (if u = '''' then (case ke_user KE of Some u \<Rightarrow> u | None \<Rightarrow> '''') else u),
    k_Hostname = (if h = '''' then ke_Hostname KE else h), k_KDF = ''scrypt'', k_N = pN p, k_R = pR p, k_P = pP p, k_Salt = salt, k_Data = c\<rparr>"
  obtain be' eo where sv: "e_Save E (fst s) \<lparr>h_Type = KeyFile, h_ContainedBlobType = InvalidBlob, h_Name = ID_String (Hash (sha256 E) (ke_marshalFile KE f))\<rparr>
      (NewByteReader (ke_marshalFile KE f) (e_hasher E)) = (be', eo)" by fastforce
  have "eo = None \<and> s' = (be', Some p) \<and>
      k = \<lparr>k_file = f, k_user = Some user', k_master = Some master, k_name = ID_String (Hash (sha256 E) (ke_marshalFile KE f))\<rparr>"
    using assms p salt user master nonce sl c sv unfolding f_def
    by (cases eo) (simp_all add: AddKey_def bind_st_def Let_def)
  moreover have "\<lparr>pN = pN p, pR = pR p, pP = pP p\<rparr> = p" by (cases p) simp
  moreover have "snd (Key_Seal (e_prims E) user nonce nonce (ke_marshalKeys KE (Key_MarshalJSON master)) []) = Ok c" using sl c by simp
  ultimately show ?thesis
    using user master sv by (intro exI [of _ p] exI [of _ salt] exI [of _ user] exI [of _ master] exI [of _ nonce] exI [of _ c]) (simp add: f_def)
qed

text \<open>A key file of this form is opened with the password and yields the master key.\<close>

lemma open_loaded_ok:
  assumes ok: "prims_ok P" "keyenv_ok KE" "key_ok master"
    and user: "KDF (ke_check KE) (ke_scrypt KE) \<lparr>pN = k_N f, pR = k_R f, pP = k_P f\<rparr> (k_Salt f) password = Ok user" "k_KDF f = ''scrypt''"
    and c: "snd (Key_Seal P user nonce nonce (ke_marshalKeys KE (Key_MarshalJSON master)) []) = Ok (k_Data f)"
  shows "\<exists>k. open_loaded KE P name f password = Ok k \<and> k_master k = Some (unmasked master) \<and> k_name k = name"
proof -
  let ?m = "ke_marshalKeys KE (Key_MarshalJSON master)"
  obtain u1 where "Key_Seal P user nonce nonce ?m [] = (u1, Ok (k_Data f))" using c by (metis prod.collapse)
  from Seal_Ok_valid [OF this] have v: "Key_Valid user" "nonce_ok nonce" by auto
  have uk: "key_ok user" using KDF_ok [OF user(1)] v(1) by (simp add: key_ok_def)
  have d: "k_Data f = nonce @ seal_bytes P user nonce ?m" using c Seal_ok [OF uk v(2)] by simp
  have l: "length nonce = 16" using v(2) by (simp add: nonce_ok_def size_defs)
  have op: "snd (Key_Open P user [] nonce (seal_bytes P user nonce ?m)) = Ok ?m" using Open_Ok_iff [OF ok(1) uk v(2)] by simp
  obtain u2 where u2: "Key_Open P user [] nonce (seal_bytes P user nonce ?m) = (u2, Ok ?m)" using op by (metis prod.collapse)
  have "u2 = user" using fst_Open [of P user "[]" nonce "seal_bytes P user nonce ?m"] KDF_ok(1) [OF user(1)] u2
    by (auto simp: maskKey_id)
  moreover have "Key_Valid (unmasked master)" using key_ok_unmasked [OF ok(3)] by (simp add: key_ok_def)
  moreover have "ke_unmarshalKeys KE ?m = Ok (Key_MarshalJSON master)" using ok(2) by (simp add: keyenv_ok_def)
  ultimately show ?thesis
    using user v(1) u2 l by (simp add: open_loaded_def d slice_to_eq slice_from_eq size_defs Key_json [OF ok(3)] RepoKey_Valid_def Let_def)
qed

context repo_env
begin

lemma OpenKey_file:
  assumes "keyenv_ok KE" "key_ok master" "files be (KeyFile, name) = Some (ke_marshalFile KE f)" "name \<noteq> []"
    and "KDF (ke_check KE) (ke_scrypt KE) \<lparr>pN = k_N f, pR = k_R f, pP = k_P f\<rparr> (k_Salt f) password = Ok user" "k_KDF f = ''scrypt''"
    and "snd (Key_Seal (e_prims E) user nonce nonce (ke_marshalKeys KE (Key_MarshalJSON master)) []) = Ok (k_Data f)"
  shows "\<exists>k. OpenKey KE E be name password = Ok k \<and> k_master k = Some (unmasked master) \<and> k_name k = name"
proof -
  let ?h = "\<lparr>h_Type = KeyFile, h_ContainedBlobType = InvalidBlob, h_Name = name\<rparr>"
  have "LoadAll (DefaultLoad (e_open E be)) ?h = Ok (ke_marshalFile KE f)"
    by (rule loadall_file) (use assms(3,4) in \<open>simp_all add: Handle_Valid_def fkey_def\<close>)
  then have "LoadKey KE E be name = Ok f" using assms(1) by (simp add: LoadKey_def unmarshal_file_def keyenv_ok_def)
  then show ?thesis using open_loaded_ok [OF prims assms(1,2,5-7)] by (simp add: OpenKey_def)
qed

end

section \<open>Lemmas: the search\<close>

text \<open>\<open>checked\<close> stays zero: it never exceeds a positive \<open>maxKeys\<close>.\<close>

lemma search_cb_zero:
  "search_cb KE E be password m fi (0, k, c) =
     (case ParseID (fi_Name fi) of
        Panic m \<Rightarrow> Panic m
      | Err e \<Rightarrow> Ok (0, k, c)
      | Ok i \<Rightarrow>
          (case OpenKey KE E be (fi_Name fi) password of
             Panic m \<Rightarrow> Panic m
           | Err e \<Rightarrow> if Cause e = ErrUnauthenticated then Ok (0, k, c) else Err e
           | Ok key \<Rightarrow> Ok (0, Some key, True)))"
  unfolding search_cb_def by auto

lemma ParseID_no_panic: "\<not> is_panic (ParseID s)"
  by (simp add: ParseID_def split: res.split)

lemma search_list_maxKeys:
  "search_list stops (search_cb KE E be password m) eo fis (0, k, c) = search_list stops (search_cb KE E be password m') eo fis (0, k, c)"
proof (induction fis arbitrary: k c)
  case (Cons fi fis)
  have "search_cb KE E be password m fi (0, k, c) = search_cb KE E be password m' fi (0, k, c)"
    by (simp only: search_cb_zero)
  moreover have "fst s' = 0" if "search_cb KE E be password m' fi (0, k, c) = Ok s'" for s'
    using that by (auto simp: search_cb_zero split: res.splits if_splits)
  ultimately show ?case
    by (cases "search_cb KE E be password m' fi (0, k, c)") (auto simp: Cons.IH, metis Cons.IH prod.collapse)
qed simp

text \<open>Every other key than \<open>name\<close> is one that the search passes over.\<close>

definition others_fail :: "keyenv \<Rightarrow> 'b env \<Rightarrow> 'b \<Rightarrow> string \<Rightarrow> string \<Rightarrow> FileInfo list \<Rightarrow> bool" where
  "others_fail KE E be password name fis \<longleftrightarrow>
     (\<forall>fi \<in> set fis. fi_Name fi \<noteq> name \<longrightarrow>
        (\<exists>e. OpenKey KE E be (fi_Name fi) password = Err e \<and> (Cause e = ErrUnauthenticated \<or> (\<exists>e'. ParseID (fi_Name fi) = Err e'))))"

lemma search_list_found:
  assumes "others_fail KE E be password name fis" "OpenKey KE E be name password = Ok key" "ParseID name = Ok i"
    "k = None \<and> \<not> c \<or> k = Some key"
  shows "\<exists>k' c' res. search_list stops (search_cb KE E be password m) None fis (0, k, c) = ((0, k', c'), res) \<and>
    (res = Ok () \<or> res = Err ErrCanceled) \<and> (k = Some key \<or> name \<in> fi_Name ` set fis \<longrightarrow> k' = Some key)"
  using assms(1,4)
proof (induction fis arbitrary: k c)
  case (Cons fi fis)
  have of: "others_fail KE E be password name fis" using Cons.prems(1) by (simp add: others_fail_def)
  show ?case
  proof (cases "stops \<and> c")
    case False
    show ?thesis
    proof (cases "fi_Name fi = name")
      case True
      then have "search_cb KE E be password m fi (0, k, c) = Ok (0, Some key, True)"
        using assms(2,3) by (simp add: search_cb_zero)
      then show ?thesis using Cons.IH [OF of, of "Some key" True] False by auto
    next
      case name: False
      then obtain e where e: "OpenKey KE E be (fi_Name fi) password = Err e" "Cause e = ErrUnauthenticated \<or> (\<exists>e'. ParseID (fi_Name fi) = Err e')"
        using Cons.prems(1) by (auto simp: others_fail_def)
      have "\<not> is_panic (ParseID (fi_Name fi))" by (rule ParseID_no_panic)
      then have "search_cb KE E be password m fi (0, k, c) = Ok (0, k, c)"
        using e by (cases "ParseID (fi_Name fi)") (auto simp: search_cb_zero)
      then show ?thesis using Cons.IH [OF of Cons.prems(2)] False name by auto
    qed
  qed (use Cons.prems(2) in auto)
qed simp

lemma search_all_found:
  assumes "others_fail KE E be password name fis" "OpenKey KE E be name password = Ok key" "ParseID name = Ok i"
    "lst be KeyFile = (fis, None)" "name \<in> fi_Name ` set fis"
  shows "search_all KE E lst stops be password m = Ok key"
  using search_list_found [OF assms(1-3), of None False stops m] assms(4,5) by (auto simp: search_all_def)

lemma Find_name:
  assumes "lst be t = (fis, None)"
  shows "\<not> is_panic (Find (lister_fold lst be t) p)" "Find (lister_fold lst be t) p = Ok n \<Longrightarrow> n \<in> fi_Name ` set fis"
proof -
  let ?f = "\<lambda>fi mtch. if length (fi_Name fi) \<ge> length p \<and> p = take (length p) (fi_Name fi) then
      if mtch = '''' then Ok (fi_Name fi) else Err (MultipleIDMatchesError p) else Ok mtch"
  have F: "\<not> is_panic (fold_r ?f fis m0) \<and> (\<forall>x. fold_r ?f fis m0 = Ok x \<longrightarrow> x = m0 \<or> x \<in> fi_Name ` set fis)" for m0
    by (induction fis arbitrary: m0) (auto split: if_splits)
  show "\<not> is_panic (Find (lister_fold lst be t) p)" "Find (lister_fold lst be t) p = Ok n \<Longrightarrow> n \<in> fi_Name ` set fis"
    using F [of "''''"] assms by (auto simp: Find_def lister_fold_def res_simps split: if_splits)
qed

lemma SearchKey_found:
  assumes "others_fail KE E be password name fis" "OpenKey KE E be name password = Ok key" "ParseID name = Ok i"
    "lst be KeyFile = (fis, None)" "name \<in> fi_Name ` set fis"
  shows "SearchKey KE E lst stops be password m hint = Ok key"
proof (cases "Find (lister_fold lst be KeyFile) hint")
  case (Ok n)
  have "n \<in> fi_Name ` set fis" by (rule Find_name(2) [OF assms(4) Ok])
  then have "n = name \<or> (\<exists>e. OpenKey KE E be n password = Err e)" using assms(1) by (auto simp: others_fail_def)
  then show ?thesis using Ok assms(2) search_all_found [where lst = lst, OF assms] by (auto simp: SearchKey_def)
next
  case (Panic m)
  then show ?thesis using Find_name(1) [of lst be KeyFile fis hint] assms(4) by simp
qed (simp add: SearchKey_def search_all_found [where lst = lst, OF assms])

section \<open>Lemmas: a new repository is opened\<close>

context repo_env
begin

lemma Repo_init_Ok:
  assumes run: "Repo_init KE E dr params password cfg (New E be k0) = ((r1, cfg', name), Ok ())" and KE: "keyenv_ok KE"
  shows "key_ok (r_key r1) \<and> mask_true (r_key r1) \<and> cfg' = Some cfg \<and> (\<exists>i. ParseID name = Ok i) \<and>
    (\<exists>k. OpenKey KE E (r_be r1) name password = Ok k \<and> k_master k = Some (unmasked (r_key r1)) \<and> k_name k = name) \<and>
    (\<forall>r. r_be r = r_be r1 \<and> r_key r = unmasked (r_key r1) \<longrightarrow> LoadAndDecrypt E ConfigFile nullID r = Ok (ke_marshalConfig KE cfg))"
proof -
  obtain be1 ps res where am: "createMasterKey KE E dr password (be, params) = ((be1, ps), res)" by (metis prod.exhaust)
  obtain k where k: "res = Ok k" using run by (cases res) (auto simp: Repo_init_def am Let_def)
  define r0 where "r0 = (New E be k0)\<lparr>r_be := be1, r_key := the (k_master k)\<rparr>"
  obtain i where sv: "SaveUnpacked E ConfigFile (ke_marshalConfig KE cfg) r0 = (r1, Ok i)" "cfg' = Some cfg" "name = k_name k"
    using run by (auto simp: Repo_init_def am k Let_def r0_def res_simps split: prod.splits)
  obtain p salt user master nonce c where A: "KDF (ke_check KE) (ke_scrypt KE) p salt password = Ok user"
    "NewRandomKey (d_enc dr) (d_macK dr) (d_macR dr) = Ok master"
    "snd (Key_Seal (e_prims E) user nonce nonce (ke_marshalKeys KE (Key_MarshalJSON master)) []) = Ok c"
    "k_KDF (k_file k) = ''scrypt''" "\<lparr>pN = k_N (k_file k), pR = k_R (k_file k), pP = k_P (k_file k)\<rparr> = p"
    "k_Salt (k_file k) = salt" "k_Data (k_file k) = c" "k_master k = Some master"
    "k_name k = ID_String (Hash (sha256 E) (ke_marshalFile KE (k_file k)))"
    "e_Save E be \<lparr>h_Type = KeyFile, h_ContainedBlobType = InvalidBlob, h_Name = k_name k\<rparr>
      (NewByteReader (ke_marshalFile KE (k_file k)) (e_hasher E)) = (be1, None)"
    using AddKey_Ok [OF am [unfolded createMasterKey_def k]] by auto
  obtain n f be' where S: "seal_frame (e_prims E) (r_key r0) n (ke_marshalConfig KE cfg) = Ok f" "r1 = (tick r0)\<lparr>r_be := be'\<rparr>"
    "files be' = (files be1)((ConfigFile, '''') \<mapsto> f)"
    using SaveUnpacked_Ok [OF sv(1)] by (auto simp: fkey_def r0_def)
  have r1: "r_key r1 = master" "r_be r1 = be'" "r_key r0 = master" by (simp_all add: S(2) tick_def r0_def A(8))
  have "Key_Valid master \<and> nonce_ok n"
    using S(1) Seal_Ok_valid by (metis prod.collapse r1(3) seal_frame_def)
  then have km: "key_ok master" "nonce_ok n" using NewRandomKey_ok(2) [OF A(2)] by (simp_all add: key_ok_def)
  have mt: "mask_true master" by (rule NewRandomKey_ok(1) [OF A(2)])
  have idk: "is_ID (Hash (sha256 E) x)" for x using prims by (simp add: Hash_def is_ID_def sha256_def prims_ok_def idSize_def)
  have pn: "\<exists>i. ParseID name = Ok i" using ParseID_String [OF idk] by (simp add: sv(3) A(9))
  have ne: "name \<noteq> []" using save_ok [OF A(10)] by (auto simp: sv(3) Handle_Valid_def split: if_splits)
  have kf: "files be' (KeyFile, name) = Some (ke_marshalFile KE (k_file k))"
    using save_ok [OF A(10)] by (simp add: S(3) sv(3) fkey_def NewByteReader_def)
  have op: "\<exists>k'. OpenKey KE E be' name password = Ok k' \<and> k_master k' = Some (unmasked master) \<and> k_name k' = name"
    by (rule OpenKey_file [OF KE km(1) kf ne A(1) [folded A(5,6)] A(4) A(3) [folded A(7)]])
  have "open_frame (e_prims E) (unmasked master) f = Ok (ke_marshalConfig KE cfg)"
    using S(1) r1(3) km mt open_frame_Ok_iff [OF prims key_ok_unmasked [OF km(1)]]
    by (auto simp: seal_frame_Ok_iff seal_bytes_unmasked)
  then have "LoadAndDecrypt E ConfigFile nullID r = Ok (ke_marshalConfig KE cfg)" if "r_be r = be'" "r_key r = unmasked master" for r
    using LoadAndDecrypt_file [of ConfigFile nullID r f] that by (simp add: S(3) Handle_Valid_def)
  with km mt sv(2) pn op show ?thesis by (simp add: r1)
qed

end

section \<open>Surroundings for concrete evaluations\<close>

definition enc_int :: "int \<Rightarrow> bytes" where
  "enc_int i = enc_nat (nat i) @ enc_nat (nat (- i))"

definition dec_int :: "bytes \<Rightarrow> int \<times> bytes" where
  "dec_int b = (case dec_nat b of (p, b1) \<Rightarrow> case dec_nat b1 of (n, b2) \<Rightarrow> (int p - int n, b2))"

definition enc_string :: "string \<Rightarrow> bytes" where
  "enc_string = enc_list (\<lambda>c. enc_nat (of_char c))"

definition dec_string :: "bytes \<Rightarrow> string \<times> bytes" where
  "dec_string = dec_list (\<lambda>b. case dec_nat b of (n, b1) \<Rightarrow> (char_of n, b1))"

lemma dec_enc_int [simp]: "dec_int (enc_int i @ b) = (i, b)"
  by (simp add: dec_int_def enc_int_def)

lemma dec_enc_string [simp]: "dec_string (enc_string s @ b) = (s, b)"
  unfolding dec_string_def enc_string_def by (rule dec_enc_list) simp

definition enc_keys :: "jsonKeys \<Rightarrow> bytes" where
  "enc_keys j = enc_id (jk_K j) @ enc_id (jk_R j) @ enc_id (jk_encrypt j)"

definition dec_keys :: "bytes \<Rightarrow> jsonKeys res" where
  "dec_keys b = (case dec_id b of (k, b1) \<Rightarrow> case dec_id b1 of (r, b2) \<Rightarrow> case dec_id b2 of (e, b3) \<Rightarrow>
     Ok \<lparr>jk_K = k, jk_R = r, jk_encrypt = e\<rparr>)"

definition enc_file :: "keyFile \<Rightarrow> bytes" where
  "enc_file k = enc_int (k_Created k) @ enc_string (k_Username k) @ enc_string (k_Hostname k) @ enc_string (k_KDF k) @
     enc_int (k_N k) @ enc_int (k_R k) @ enc_int (k_P k) @ enc_id (k_Salt k) @ enc_id (k_Data k)"

definition dec_file :: "bytes \<Rightarrow> keyFile res" where
  "dec_file b =
     (case dec_int b of (cr, b) \<Rightarrow> case dec_string b of (u, b) \<Rightarrow> case dec_string b of (h, b) \<Rightarrow> case dec_string b of (kdf, b) \<Rightarrow>
      case dec_int b of (n, b) \<Rightarrow> case dec_int b of (r, b) \<Rightarrow> case dec_int b of (p, b) \<Rightarrow>
      case dec_id b of (s, b) \<Rightarrow> case dec_id b of (d, b) \<Rightarrow>
        Ok \<lparr>k_Created = cr, k_Username = u, k_Hostname = h, k_KDF = kdf, k_N = n, k_R = r, k_P = p, k_Salt = s, k_Data = d\<rparr>)"

definition enc_config :: "Config \<Rightarrow> bytes" where
  "enc_config c = enc_nat (unat (cfg_Version c)) @ enc_string (cfg_ID c) @ enc_nat (unat (ChunkerPolynomial c))"

definition dec_config :: "bytes \<Rightarrow> Config res" where
  "dec_config b = (case dec_nat b of (v, b) \<Rightarrow> case dec_string b of (i, b) \<Rightarrow> case dec_nat b of (p, b) \<Rightarrow>
     Ok \<lparr>cfg_Version = of_nat v, cfg_ID = i, ChunkerPolynomial = of_nat p\<rparr>)"

definition toy_ke :: keyenv where
  "toy_ke = \<lparr>ke_check = (\<lambda>p n. None), ke_scrypt = (\<lambda>pw s p n. Ok (replicate 64 (of_nat (length pw)))), ke_Calibrate = Ok \<lparr>pN = 2, pR = 1, pP = 1\<rparr>,
     ke_now = 3, ke_Hostname = '''', ke_user = None, ke_marshalKeys = enc_keys, ke_unmarshalKeys = dec_keys,
     ke_marshalFile = enc_file, ke_unmarshalFile = dec_file, ke_marshalConfig = enc_config, ke_unmarshalConfig = dec_config,
     ke_Irreducible = (\<lambda>p. p \<noteq> 0)\<rparr>"

lemma toy_ke_ok: "keyenv_ok toy_ke"
proof -
  have "dec_keys (enc_keys j) = Ok j" for j
    using dec_enc_id [of "jk_encrypt j" "[]"] by (cases j) (simp add: dec_keys_def enc_keys_def)
  moreover have "dec_file (enc_file k) = Ok k" for k
    using dec_enc_id [of "k_Data k" "[]"] by (cases k) (simp add: dec_file_def enc_file_def)
  moreover have "dec_config (enc_config c) = Ok c" for c
    using dec_enc_nat [of "unat (ChunkerPolynomial c)" "[]"] by (cases c) (simp add: dec_config_def enc_config_def)
  ultimately show ?thesis by (simp add: keyenv_ok_def toy_ke_def)
qed

definition toy_draws :: draws where
  "toy_draws = \<lparr>d_salt = Some (replicate 64 5), d_enc = Some (replicate 32 6), d_macK = Some (replicate 16 7),
     d_macR = Some (replicate 16 8), d_nonce = Some (replicate 16 9)\<rparr>"

definition toy_init :: "memMap opened \<times> unit res" where
  "toy_init = Init toy_ke (toy_env no_fault) (mem_Test None) toy_draws None (Ok 11) (Ok []) ''pw'' None (New (toy_env no_fault) mem_New toy_key)"

section \<open>Properties\<close>

text \<open>C3: A new repository can be opened with its password. If \<open>Init\<close> returns no error, then in a new session \<open>SearchKey\<close>
  with the same password returns no error, whatever \<open>maxKeys\<close> and the hint are: it yields the configuration that
  \<open>Init\<close> made, the name of the key file, and a master key that opens exactly what the key of \<open>Init\<close> opens. The hypotheses
  are the contract of the backend, JSON decoders that invert the encoders, a complete listing of the key files of
  which the others are passed over (the password is not theirs, or the name is no ID), and an irreducible
  polynomial.\<close>

theorem Init_SearchKey:
  assumes "repo_env E files" "keyenv_ok KE"
    and "Init KE E test dr params pol i password cp (New E be k0) = ((r1, Some cfg, name), Ok ())"
    and "ke_Irreducible KE (ChunkerPolynomial cfg)"
    and "lst (r_be r1) KeyFile = (fis, None)" "name \<in> fi_Name ` set fis" "others_fail KE E (r_be r1) password name fis"
  shows "\<exists>r2. Repo_SearchKey KE E lst stops password maxKeys hint (New E (r_be r1) k1) = ((r2, Some cfg, name), Ok ()) \<and>
    r_be r2 = r_be r1 \<and> key_ok (r_key r2) \<and>
    (\<forall>buf m. open_frame (e_prims E) (r_key r2) buf = Ok m \<longleftrightarrow> open_frame (e_prims E) (r_key r1) buf = Ok m)"
proof -
  have P: "prims_ok (e_prims E)" using assms(1) by (simp add: repo_env_def repo_env_axioms_def)
  obtain cfg0 where c0: "CreateConfig pol i = Ok cfg0"
    "Repo_init KE E dr params password (case cp of None \<Rightarrow> cfg0 | Some p \<Rightarrow> cfg0\<lparr>ChunkerPolynomial := p\<rparr>) (New E be k0) = ((r1, Some cfg, name), Ok ())"
    using assms(3) by (auto simp: Init_def split: prod.splits option.splits if_splits res.splits)
  note R = repo_env.Repo_init_Ok [OF assms(1) c0(2) assms(2)]
  have cfg: "cfg = (case cp of None \<Rightarrow> cfg0 | Some p \<Rightarrow> cfg0\<lparr>ChunkerPolynomial := p\<rparr>)" using R by simp
  then have v: "cfg_Version cfg = RepoVersion" using c0(1) by (auto simp: CreateConfig_def res_simps split: res.splits option.splits)
  obtain n k where k: "ParseID name = Ok n" "OpenKey KE E (r_be r1) name password = Ok k" "k_master k = Some (unmasked (r_key r1))" "k_name k = name"
    using R by blast
  define r2 where "r2 = (New E (r_be r1) k1)\<lparr>r_key := unmasked (r_key r1)\<rparr>"
  have s: "SearchKey KE E lst stops (r_be r1) password maxKeys hint = Ok k"
    by (rule SearchKey_found [where lst = lst, OF assms(7) k(2,1) assms(5,6)])
  have "LoadAndDecrypt E ConfigFile nullID r2 = Ok (ke_marshalConfig KE cfg)" using R cfg by (simp add: r2_def)
  then have l: "LoadConfig KE E r2 = Ok cfg" using assms(2,4) v by (simp add: LoadConfig_def keyenv_ok_def)
  have "Repo_SearchKey KE E lst stops password maxKeys hint (New E (r_be r1) k1) = ((r2, Some cfg, name), Ok ())"
    using s k(3,4) l by (simp add: Repo_SearchKey_def r2_def Let_def)
  moreover have "open_frame (e_prims E) (r_key r2) buf = Ok m \<longleftrightarrow> open_frame (e_prims E) (r_key r1) buf = Ok m" for buf m
    using R by (simp add: r2_def open_frame_Ok_iff [OF P] key_ok_unmasked seal_bytes_unmasked)
  ultimately show ?thesis using R key_ok_unmasked by (intro exI [of _ r2]) (simp add: r2_def)
qed

theorem Init_SearchKey_witness:
  "\<exists>r2. Repo_SearchKey toy_ke (toy_env no_fault) mem_lister True ''pw'' 5 '''' (New (toy_env no_fault) (r_be (fst (fst toy_init))) toy_key) =
    ((r2, Some \<lparr>cfg_Version = 1, cfg_ID = '''', ChunkerPolynomial = 11\<rparr>, snd (snd (fst toy_init))), Ok ())"
proof -
  define name where "name = snd (snd (fst toy_init))"
  have env: "repo_env (toy_env no_fault) mem_files"
    unfolding toy_env_def using mem_json_env [OF toy_prims_ok] by (simp add: json_env_def)
  have r: "is_ok (snd toy_init) \<and> fst (snd (fst toy_init)) = Some \<lparr>cfg_Version = 1, cfg_ID = '''', ChunkerPolynomial = 11\<rparr> \<and>
      map fi_Name (mem_entries (r_be (fst (fst toy_init))) KeyFile) = [snd (snd (fst toy_init))]"
    by code_simp
  then have i: "toy_init = ((fst (fst toy_init), Some \<lparr>cfg_Version = 1, cfg_ID = '''', ChunkerPolynomial = 11\<rparr>, name), Ok ())"
    using is_ok_unit [of "snd toy_init"] by (simp add: prod_eq_iff name_def)
  have l: "mem_lister (r_be (fst (fst toy_init))) KeyFile = (mem_entries (r_be (fst (fst toy_init))) KeyFile, None)"
    by (simp add: mem_lister_def)
  have n: "fi_Name ` set (mem_entries (r_be (fst (fst toy_init))) KeyFile) = {name}"
    using r by (metis list.simps(15) list.set(1) name_def set_map)
  then have o: "others_fail toy_ke (toy_env no_fault) (r_be (fst (fst toy_init))) ''pw'' name (mem_entries (r_be (fst (fst toy_init))) KeyFile)"
    by (auto simp: others_fail_def)
  have irr: "ke_Irreducible toy_ke (ChunkerPolynomial \<lparr>cfg_Version = 1, cfg_ID = '''', ChunkerPolynomial = 11\<rparr>)" by (simp add: toy_ke_def)
  from Init_SearchKey [where lst = mem_lister and stops = True and maxKeys = 5 and hint = "[]" and ?k1.0 = toy_key, OF env toy_ke_ok i [unfolded toy_init_def] irr, folded toy_init_def, OF l _ o]
  show ?thesis using n unfolding name_def by (elim meta_impE) (simp, blast)
qed

text \<open>C40: The bound on the number of keys has no effect: \<open>SearchKey\<close> with any \<open>maxKeys\<close> returns what it returns without a bound, since the
  number of checked keys is never counted. So it neither tries fewer keys nor reports that the bound was reached.\<close>

theorem SearchKey_ignores_maxKeys:
  "SearchKey KE E lst stops be password maxKeys hint = SearchKey KE E lst stops be password 0 hint"
proof -
  have "search_all KE E lst stops be password maxKeys = search_all KE E lst stops be password 0"
    unfolding search_all_def using search_list_maxKeys [of stops KE E be password maxKeys _ _ None False 0] by (simp split: prod.split)
  then show ?thesis unfolding SearchKey_def by (simp only:)
qed

end
