(* ===== verification/BackendTools.thy ===== *)
theory BackendTools
  imports Backends Durations
begin

text \<open>
  Helpers of the storage backends: layouts of files in directories (\<open>backend/layout.go\<close>, \<open>layout_default.go\<close>,
  \<open>layout_rest.go\<close>, \<open>layout_s3legacy.go\<close>), the backend that retries (\<open>backend/backend_retry.go\<close>), and the splitting of
  command lines (\<open>backend/shell_split.go\<close>).

  The field \<open>Join\<close> of a layout and the methods of a \<open>Filesystem\<close> are arguments. \<open>RetryNotify\<close> of
  \<open>github.com/cenkalti/backoff\<close> is a parameter with the law \<open>retry_law\<close>: it runs the operation at least once, runs it again
  only after an error, when that is not a permanent one and the context is not done, and reports no error exactly
  when its last run had none. Nothing is assumed of how often it retries or which error it returns. Iterations over Go
  maps take the order of the keys as an argument. Strings are their bytes; a space outside ASCII is not a space of
  the splitter here.
\<close>

section \<open>Layouts\<close>

type_synonym Join = "string list \<Rightarrow> string"

text \<open>A missing entry of a map of strings is the empty string.\<close>

definition defaultLayoutPaths :: "FileType \<Rightarrow> string" where
  "defaultLayoutPaths t =
     (if t = PackFile then ''data'' else if t = SnapshotFile then ''snapshots'' else if t = IndexFile then ''index''
      else if t = LockFile then ''locks'' else if t = KeyFile then ''keys'' else '''')"

definition Default_Dirname :: "Join \<Rightarrow> string \<Rightarrow> Handle \<Rightarrow> string" where
  "Default_Dirname Join path h =
     (let p = defaultLayoutPaths (h_Type h);
          p1 = (if h_Type h = PackFile \<and> length (h_Name h) > 2 then Join [p, take 2 (h_Name h)] @ ''/'' else p) in
      Join [path, p1] @ ''/'')"

definition Default_Filename :: "Join \<Rightarrow> string \<Rightarrow> Handle \<Rightarrow> string" where
  "Default_Filename Join path h =
     (if h_Type h = ConfigFile then Join [path, ''config''] else Join [Default_Dirname Join path h, h_Name h])"

definition Default_Paths :: "FileType list \<Rightarrow> Join \<Rightarrow> string \<Rightarrow> string list" where
  "Default_Paths types Join path =
     map (\<lambda>t. Join [path, defaultLayoutPaths t]) types @
     map (\<lambda>i. Join [path, defaultLayoutPaths PackFile, hex_EncodeToString [of_nat i]]) [0..<256]"

definition Default_Basedir :: "Join \<Rightarrow> string \<Rightarrow> FileType \<Rightarrow> string \<times> bool" where
  "Default_Basedir Join path t = (Join [path, defaultLayoutPaths t], t = PackFile)"

definition REST_Dirname :: "Join \<Rightarrow> string \<Rightarrow> string \<Rightarrow> Handle \<Rightarrow> string" where
  "REST_Dirname Join url path h =
     (if h_Type h = ConfigFile then url @ Join [path, ''/'']
      else url @ Join [path, ''/'', defaultLayoutPaths (h_Type h)] @ ''/'')"

definition REST_Filename :: "Join \<Rightarrow> string \<Rightarrow> string \<Rightarrow> Handle \<Rightarrow> string" where
  "REST_Filename Join url path h =
     (let name = (if h_Type h = ConfigFile then ''config'' else h_Name h) in
      url @ Join [path, ''/'', defaultLayoutPaths (h_Type h), name])"

definition REST_Paths :: "FileType list \<Rightarrow> Join \<Rightarrow> string \<Rightarrow> string \<Rightarrow> string list" where
  "REST_Paths types Join url path = map (\<lambda>t. url @ Join [path, defaultLayoutPaths t]) types"

definition REST_Basedir :: "Join \<Rightarrow> string \<Rightarrow> string \<Rightarrow> FileType \<Rightarrow> string \<times> bool" where
  "REST_Basedir Join url path t = (url @ Join [path, defaultLayoutPaths t], False)"

definition s3LayoutPaths :: "FileType \<Rightarrow> string" where
  "s3LayoutPaths t =
     (if t = PackFile then ''data'' else if t = SnapshotFile then ''snapshot'' else if t = IndexFile then ''index''
      else if t = LockFile then ''lock'' else if t = KeyFile then ''key'' else '''')"

definition S3_join :: "Join \<Rightarrow> string \<Rightarrow> string list \<Rightarrow> string" where
  "S3_join Join url items =
     (let path = Join (dropWhile (\<lambda>s. s = '''') items);
          url' = (if (path = '''' \<or> path ! 0 \<noteq> CHR ''/'') \<and> url \<noteq> '''' \<and> last url \<noteq> CHR ''/'' then url @ ''/'' else url) in
      url' @ path)"

definition S3_Dirname :: "Join \<Rightarrow> string \<Rightarrow> string \<Rightarrow> Handle \<Rightarrow> string" where
  "S3_Dirname Join url path h =
     (if h_Type h = ConfigFile then url @ Join [path, ''/'']
      else S3_join Join url [path, s3LayoutPaths (h_Type h)] @ ''/'')"

definition S3_Filename :: "Join \<Rightarrow> string \<Rightarrow> string \<Rightarrow> Handle \<Rightarrow> string" where
  "S3_Filename Join url path h =
     (let name = (if h_Type h = ConfigFile then ''config'' else h_Name h) in
      S3_join Join url [path, s3LayoutPaths (h_Type h), name])"

definition S3_Paths :: "FileType list \<Rightarrow> Join \<Rightarrow> string \<Rightarrow> string list" where
  "S3_Paths types Join path = map (\<lambda>t. Join [path, s3LayoutPaths t]) types"

definition S3_Basedir :: "Join \<Rightarrow> string \<Rightarrow> FileType \<Rightarrow> string \<times> bool" where
  "S3_Basedir Join path t = (Join [path, s3LayoutPaths t], False)"

text \<open>Detection: \<open>ReadDir\<close> of the file system returns the names in a directory.\<close>

datatype Layout = DefaultLayout string | S3LegacyLayout string

definition backendFilename :: "string \<Rightarrow> bool" where
  "backendFilename s = (length s = idSize * 2 \<and> list_all (\<lambda>c. c \<in> set ''abcdefABCDEF0123456789'') s)"

definition hasBackendFile :: "(string \<Rightarrow> string list res) \<Rightarrow> (error \<Rightarrow> bool) \<Rightarrow> string \<Rightarrow> bool res" where
  "hasBackendFile ReadDir IsNotExist dir =
     (case ReadDir dir of
        Panic m \<Rightarrow> Panic m
      | Err e \<Rightarrow> if IsNotExist (Cause e) then Ok False else Err (Wrap e ''ReadDir'')
      | Ok entries \<Rightarrow> Ok (list_ex backendFilename entries))"

abbreviation ErrLayoutDetectionFailed :: error where
  "ErrLayoutDetectionFailed \<equiv> Errorf ''auto-detecting the filesystem layout failed''"

definition DetectLayout :: "Join \<Rightarrow> (string \<Rightarrow> string list res) \<Rightarrow> (error \<Rightarrow> bool) \<Rightarrow> string \<Rightarrow> Layout res" where
  "DetectLayout Join ReadDir IsNotExist dir =
     bind_r (hasBackendFile ReadDir IsNotExist (Join [dir, defaultLayoutPaths KeyFile])) (\<lambda>foundKeysFile.
     bind_r (hasBackendFile ReadDir IsNotExist (Join [dir, s3LayoutPaths KeyFile])) (\<lambda>foundKeyFile.
       if foundKeysFile \<and> \<not> foundKeyFile then Ok (DefaultLayout dir)
       else if foundKeyFile \<and> \<not> foundKeysFile then Ok (S3LegacyLayout dir)
       else Err ErrLayoutDetectionFailed))"

text \<open>The recursive call has an empty default, so that it does not recur again.\<close>

function ParseLayout ::
  "Join \<Rightarrow> (string \<Rightarrow> string list res) \<Rightarrow> (error \<Rightarrow> bool) \<Rightarrow> string \<Rightarrow> string \<Rightarrow> string \<Rightarrow> Layout res" where
  "ParseLayout Join ReadDir IsNotExist layout defaultLayout path =
     (if layout = ''default'' then Ok (DefaultLayout path)
      else if layout = ''s3legacy'' then Ok (S3LegacyLayout path)
      else if layout = '''' then
        (case DetectLayout Join ReadDir IsNotExist path of
           Err e \<Rightarrow>
             if Cause e = ErrLayoutDetectionFailed \<and> defaultLayout \<noteq> ''''
             then ParseLayout Join ReadDir IsNotExist defaultLayout '''' path
             else Err e
         | l \<Rightarrow> l)
      else Err (Errorf ''unknown backend layout string %q, may be one of: default, s3legacy''))"
  by pat_completeness auto
termination
  by (relation "measure (\<lambda>(_, _, _, _, d, _). length d)") auto

declare ParseLayout.simps [simp del]

section \<open>The backend that retries\<close>

text \<open>A call of \<open>RetryNotify\<close> has the context (\<open>fin s\<close>: it is done in the state \<open>s\<close>), the field \<open>MaxTries\<close>, the operation and
  the state that the operation works on.\<close>

type_synonym 's RetryNotify = "('s \<Rightarrow> bool) \<Rightarrow> int \<Rightarrow> ('s \<Rightarrow> 's \<times> error option) \<Rightarrow> 's \<Rightarrow> 's \<times> error option"

definition permanent :: "error \<Rightarrow> bool" where
  "permanent e = (case e of PermanentError _ \<Rightarrow> True | _ \<Rightarrow> False)"

inductive retried :: "('s \<Rightarrow> bool) \<Rightarrow> ('s \<Rightarrow> 's \<times> error option) \<Rightarrow> 's \<Rightarrow> 's \<Rightarrow> bool \<Rightarrow> bool" for fin f where
  last_run: "f s = (s', eo) \<Longrightarrow> retried fin f s s' (eo = None)"
| run_again: "f s = (s1, Some e) \<Longrightarrow> \<not> permanent e \<Longrightarrow> \<not> fin s1 \<Longrightarrow> retried fin f s1 s' ok \<Longrightarrow> retried fin f s s' ok"

definition retry_law :: "'s RetryNotify \<Rightarrow> bool" where
  "retry_law R = (\<forall>fin n f s. retried fin f s (fst (R fin n f s)) (snd (R fin n f s) = None))"

text \<open>\<open>cerr\<close> is \<open>ctx.Err()\<close> when the method is called.\<close>

definition retry :: "'s RetryNotify \<Rightarrow> error option \<Rightarrow> ('s \<Rightarrow> bool) \<Rightarrow> int \<Rightarrow> ('s \<Rightarrow> 's \<times> error option) \<Rightarrow> 's \<Rightarrow> 's \<times> error option" where
  "retry R cerr fin MaxTries f s = (case cerr of Some e \<Rightarrow> (s, Some e) | None \<Rightarrow> R fin MaxTries f s)"

text \<open>\<open>rewind\<close> is the error of rewinding the reader; the error of \<open>Remove\<close> is only logged.\<close>

definition save_attempt ::
  "error option \<Rightarrow> ('b \<Rightarrow> Handle \<Rightarrow> RewindReader \<Rightarrow> 'b \<times> error option) \<Rightarrow> ('b \<Rightarrow> Handle \<Rightarrow> 'b \<times> error option) \<Rightarrow>
    Handle \<Rightarrow> RewindReader \<Rightarrow> 'b \<Rightarrow> 'b \<times> error option" where
  "save_attempt rewind save remove h rd be =
     (case rewind of
        Some e \<Rightarrow> (be, Some e)
      | None \<Rightarrow>
          (case save be h rd of
             (be', None) \<Rightarrow> (be', None)
           | (be', Some err) \<Rightarrow> (fst (remove be' h), Some err)))"

definition retry_Save ::
  "'b RetryNotify \<Rightarrow> error option \<Rightarrow> ('b \<Rightarrow> bool) \<Rightarrow> int \<Rightarrow> error option \<Rightarrow>
    ('b \<Rightarrow> Handle \<Rightarrow> RewindReader \<Rightarrow> 'b \<times> error option) \<Rightarrow> ('b \<Rightarrow> Handle \<Rightarrow> 'b \<times> error option) \<Rightarrow>
    Handle \<Rightarrow> RewindReader \<Rightarrow> 'b \<Rightarrow> 'b \<times> error option" where
  "retry_Save R cerr fin MaxTries rewind save remove h rd be =
     retry R cerr fin MaxTries (save_attempt rewind save remove h rd) be"

definition retry_Remove ::
  "'b RetryNotify \<Rightarrow> error option \<Rightarrow> ('b \<Rightarrow> bool) \<Rightarrow> int \<Rightarrow> ('b \<Rightarrow> Handle \<Rightarrow> 'b \<times> error option) \<Rightarrow> Handle \<Rightarrow> 'b \<Rightarrow> 'b \<times> error option" where
  "retry_Remove R cerr fin MaxTries remove h be = retry R cerr fin MaxTries (\<lambda>be. remove be h) be"

text \<open>\<open>Load\<close> works on the variables of its consumer, \<open>Stat\<close> and \<open>Test\<close> on the result variable; \<open>load\<close>, \<open>stat\<close> and \<open>test\<close> read
  the backend, whose answer may differ from run to run: the state counts the runs.\<close>

definition retry_Load ::
  "(nat \<times> 's) RetryNotify \<Rightarrow> error option \<Rightarrow> (nat \<times> 's \<Rightarrow> bool) \<Rightarrow> int \<Rightarrow>
    (nat \<Rightarrow> Handle \<Rightarrow> nat \<Rightarrow> int \<Rightarrow> 's \<Rightarrow> 's \<times> error option) \<Rightarrow> Handle \<Rightarrow> nat \<Rightarrow> int \<Rightarrow> 's \<Rightarrow> 's \<times> error option" where
  "retry_Load R cerr fin MaxTries load h len off s =
     (case retry R cerr fin MaxTries
             (\<lambda>(i, s). case load i h len off s of (s', eo) \<Rightarrow> ((Suc i, s'), eo)) (0, s) of
        ((_, s'), eo) \<Rightarrow> (s', eo))"

definition retry_Stat ::
  "(nat \<times> FileInfo) RetryNotify \<Rightarrow> error option \<Rightarrow> (nat \<times> FileInfo \<Rightarrow> bool) \<Rightarrow> int \<Rightarrow>
    (nat \<Rightarrow> Handle \<Rightarrow> FileInfo \<times> error option) \<Rightarrow> Handle \<Rightarrow> FileInfo \<times> error option" where
  "retry_Stat R cerr fin MaxTries stat h =
     (case retry R cerr fin MaxTries
             (\<lambda>(i, _). case stat i h of (fi, eo) \<Rightarrow> ((Suc i, fi), eo)) (0, \<lparr>fi_Name = [], fi_Size = 0\<rparr>) of
        ((_, fi), eo) \<Rightarrow> (fi, eo))"

definition retry_Test ::
  "(nat \<times> bool) RetryNotify \<Rightarrow> error option \<Rightarrow> (nat \<times> bool \<Rightarrow> bool) \<Rightarrow> int \<Rightarrow>
    (nat \<Rightarrow> Handle \<Rightarrow> bool \<times> error option) \<Rightarrow> Handle \<Rightarrow> bool \<times> error option" where
  "retry_Test R cerr fin MaxTries test h =
     (case retry R cerr fin MaxTries
             (\<lambda>(i, _). case test i h of (ex, eo) \<Rightarrow> ((Suc i, ex), eo)) (0, False) of
        ((_, ex), eo) \<Rightarrow> (ex, eo))"

text \<open>\<open>List\<close>: the variables \<open>listed\<close> and \<open>innerErr\<close>, the cancellation of \<open>listCtx\<close> and the variables of the callback. The
  backend's \<open>List\<close> delivers in run \<open>i\<close> the files and then the error of \<open>blist i\<close>; like the backends of the repository it
  stops at the first error of its callback and returns it.\<close>

record 's listing =
  ls_run :: nat
  ls_listed :: "string list"
  ls_innerErr :: "error option"
  ls_cancelled :: bool
  ls_ext :: 's

definition list_callback :: "(FileInfo \<Rightarrow> 's \<Rightarrow> 's \<times> error option) \<Rightarrow> FileInfo \<Rightarrow> 's listing \<Rightarrow> 's listing \<times> error option" where
  "list_callback fn fi st =
     (if fi_Name fi \<in> set (ls_listed st) then (st, None)
      else
        (case fn fi (ls_ext st) of (s', innerErr) \<Rightarrow>
           (st\<lparr>ls_listed := ls_listed st @ [fi_Name fi], ls_innerErr := innerErr,
               ls_cancelled := (ls_cancelled st \<or> innerErr \<noteq> None), ls_ext := s'\<rparr>, innerErr)))"

primrec list_files ::
  "(FileInfo \<Rightarrow> 's \<Rightarrow> 's \<times> error option) \<Rightarrow> FileInfo list \<Rightarrow> error option \<Rightarrow> 's listing \<Rightarrow> 's listing \<times> error option" where
  "list_files fn [] eo st = (st, eo)"
| "list_files fn (fi # fis) eo st =
     (case list_callback fn fi st of
        (st', None) \<Rightarrow> list_files fn fis eo st'
      | (st', Some e) \<Rightarrow> (st', Some e))"

definition list_attempt ::
  "(nat \<Rightarrow> FileInfo list \<times> error option) \<Rightarrow> (FileInfo \<Rightarrow> 's \<Rightarrow> 's \<times> error option) \<Rightarrow> 's listing \<Rightarrow> 's listing \<times> error option" where
  "list_attempt blist fn st =
     (case blist (ls_run st) of (fis, eo) \<Rightarrow> list_files fn fis eo (st\<lparr>ls_run := Suc (ls_run st)\<rparr>))"

definition retry_List ::
  "'s listing RetryNotify \<Rightarrow> error option \<Rightarrow> (nat \<Rightarrow> bool) \<Rightarrow> int \<Rightarrow> (nat \<Rightarrow> FileInfo list \<times> error option) \<Rightarrow>
    (FileInfo \<Rightarrow> 's \<Rightarrow> 's \<times> error option) \<Rightarrow> 's \<Rightarrow> 's listing \<times> error option" where
  "retry_List R cerr fin MaxTries blist fn s =
     (case retry R cerr (\<lambda>st. ls_cancelled st \<or> fin (ls_run st)) MaxTries (list_attempt blist fn)
             \<lparr>ls_run = 0, ls_listed = [], ls_innerErr = None, ls_cancelled = False, ls_ext = s\<rparr> of
        (st, err) \<Rightarrow> (st, case ls_innerErr st of Some e \<Rightarrow> Some e | None \<Rightarrow> err))"

section \<open>Splitting command lines\<close>

record shellSplitter =
  ss_quote :: "char option"
  ss_lastChar :: "char option"

definition isSplitChar :: "shellSplitter \<Rightarrow> char \<Rightarrow> shellSplitter \<times> bool" where
  "isSplitChar s c =
     (if ss_lastChar s \<noteq> Some CHR 0x5C \<and> ss_quote s = Some c then (s\<lparr>ss_quote := None\<rparr>, True)
      else if ss_lastChar s \<noteq> Some CHR 0x5C \<and> ss_quote s = None \<and> (c = CHR 0x22 \<or> c = CHR 0x27)
        then (s\<lparr>ss_quote := Some c\<rparr>, True)
      else
        (let s' = s\<lparr>ss_lastChar := Some c\<rparr> in
         if ss_quote s' \<noteq> None then (s', False) else (s', c = CHR 0x5C \<or> is_space c)))"

text \<open>The loop over the characters; \<open>field\<close> is \<open>data[fieldStart:i]\<close> while \<open>fieldStart\<close> is not negative.\<close>

primrec split_loop :: "string \<Rightarrow> shellSplitter \<Rightarrow> string option \<Rightarrow> string list \<Rightarrow> shellSplitter \<times> string list" where
  "split_loop [] s field strs = (s, case field of Some f \<Rightarrow> strs @ [f] | None \<Rightarrow> strs)"
| "split_loop (c # cs) s field strs =
     (case isSplitChar s c of (s', splt) \<Rightarrow>
        if splt then (case field of Some f \<Rightarrow> split_loop cs s' None (strs @ [f]) | None \<Rightarrow> split_loop cs s' None strs)
        else split_loop cs s' (Some (case field of Some f \<Rightarrow> f @ [c] | None \<Rightarrow> [c])) strs)"

definition SplitShellStrings :: "string \<Rightarrow> string list res" where
  "SplitShellStrings data =
     (case split_loop data \<lparr>ss_quote = None, ss_lastChar = None\<rparr> None [] of (s, strs) \<Rightarrow>
        if ss_quote s = Some CHR 0x27 then Err (Errorf ''single-quoted string not terminated'')
        else if ss_quote s = Some CHR 0x22 then Err (Errorf ''double-quoted string not terminated'')
        else if length strs = 0 then Err (Errorf ''command string is empty'')
        else Ok strs)"

section \<open>Retrying \<open>Save\<close>\<close>

lemma map_of_filter_key: "map_of (filter (\<lambda>e. fst e \<noteq> k) xs) = (map_of xs)(k := None)"
  by (induction xs) (auto simp: fun_eq_iff)

lemma mem_Remove_key:
  "h_Type h \<noteq> ConfigFile \<Longrightarrow> mem_files (fst (mem_Remove c be h)) = (mem_files be)(fkey h := None)"
  by (cases h) (auto simp: mem_Remove_def mem_files_def fkey_def Let_def fun_eq_iff map_of_filter_key split: if_splits)

text \<open>One run on the memory backend: a file that is not there is stored, one that is there is removed.\<close>

lemma save_attempt_mem:
  assumes "Handle_Valid h = None" "h_Type h \<noteq> ConfigFile" "rr_Len rd = length (rr_data rd)"
    "rr_hash rd = Some (md5 (rr_data rd))"
  shows "save_attempt None (mem_Save md5 None) (mem_Remove None) h rd be = (be', eo) \<Longrightarrow>
    (if mem_files be (fkey h) = None then eo = None \<and> mem_files be' = (mem_files be)(fkey h \<mapsto> rr_data rd)
     else eo \<noteq> None \<and> mem_files be' = (mem_files be)(fkey h := None))"
  using assms mem_Remove_key [of h None be]
  by (auto simp: save_attempt_def mem_Save_def Let_def mem_files_snoc simp flip: mem_files_key split: if_splits)

lemma retried_save:
  assumes "retried fin (save_attempt None (mem_Save md5 None) (mem_Remove None) h rd) be be' ok"
    "Handle_Valid h = None" "h_Type h \<noteq> ConfigFile" "rr_Len rd = length (rr_data rd)"
    "rr_hash rd = Some (md5 (rr_data rd))"
  shows "mem_files be' = (mem_files be)(fkey h := (if ok then Some (rr_data rd) else None)) \<and>
    (\<not> ok \<longrightarrow> mem_files be (fkey h) \<noteq> None)"
  using assms(1)
proof induction
  case (last_run s s' eo)
  then show ?case using save_attempt_mem [OF assms(2-5) last_run] by (auto split: if_splits)
next
  case (run_again s s1 e s' ok)
  then show ?case using save_attempt_mem [OF assms(2-5) run_again(1)] by (auto split: if_splits)
qed


text \<open>The library at its least: one run and no retry.\<close>

definition run_once :: "'s RetryNotify" where
  "run_once fin n f s = f s"

lemma run_once_law: "retry_law run_once"
  unfolding retry_law_def run_once_def by (metis last_run prod.collapse)

abbreviation toy_file :: Handle where
  "toy_file \<equiv> \<lparr>h_Type = IndexFile, h_ContainedBlobType = InvalidBlob, h_Name = ''ab''\<rparr>"


section \<open>Retrying \<open>List\<close>\<close>

text \<open>The reference: the callback is called on the files in order, and after an error not again.\<close>

primrec calls :: "(FileInfo \<Rightarrow> 's \<Rightarrow> 's \<times> error option) \<Rightarrow> FileInfo list \<Rightarrow> 's \<Rightarrow> ('s \<times> error option) option" where
  "calls fn [] s = Some (s, None)"
| "calls fn (fi # fis) s =
     (case fn fi s of
        (s', None) \<Rightarrow> calls fn fis s'
      | (s', Some e) \<Rightarrow> if fis = [] then Some (s', Some e) else None)"

lemma calls_snoc: "calls fn fis s = Some (s', None) \<Longrightarrow> calls fn (fis @ [fi]) s = Some (fn fi s')"
  by (induction fis arbitrary: s) (auto split: prod.splits option.splits if_splits)

definition listing_inv :: "(FileInfo \<Rightarrow> 's \<Rightarrow> 's \<times> error option) \<Rightarrow> 's \<Rightarrow> 's listing \<Rightarrow> bool" where
  "listing_inv fn s st \<longleftrightarrow>
     distinct (ls_listed st) \<and> ls_cancelled st = (ls_innerErr st \<noteq> None) \<and>
     (\<exists>fis. map fi_Name fis = ls_listed st \<and> calls fn fis s = Some (ls_ext st, ls_innerErr st))"

lemma list_callback_inv:
  assumes "listing_inv fn s st" "\<not> ls_cancelled st" "list_callback fn fi st = (st', eo)"
  shows "listing_inv fn s st' \<and> ls_innerErr st' = eo \<and> set (ls_listed st') = insert (fi_Name fi) (set (ls_listed st))"
proof (cases "fi_Name fi \<in> set (ls_listed st)")
  case True
  then show ?thesis using assms by (auto simp: list_callback_def listing_inv_def)
next
  case False
  obtain s' e where f: "fn fi (ls_ext st) = (s', e)" by fastforce
  from assms(1,2) obtain fis where "map fi_Name fis = ls_listed st" "calls fn fis s = Some (ls_ext st, None)"
    by (auto simp: listing_inv_def)
  then have "\<exists>fis. map fi_Name fis = ls_listed st @ [fi_Name fi] \<and> calls fn fis s = Some (s', e)"
    using calls_snoc f by (intro exI [of _ "fis @ [fi]"]) fastforce
  then show ?thesis using assms False f unfolding list_callback_def listing_inv_def by auto
qed

lemma list_files_inv:
  "listing_inv fn s st \<Longrightarrow> \<not> ls_cancelled st \<Longrightarrow> list_files fn fis eo st = (st', eo') \<Longrightarrow>
    listing_inv fn s st' \<and>
    (eo' = None \<longrightarrow> eo = None \<and> ls_innerErr st' = None \<and> fi_Name ` set fis \<subseteq> set (ls_listed st')) \<and>
    set (ls_listed st) \<subseteq> set (ls_listed st')"
proof (induction fis arbitrary: st)
  case Nil
  then show ?case by (auto simp: listing_inv_def)
next
  case (Cons fi fis)
  obtain st1 e where c: "list_callback fn fi st = (st1, e)" by fastforce
  note i = list_callback_inv [OF Cons.prems(1,2) c]
  show ?case
  proof (cases e)
    case None
    then have "\<not> ls_cancelled st1" using i by (simp add: listing_inv_def)
    from Cons.IH [OF _ this] show ?thesis using i None c Cons.prems(3) by auto
  next
    case (Some x)
    then show ?thesis using i c Cons.prems(3) by auto
  qed
qed

lemma list_attempt_inv:
  assumes "listing_inv fn s st" "\<not> ls_cancelled st" "list_attempt blist fn st = (st', eo)"
  shows "listing_inv fn s st'"
    and "eo = None \<Longrightarrow> ls_innerErr st' = None \<and> (\<exists>i fis. blist i = (fis, None) \<and> fi_Name ` set fis \<subseteq> set (ls_listed st'))"
proof -
  obtain fis eo0 where b: "blist (ls_run st) = (fis, eo0)" by (cases "blist (ls_run st)")
  let ?st = "st\<lparr>ls_run := Suc (ls_run st)\<rparr>"
  have i: "listing_inv fn s ?st" using assms(1) unfolding listing_inv_def by simp
  have c: "\<not> ls_cancelled ?st" using assms(2) by simp
  have l: "list_files fn fis eo0 ?st = (st', eo)" using assms(3) b by (simp add: list_attempt_def)
  note inv = list_files_inv [OF i c l]
  show "listing_inv fn s st'" using inv by (rule conjunct1)
  show "eo = None \<Longrightarrow> ls_innerErr st' = None \<and> (\<exists>i fis. blist i = (fis, None) \<and> fi_Name ` set fis \<subseteq> set (ls_listed st'))"
    using inv b by metis
qed

lemma retried_list:
  assumes "retried (\<lambda>st. ls_cancelled st \<or> fin (ls_run st)) (list_attempt blist fn) st st' ok"
  shows "listing_inv fn s st \<Longrightarrow> \<not> ls_cancelled st \<Longrightarrow>
    listing_inv fn s st' \<and>
    (ok \<longrightarrow> ls_innerErr st' = None \<and> (\<exists>i fis. blist i = (fis, None) \<and> fi_Name ` set fis \<subseteq> set (ls_listed st')))"
  using assms
proof (induction rule: retried.induct)
  case (last_run st st' eo)
  show ?case using list_attempt_inv [OF last_run.prems last_run.hyps] by blast
next
  case (run_again st st1 e st' ok)
  have "\<not> ls_cancelled st1" using run_again.hyps(3) by simp
  then show ?case using run_again.IH list_attempt_inv(1) [OF run_again.prems run_again.hyps(1)] by blast
qed

text \<open>C32: \<open>List\<close> of the retrying backend, whatever the runs of the backend deliver and however often the library retries:
  the callback is called at most once for each name and never again after an error of its own, which is the error that
  \<open>List\<close> returns; when \<open>List\<close> returns no error, the callback was called for every file of a run that did not fail.\<close>

theorem retry_List_once:
  assumes "retry_law R" "retry_List R None fin n blist fn s = (st, eo)"
  shows "distinct (ls_listed st) \<and>
    (\<exists>fis. map fi_Name fis = ls_listed st \<and> calls fn fis s = Some (ls_ext st, ls_innerErr st)) \<and>
    (ls_innerErr st \<noteq> None \<longrightarrow> eo = ls_innerErr st) \<and>
    (eo = None \<longrightarrow> (\<exists>i fis. blist i = (fis, None) \<and> fi_Name ` set fis \<subseteq> set (ls_listed st)))"
proof -
  let ?st = "\<lparr>ls_run = 0, ls_listed = [], ls_innerErr = None, ls_cancelled = False, ls_ext = s\<rparr>"
  let ?fin = "\<lambda>st. ls_cancelled st \<or> fin (ls_run st)"
  obtain err where r: "R ?fin n (list_attempt blist fn) ?st = (st, err)"
    and eo: "eo = (case ls_innerErr st of Some e \<Rightarrow> Some e | None \<Rightarrow> err)"
    using assms(2) by (auto simp: retry_List_def retry_def split: prod.splits)
  have "retried ?fin (list_attempt blist fn) ?st st (err = None)"
    using assms(1) r unfolding retry_law_def by (metis fst_conv snd_conv)
  from retried_list [OF this, of s]
  have "listing_inv fn s st"
    "err = None \<longrightarrow> ls_innerErr st = None \<and> (\<exists>i fis. blist i = (fis, None) \<and> fi_Name ` set fis \<subseteq> set (ls_listed st))"
    by (auto simp: listing_inv_def)
  then show ?thesis using eo by (auto simp: listing_inv_def split: option.splits)
qed

theorem retry_List_once_witness:
  "snd (retry_List run_once None (\<lambda>_. False) 3 (\<lambda>_. ([\<lparr>fi_Name = ''a'', fi_Size = 1\<rparr>, \<lparr>fi_Name = ''a'', fi_Size = 1\<rparr>], None))
     (\<lambda>fi n. (Suc n, None)) (0::nat)) = None \<and>
   distinct (ls_listed (fst (retry_List run_once None (\<lambda>_. False) 3
     (\<lambda>_. ([\<lparr>fi_Name = ''a'', fi_Size = 1\<rparr>, \<lparr>fi_Name = ''a'', fi_Size = 1\<rparr>], None)) (\<lambda>fi n. (Suc n, None)) (0::nat))))"
  using retry_List_once [OF run_once_law prod.collapse [symmetric], of "\<lambda>_. False" 3
    "\<lambda>_. ([\<lparr>fi_Name = ''a'', fi_Size = 1\<rparr>, \<lparr>fi_Name = ''a'', fi_Size = 1\<rparr>], None)" "\<lambda>fi n. (Suc n, None)" "0::nat"]
  by (simp add: retry_List_def retry_def run_once_def list_attempt_def list_callback_def)

section \<open>Splitting and layouts\<close>

text \<open>Words of plain characters with one space before each are split at the spaces.\<close>

definition plain :: "char \<Rightarrow> bool" where
  "plain c \<longleftrightarrow> \<not> is_space c \<and> c \<notin> {CHR 0x22, CHR 0x27, CHR 0x5C}"

lemma split_loop_word:
  "list_all plain w \<Longrightarrow> ss_quote s = None \<Longrightarrow> ss_lastChar s \<noteq> Some CHR 0x5C \<Longrightarrow>
    \<exists>s'. ss_quote s' = None \<and> ss_lastChar s' \<noteq> Some CHR 0x5C \<and>
      split_loop (w @ cs) s (Some f) strs = split_loop cs s' (Some (f @ w)) strs"
proof (induction w arbitrary: s f)
  case (Cons c w)
  then have "isSplitChar s c = (s\<lparr>ss_lastChar := Some c\<rparr>, False)" by (auto simp: isSplitChar_def plain_def Let_def)
  then show ?case using Cons.IH [of "s\<lparr>ss_lastChar := Some c\<rparr>" "f @ [c]"] Cons.prems by (auto simp: plain_def)
qed auto

lemma split_loop_words:
  "list_all (\<lambda>w. w \<noteq> [] \<and> list_all plain w) ws \<Longrightarrow> ss_quote s = None \<Longrightarrow> ss_lastChar s \<noteq> Some CHR 0x5C \<Longrightarrow>
    \<exists>s'. ss_quote s' = None \<and>
      split_loop (concat (map (\<lambda>w. CHR '' '' # w) ws)) s fld strs =
        (s', strs @ (case fld of Some f \<Rightarrow> [f] | None \<Rightarrow> []) @ ws)"
proof (induction ws arbitrary: s fld strs)
  case Nil
  then show ?case by (auto split: option.splits)
next
  case (Cons w ws)
  then obtain c v where w: "w = c # v" "plain c" "list_all plain v" by (cases w) auto
  let ?s = "s\<lparr>ss_lastChar := Some CHR '' ''\<rparr>" and ?t = "s\<lparr>ss_lastChar := Some c\<rparr>"
  have sp: "isSplitChar s CHR '' '' = (?s, True)" "isSplitChar ?s c = (?t, False)"
    using Cons.prems w by (auto simp: isSplitChar_def plain_def is_space_def Let_def)
  let ?strs = "strs @ (case fld of Some f \<Rightarrow> [f] | None \<Rightarrow> [])"
  let ?cs = "concat (map (\<lambda>w. CHR '' '' # w) ws)"
  have "ss_quote ?t = None" "ss_lastChar ?t \<noteq> Some CHR 0x5C" using Cons.prems(2) w(2) by (simp_all add: plain_def)
  from split_loop_word [OF w(3) this, of ?cs "[c]" ?strs] obtain s' where s': "ss_quote s' = None"
    "ss_lastChar s' \<noteq> Some CHR 0x5C" "split_loop (v @ ?cs) ?t (Some [c]) ?strs = split_loop ?cs s' (Some ([c] @ v)) ?strs"
    by (elim exE conjE)
  then show ?case using Cons.IH [of s' "Some w" ?strs] Cons.prems w(1) sp by (cases fld) auto
qed

lemma SplitShellStrings_words:
  assumes "ws \<noteq> []" "list_all (\<lambda>w. w \<noteq> [] \<and> list_all plain w) ws"
  shows "SplitShellStrings (concat (map (\<lambda>w. CHR '' '' # w) ws)) = Ok ws"
  using split_loop_words [OF assms(2), of "\<lparr>ss_quote = None, ss_lastChar = None\<rparr>" None "[]"] assms(1)
  by (auto simp: SplitShellStrings_def)

text \<open>A layout that \<open>ParseLayout\<close> returns is for the path, and an explicit name is not looked up.\<close>

lemma ParseLayout_path:
  "ParseLayout Join ReadDir IsNotExist l d path = Ok lay \<Longrightarrow> lay \<in> {DefaultLayout path, S3LegacyLayout path}"
proof (induction Join ReadDir IsNotExist l d path rule: ParseLayout.induct)
  case (1 Join ReadDir IsNotExist l d path)
  have "DetectLayout Join ReadDir IsNotExist path = Ok lay \<Longrightarrow> lay \<in> {DefaultLayout path, S3LegacyLayout path}"
    by (auto simp: DetectLayout_def res_simps split: res.splits if_splits)
  then show ?case using 1 by (subst (asm) (2) ParseLayout.simps) (auto split: res.splits if_splits)
qed

end
