(* ===== verification/Locks.thy ===== *)
theory Locks
  imports Keys Durations
begin

text \<open>
  Locks: \<open>restic/lock.go\<close> and \<open>lock_unix.go\<close>.

  A process locks a repository with a file of type \<open>LockFile\<close>: \<open>newLock\<close> looks for other locks, writes its own, waits, and
  looks again. First come the functions as the code has them, on the repository of one process. Then the step relation
  \<open>lock_step\<close> runs any number of processes on one backend: listing the locks, loading one of them, writing and removing a
  file are single steps, and the steps of the processes are interleaved in every way.

  The record \<open>lockenv\<close> holds what comes from the system and from libraries: the JSON text of a lock, \<open>Remove\<close> of the backend,
  the name of the host, the process ID, the user, and the calls that find and signal a process. The workers of
  \<open>ForAllLocks\<close> are taken one at a time in the order of the listing.
\<close>

section \<open>Locks\<close>

text \<open>The exported fields of \<open>Lock\<close>, which are its JSON form, and the lock with the ID of its file.\<close>

record lockFile =
  l_Time :: int
  l_Exclusive :: bool
  l_Hostname :: string
  l_Username :: string
  l_PID :: int
  l_UID :: "32 word"
  l_GID :: "32 word"

record Lock =
  l_file :: lockFile
  lockID :: "ID option"

record User =
  u_Username :: string
  u_Uid :: string
  u_Gid :: string

record 'b lockenv =
  le_marshal :: "lockFile \<Rightarrow> bytes"
  le_unmarshal :: "bytes \<Rightarrow> lockFile res"
  le_Remove :: "'b \<Rightarrow> Handle \<Rightarrow> 'b \<times> error option"
  le_Hostname :: "string option"
  le_Getpid :: int
  le_user :: "User option"
  le_FindProcess :: "int \<Rightarrow> error option"
  le_Signal :: "int \<Rightarrow> error option"

definition IsAlreadyLocked :: "error \<Rightarrow> bool" where
  "IsAlreadyLocked err = (case Cause err of ErrAlreadyLocked _ \<Rightarrow> True | _ \<Rightarrow> False)"

text \<open>\<open>strconv.ParseInt\<close> with base 10 and 32 bits.\<close>

definition ParseInt32 :: "string \<Rightarrow> int res" where
  "ParseInt32 s =
     (let neg = (s \<noteq> [] \<and> hd s = CHR ''-'');
          d = (if s \<noteq> [] \<and> (hd s = CHR ''-'' \<or> hd s = CHR ''+'') then tl s else s) in
      if d = [] \<or> \<not> list_all is_digit d then Err (ErrOther ''invalid syntax'')
      else if (if neg then dec_val d > 2 ^ 31 else dec_val d \<ge> 2 ^ 31) then Err (ErrOther ''value out of range'')
      else Ok (if neg then - int (dec_val d) else int (dec_val d)))"

definition uidGidInt :: "User \<Rightarrow> 32 word \<times> 32 word \<times> error option" where
  "uidGidInt u =
     (case ParseInt32 (u_Uid u) of
        Ok ui \<Rightarrow>
          (case ParseInt32 (u_Gid u) of
             Ok gi \<Rightarrow> (word_of_int ui, word_of_int gi, None)
           | Err e \<Rightarrow> (0, 0, Some (Wrap e ''ParseInt''))
           | Panic m \<Rightarrow> (0, 0, Some (ErrOther m)))
      | Err e \<Rightarrow> (0, 0, Some (Wrap e ''ParseInt''))
      | Panic m \<Rightarrow> (0, 0, Some (ErrOther m)))"

definition fillUserInfo :: "'b lockenv \<Rightarrow> lockFile \<Rightarrow> lockFile \<times> error option" where
  "fillUserInfo LE l =
     (case le_user LE of
        None \<Rightarrow> (l, None)
      | Some usr \<Rightarrow>
          (case uidGidInt usr of (uid, gid, err) \<Rightarrow>
             (l\<lparr>l_Username := u_Username usr, l_UID := uid, l_GID := gid\<rparr>, err)))"

definition processExists :: "'b lockenv \<Rightarrow> lockFile \<Rightarrow> bool" where
  "processExists LE l = (le_FindProcess LE (l_PID l) = None \<and> le_Signal LE (l_PID l) = None)"

text \<open>\<open>now\<close> is the time of the call, in nanoseconds.\<close>

definition staleTimeout :: int where
  "staleTimeout = 30 * 60 * 1000000000"

definition Stale :: "'b lockenv \<Rightarrow> int \<Rightarrow> lockFile \<Rightarrow> bool" where
  "Stale LE now l =
     (if now - l_Time l > staleTimeout then True
      else
        (case le_Hostname LE of
           None \<Rightarrow> False
         | Some hn \<Rightarrow> if hn \<noteq> l_Hostname l then False else \<not> processExists LE l))"

section \<open>Lock files\<close>

definition lock_handle :: "ID \<Rightarrow> Handle" where
  "lock_handle i = \<lparr>h_Type = LockFile, h_ContainedBlobType = InvalidBlob, h_Name = ID_String i\<rparr>"

definition createLock :: "'b env \<Rightarrow> 'b lockenv \<Rightarrow> lockFile \<Rightarrow> 'b Repository \<Rightarrow> 'b Repository \<times> ID res" where
  "createLock E LE l r = SaveUnpacked E LockFile (le_marshal LE l) r"

definition remove_lock :: "'b lockenv \<Rightarrow> ID \<Rightarrow> 'b Repository \<Rightarrow> 'b Repository \<times> unit res" where
  "remove_lock LE i r =
     (case le_Remove LE (r_be r) (lock_handle i) of (be', eo) \<Rightarrow>
        (r\<lparr>r_be := be'\<rparr>, case eo of None \<Rightarrow> Ok () | Some e \<Rightarrow> Err e))"

definition Unlock :: "'b lockenv \<Rightarrow> Lock option \<Rightarrow> 'b Repository \<Rightarrow> 'b Repository \<times> unit res" where
  "Unlock LE l r =
     (case l of
        None \<Rightarrow> (r, Ok ())
      | Some l \<Rightarrow> (case lockID l of None \<Rightarrow> (r, Ok ()) | Some i \<Rightarrow> remove_lock LE i r))"

definition LoadLock :: "'b env \<Rightarrow> 'b lockenv \<Rightarrow> ID \<Rightarrow> 'b Repository \<Rightarrow> Lock res" where
  "LoadLock E LE i r =
     bind_r (LoadAndDecrypt E LockFile i r) (\<lambda>buf.
     bind_r (le_unmarshal LE buf) (\<lambda>l. Ok \<lparr>l_file = l, lockID = Some i\<rparr>))"

text \<open>The callback works on the repository, from which the next lock is loaded; a panic ends the program.\<close>

definition lock_worker ::
  "'b env \<Rightarrow> 'b lockenv \<Rightarrow> ID option \<Rightarrow> (ID \<Rightarrow> Lock res \<Rightarrow> 'b Repository \<Rightarrow> 'b Repository \<times> unit res) \<Rightarrow>
    ID \<Rightarrow> nat \<Rightarrow> 'b Repository \<Rightarrow> 'b Repository \<times> unit res" where
  "lock_worker E LE excludeID fn i sz r =
     (if excludeID = Some i then (r, Ok ())
      else (case LoadLock E LE i r of Panic m \<Rightarrow> (r, Panic m) | lock \<Rightarrow> fn i lock r))"

definition ForAllLocks ::
  "'b env \<Rightarrow> 'b lockenv \<Rightarrow> 'b Lister \<Rightarrow> ID option \<Rightarrow> (ID \<Rightarrow> Lock res \<Rightarrow> 'b Repository \<Rightarrow> 'b Repository \<times> unit res) \<Rightarrow>
    'b Repository \<Rightarrow> 'b Repository \<times> unit res" where
  "ForAllLocks E LE lst excludeID fn r =
     (case lst (r_be r) LockFile of (fis, eo) \<Rightarrow>
        bind_st (Repo_List fis (lock_worker E LE excludeID fn) r)
          (\<lambda>r _. (r, case eo of None \<Rightarrow> Ok () | Some e \<Rightarrow> Err e)))"

text \<open>The callback of \<open>checkForOtherLocks\<close>: a lock that cannot be loaded is ignored.\<close>

definition check_callback :: "lockFile \<Rightarrow> Lock res \<Rightarrow> unit res" where
  "check_callback l x =
     (case x of
        Ok lock \<Rightarrow>
          if l_Exclusive l then Err (ErrAlreadyLocked (l_Exclusive (l_file lock)))
          else if \<not> l_Exclusive l \<and> l_Exclusive (l_file lock) then Err (ErrAlreadyLocked (l_Exclusive (l_file lock)))
          else Ok ()
      | Err e \<Rightarrow> Ok ()
      | Panic m \<Rightarrow> Panic m)"

definition checkForOtherLocks :: "'b env \<Rightarrow> 'b lockenv \<Rightarrow> 'b Lister \<Rightarrow> Lock \<Rightarrow> 'b Repository \<Rightarrow> 'b Repository \<times> unit res" where
  "checkForOtherLocks E LE lst l r =
     ForAllLocks E LE lst (lockID l) (\<lambda>i x r. (r, check_callback (l_file l) x)) r"

text \<open>The first lines of \<open>newLock\<close>: the fields of the lock.\<close>

definition init_lock :: "'b lockenv \<Rightarrow> int \<Rightarrow> bool \<Rightarrow> lockFile res" where
  "init_lock LE now excl =
     (let l = \<lparr>l_Time = now, l_Exclusive = excl, l_Hostname = (case le_Hostname LE of Some hn \<Rightarrow> hn | None \<Rightarrow> ''''),
               l_Username = '''', l_PID = le_Getpid LE, l_UID = 0, l_GID = 0\<rparr> in
      case fillUserInfo LE l of (l, None) \<Rightarrow> Ok l | (l, Some e) \<Rightarrow> Err e)"

definition newLock :: "'b env \<Rightarrow> 'b lockenv \<Rightarrow> 'b Lister \<Rightarrow> int \<Rightarrow> bool \<Rightarrow> 'b Repository \<Rightarrow> 'b Repository \<times> Lock res" where
  "newLock E LE lst now excl r =
     bind_st (r, init_lock LE now excl) (\<lambda>r l.
     bind_st (checkForOtherLocks E LE lst \<lparr>l_file = l, lockID = None\<rparr> r) (\<lambda>r _.
     bind_st (createLock E LE l r) (\<lambda>r i.
       let lock = \<lparr>l_file = l, lockID = Some i\<rparr> in
       case checkForOtherLocks E LE lst lock r of
         (r, Ok _) \<Rightarrow> (r, Ok lock)
       | (r, Err e) \<Rightarrow> (fst (Unlock LE (Some lock) r), Err e)
       | (r, Panic m) \<Rightarrow> (r, Panic m))))"

definition NewLock :: "'b env \<Rightarrow> 'b lockenv \<Rightarrow> 'b Lister \<Rightarrow> int \<Rightarrow> 'b Repository \<Rightarrow> 'b Repository \<times> Lock res" where
  "NewLock E LE lst now r = newLock E LE lst now False r"

definition NewExclusiveLock :: "'b env \<Rightarrow> 'b lockenv \<Rightarrow> 'b Lister \<Rightarrow> int \<Rightarrow> 'b Repository \<Rightarrow> 'b Repository \<times> Lock res" where
  "NewExclusiveLock E LE lst now r = newLock E LE lst now True r"

text \<open>\<open>Refresh\<close> of a lock that has an ID; dereferencing the ID of one that has none panics, after the new file was written.\<close>

definition Refresh :: "'b env \<Rightarrow> 'b lockenv \<Rightarrow> int \<Rightarrow> Lock \<Rightarrow> 'b Repository \<Rightarrow> ('b Repository \<times> Lock) \<times> unit res" where
  "Refresh E LE now l r =
     (let l1 = l\<lparr>l_file := (l_file l)\<lparr>l_Time := now\<rparr>\<rparr> in
      case createLock E LE (l_file l1) r of
        (r, Ok i) \<Rightarrow>
          (case lockID l1 of
             None \<Rightarrow> ((r, l1\<lparr>lockID := Some i\<rparr>), Panic ''nil pointer dereference'')
           | Some old \<Rightarrow> (case remove_lock LE old r of (r, res) \<Rightarrow> ((r, l1\<lparr>lockID := Some i\<rparr>), res)))
      | (r, Err e) \<Rightarrow> ((r, l1), Err e)
      | (r, Panic m) \<Rightarrow> ((r, l1), Panic m))"

definition stale_callback :: "'b lockenv \<Rightarrow> int \<Rightarrow> ID \<Rightarrow> Lock res \<Rightarrow> 'b Repository \<Rightarrow> 'b Repository \<times> unit res" where
  "stale_callback LE now i x r =
     (case x of
        Ok lock \<Rightarrow> if Stale LE now (l_file lock) then remove_lock LE i r else (r, Ok ())
      | Err e \<Rightarrow> (r, Ok ())
      | Panic m \<Rightarrow> (r, Panic m))"

definition RemoveStaleLocks :: "'b env \<Rightarrow> 'b lockenv \<Rightarrow> 'b Lister \<Rightarrow> int \<Rightarrow> 'b Repository \<Rightarrow> 'b Repository \<times> unit res" where
  "RemoveStaleLocks E LE lst now r = ForAllLocks E LE lst None (stale_callback LE now) r"

definition RemoveAllLocks :: "'b lockenv \<Rightarrow> 'b Lister \<Rightarrow> 'b Repository \<Rightarrow> 'b Repository \<times> unit res" where
  "RemoveAllLocks LE lst r =
     (case lst (r_be r) LockFile of (fis, eo) \<Rightarrow>
        bind_st (Repo_List fis (\<lambda>i sz r. remove_lock LE i r) r)
          (\<lambda>r _. (r, case eo of None \<Rightarrow> Ok () | Some e \<Rightarrow> Err e)))"

section \<open>Processes on one backend\<close>

text \<open>
  Where a process is in \<open>newLock\<close> or \<open>Refresh\<close>: before it, in the first check with the locks still to load, before writing its
  lock, waiting, in the second check, before removing the lock after a failed check, holding the lock, between writing
  and removing a file in \<open>Refresh\<close>, or done. A process that is done may have failed, unlocked, or died.
\<close>

datatype phase = Idle | Check1 "ID list" | Create | Wait | Check2 "ID list" | Undo | Held | Refreshing ID | Over

record 'b world =
  w_be :: 'b
  w_lock :: "nat \<Rightarrow> Lock"
  w_phase :: "nat \<Rightarrow> phase"

definition goto :: "nat \<Rightarrow> phase \<Rightarrow> 'b world \<Rightarrow> 'b world" where
  "goto p ph w = w\<lparr>w_phase := (w_phase w)(p := ph)\<rparr>"

definition set_lock :: "nat \<Rightarrow> Lock \<Rightarrow> 'b world \<Rightarrow> 'b world" where
  "set_lock p l w = w\<lparr>w_lock := (w_lock w)(p := l)\<rparr>"

text \<open>The IDs that the listing delivers to the workers.\<close>

definition lock_ids :: "FileInfo list \<Rightarrow> ID option \<Rightarrow> ID list" where
  "lock_ids fis excludeID =
     filter (\<lambda>i. excludeID \<noteq> Some i) (concat (map (\<lambda>fi. case ParseID (fi_Name fi) of Ok i \<Rightarrow> [i] | _ \<Rightarrow> []) fis))"

text \<open>The files of a process, and whether it is past writing its lock.\<close>

definition active :: "phase \<Rightarrow> bool" where
  "active ph = (case ph of Wait \<Rightarrow> True | Check2 _ \<Rightarrow> True | Undo \<Rightarrow> True | Held \<Rightarrow> True | Refreshing _ \<Rightarrow> True | _ \<Rightarrow> False)"

definition holds :: "phase \<Rightarrow> bool" where
  "holds ph = (case ph of Held \<Rightarrow> True | Refreshing _ \<Rightarrow> True | _ \<Rightarrow> False)"

definition own :: "'b world \<Rightarrow> nat \<Rightarrow> ID set" where
  "own w p =
     (if active (w_phase w p) then set_option (lockID (w_lock w p)) \<union> (case w_phase w p of Refreshing old \<Rightarrow> {old} | _ \<Rightarrow> {})
      else {})"

text \<open>
  One step of one process, with every outcome; \<open>key\<close> is the master key that all use. A process may die at any time. Another
  process may remove a lock file that belongs to no active process, as \<open>RemoveStaleLocks\<close> means to, and change
  the files that are not locks. With \<open>rf\<close> a refreshed lock may be removed at any time; without it only when no process is about
  to load it.
\<close>

inductive lock_step ::
  "'b env \<Rightarrow> 'b lockenv \<Rightarrow> 'b Lister \<Rightarrow> ('b \<Rightarrow> FileType \<times> string \<rightharpoonup> bytes) \<Rightarrow> Key \<Rightarrow> bool \<Rightarrow> 'b world \<Rightarrow> 'b world \<Rightarrow> bool"
  for E LE lst files key rf where
  start: "w_phase w p = Idle \<Longrightarrow> init_lock LE now excl = Ok l \<Longrightarrow> lst (w_be w) LockFile = (fis, eo) \<Longrightarrow>
    lock_step E LE lst files key rf w
      (set_lock p \<lparr>l_file = l, lockID = None\<rparr> (goto p (if eo = None then Check1 (lock_ids fis None) else Over) w))"
| load1: "w_phase w p = Check1 ids \<Longrightarrow> i \<in> set ids \<Longrightarrow> r_be r = w_be w \<Longrightarrow> r_key r = key \<Longrightarrow>
    lock_step E LE lst files key rf w
      (goto p (if check_callback (l_file (w_lock w p)) (LoadLock E LE i r) = Ok () then Check1 (remove1 i ids) else Over) w)"
| checked1: "w_phase w p = Check1 [] \<Longrightarrow> lock_step E LE lst files key rf w (goto p Create w)"
| create: "w_phase w p = Create \<Longrightarrow> r_be r = w_be w \<Longrightarrow> r_key r = key \<Longrightarrow>
    createLock E LE (l_file (w_lock w p)) r = (r', Ok i) \<Longrightarrow>
    lock_step E LE lst files key rf w
      (set_lock p ((w_lock w p)\<lparr>lockID := Some i\<rparr>) (goto p Wait (w\<lparr>w_be := r_be r'\<rparr>)))"
| create_error: "w_phase w p = Create \<Longrightarrow> r_be r = w_be w \<Longrightarrow> r_key r = key \<Longrightarrow>
    createLock E LE (l_file (w_lock w p)) r = (r', Err e) \<Longrightarrow>
    lock_step E LE lst files key rf w (goto p Over (w\<lparr>w_be := r_be r'\<rparr>))"
| check2: "w_phase w p = Wait \<Longrightarrow> lst (w_be w) LockFile = (fis, eo) \<Longrightarrow>
    lock_step E LE lst files key rf w
      (goto p (if eo = None then Check2 (lock_ids fis (lockID (w_lock w p))) else Undo) w)"
| load2: "w_phase w p = Check2 ids \<Longrightarrow> i \<in> set ids \<Longrightarrow> r_be r = w_be w \<Longrightarrow> r_key r = key \<Longrightarrow>
    lock_step E LE lst files key rf w
      (goto p (if check_callback (l_file (w_lock w p)) (LoadLock E LE i r) = Ok () then Check2 (remove1 i ids) else Undo) w)"
| checked2: "w_phase w p = Check2 [] \<Longrightarrow> lock_step E LE lst files key rf w (goto p Held w)"
| unlock: "w_phase w p \<in> {Undo, Held} \<Longrightarrow> r_be r = w_be w \<Longrightarrow> Unlock LE (Some (w_lock w p)) r = (r', res) \<Longrightarrow>
    lock_step E LE lst files key rf w (goto p Over (w\<lparr>w_be := r_be r'\<rparr>))"
| refresh: "w_phase w p = Held \<Longrightarrow> r_be r = w_be w \<Longrightarrow> r_key r = key \<Longrightarrow> lockID (w_lock w p) = Some old \<Longrightarrow>
    createLock E LE ((l_file (w_lock w p))\<lparr>l_Time := now\<rparr>) r = (r', Ok i) \<Longrightarrow>
    lock_step E LE lst files key rf w
      (set_lock p \<lparr>l_file = (l_file (w_lock w p))\<lparr>l_Time := now\<rparr>, lockID = Some i\<rparr> (goto p (Refreshing old) (w\<lparr>w_be := r_be r'\<rparr>)))"
| refresh_error: "w_phase w p = Held \<Longrightarrow> r_be r = w_be w \<Longrightarrow> r_key r = key \<Longrightarrow>
    createLock E LE ((l_file (w_lock w p))\<lparr>l_Time := now\<rparr>) r = (r', Err e) \<Longrightarrow>
    lock_step E LE lst files key rf w
      (set_lock p ((w_lock w p)\<lparr>l_file := (l_file (w_lock w p))\<lparr>l_Time := now\<rparr>\<rparr>) (w\<lparr>w_be := r_be r'\<rparr>))"
| refreshed: "w_phase w p = Refreshing old \<Longrightarrow> r_be r = w_be w \<Longrightarrow> remove_lock LE old r = (r', res) \<Longrightarrow>
    rf \<or> (\<forall>q ids. w_phase w q = Check2 ids \<longrightarrow> old \<notin> set ids) \<Longrightarrow>
    lock_step E LE lst files key rf w (goto p Held (w\<lparr>w_be := r_be r'\<rparr>))"
| die: "lock_step E LE lst files key rf w (goto p Over w)"
| remove_stale: "\<forall>q. i \<notin> own w q \<Longrightarrow> r_be r = w_be w \<Longrightarrow> remove_lock LE i r = (r', res) \<Longrightarrow>
    lock_step E LE lst files key rf w (w\<lparr>w_be := r_be r'\<rparr>)"
| other_files: "\<forall>n. files be' (LockFile, n) = files (w_be w) (LockFile, n) \<Longrightarrow> lock_step E LE lst files key rf w (w\<lparr>w_be := be'\<rparr>)"

abbreviation lock_runs where
  "lock_runs E LE lst files key rf \<equiv> (lock_step E LE lst files key rf)\<^sup>*\<^sup>*"

section \<open>Mutual exclusion\<close>

abbreviation excl_of :: "'b world \<Rightarrow> nat \<Rightarrow> bool" where
  "excl_of w p \<equiv> l_Exclusive (l_file (w_lock w p))"

text \<open>A file that loads as a lock.\<close>

definition lock_at :: "'b env \<Rightarrow> 'b lockenv \<Rightarrow> ('b \<Rightarrow> FileType \<times> string \<rightharpoonup> bytes) \<Rightarrow> Key \<Rightarrow> 'b \<Rightarrow> bool \<Rightarrow> ID \<Rightarrow> bool" where
  "lock_at E LE files key b x i \<longleftrightarrow>
     (\<exists>f l. files b (LockFile, ID_String i) = Some f \<and> i = Hash (sha256 E) f \<and>
       open_frame (e_prims E) key f = Ok (le_marshal LE l) \<and> l_Exclusive l = x)"

text \<open>The process \<open>p\<close> will fail, or still has a file of \<open>q\<close> to load.\<close>

definition sees :: "'b world \<Rightarrow> nat \<Rightarrow> nat \<Rightarrow> bool" where
  "sees w p q =
     (case w_phase w p of Wait \<Rightarrow> True | Undo \<Rightarrow> True | Check2 ids \<Rightarrow> set ids \<inter> own w q \<noteq> {} | _ \<Rightarrow> False)"

definition locks_inv ::
  "'b env \<Rightarrow> 'b lockenv \<Rightarrow> ('b \<Rightarrow> FileType \<times> string \<rightharpoonup> bytes) \<Rightarrow> Key \<Rightarrow> 'b world \<Rightarrow> bool" where
  "locks_inv E LE files key w \<longleftrightarrow>
     (\<forall>p. active (w_phase w p) \<longrightarrow> lockID (w_lock w p) \<noteq> None) \<and>
     (\<forall>p. \<forall>i \<in> own w p. lock_at E LE files key (w_be w) (excl_of w p) i) \<and>
     (\<forall>p q. p \<noteq> q \<longrightarrow> own w p \<inter> own w q = {}) \<and>
     (\<forall>p q. p \<noteq> q \<longrightarrow> active (w_phase w p) \<longrightarrow> active (w_phase w q) \<longrightarrow> excl_of w p \<or> excl_of w q \<longrightarrow>
        sees w p q \<or> sees w q p)"

lemma locks_invD:
  assumes "locks_inv E LE files key w"
  shows "active (w_phase w p) \<Longrightarrow> \<exists>i. lockID (w_lock w p) = Some i"
    and "i \<in> own w p \<Longrightarrow> lock_at E LE files key (w_be w) (excl_of w p) i"
    and "p \<noteq> q \<Longrightarrow> i \<in> own w p \<Longrightarrow> i \<notin> own w q"
    and "p \<noteq> q \<Longrightarrow> active (w_phase w p) \<Longrightarrow> active (w_phase w q) \<Longrightarrow> excl_of w p \<or> excl_of w q \<Longrightarrow> sees w p q \<or> sees w q p"
  using assms unfolding locks_inv_def by blast+

lemma goto_simps [simp]:
  "w_be (goto p ph w) = w_be w" "w_lock (goto p ph w) = w_lock w" "w_phase (goto p ph w) = (w_phase w)(p := ph)"
  "w_be (set_lock p l w) = w_be w" "w_lock (set_lock p l w) = (w_lock w)(p := l)" "w_phase (set_lock p l w) = w_phase w"
  by (simp_all add: goto_def set_lock_def)

lemma own_cong:
  "w_phase w' q = w_phase w q \<Longrightarrow> w_lock w' q = w_lock w q \<Longrightarrow> own w' q = own w q"
  by (simp add: own_def)

lemma active_simps [simp]:
  "active Wait" "active (Check2 ids)" "active Undo" "active Held" "active (Refreshing old)"
  "\<not> active Idle" "\<not> active (Check1 ids)" "\<not> active Create" "\<not> active Over"
  by (simp_all add: active_def)

text \<open>A step of \<open>p\<close> keeps the invariant if it keeps the files of the others and puts \<open>p\<close> where it agrees with each of them.\<close>

lemma locks_inv_step:
  assumes inv: "locks_inv E LE files key w"
    and same: "\<And>q. q \<noteq> p \<Longrightarrow> w_phase w' q = w_phase w q \<and> w_lock w' q = w_lock w q"
    and kept: "\<And>q i. q \<noteq> p \<Longrightarrow> i \<in> own w q \<Longrightarrow> lock_at E LE files key (w_be w') (excl_of w q) i"
    and mine: "active (w_phase w' p) \<Longrightarrow> lockID (w_lock w' p) \<noteq> None"
      "\<And>i. i \<in> own w' p \<Longrightarrow> lock_at E LE files key (w_be w') (excl_of w' p) i"
      "\<And>q. q \<noteq> p \<Longrightarrow> own w' p \<inter> own w q = {}"
    and agree: "\<And>q. q \<noteq> p \<Longrightarrow> active (w_phase w' p) \<Longrightarrow> active (w_phase w q) \<Longrightarrow> excl_of w' p \<or> excl_of w q \<Longrightarrow>
      sees w' p q \<or> sees w' q p"
  shows "locks_inv E LE files key w'"
proof -
  have own: "own w' q = own w q" if "q \<noteq> p" for q using same [OF that] own_cong by blast
  have sees: "sees w' q s = sees w q s" if "q \<noteq> p" "s \<noteq> p" for q s
    using same [OF that(1)] own [OF that(2)] by (simp add: sees_def split: phase.split)
  have "active (w_phase w' q) \<longrightarrow> lockID (w_lock w' q) \<noteq> None" for q
    using inv mine(1) same [of q] by (cases "q = p") (auto simp: locks_inv_def)
  moreover have "lock_at E LE files key (w_be w') (excl_of w' q) i" if "i \<in> own w' q" for q i
    using that mine(2) kept [of q i] same [of q] own [of q] by (cases "q = p") auto
  moreover have "own w' q \<inter> own w' s = {}" if "q \<noteq> s" for q s
    using that inv mine(3) own [of q] own [of s] unfolding locks_inv_def by (cases "q = p"; cases "s = p") (auto simp: Int_commute)
  moreover have "sees w' q s \<or> sees w' s q"
    if "q \<noteq> s" "active (w_phase w' q)" "active (w_phase w' s)" "excl_of w' q \<or> excl_of w' s" for q s
    using that inv agree [of q] agree [of s] sees same [of q] same [of s] unfolding locks_inv_def
    by (cases "q = p"; cases "s = p") auto
  ultimately show ?thesis unfolding locks_inv_def by blast
qed

text \<open>What the protocol needs of its surroundings: the backend's contract, JSON text that is read back, a \<open>Remove\<close> that removes no
  other lock, and a listing without an error that shows every lock.\<close>

locale lock_env = repo_env E files
  for E :: "'b env" and files :: "'b \<Rightarrow> FileType \<times> string \<rightharpoonup> bytes" +
  fixes LE :: "'b lockenv" and lst :: "'b Lister"
  assumes lock_json: "le_unmarshal LE (le_marshal LE l) = Ok l"
    and removes: "le_Remove LE b (lock_handle i) = (b', eo) \<Longrightarrow> n \<noteq> ID_String i \<Longrightarrow> files b' (LockFile, n) = files b (LockFile, n)"
    and lists: "lst b LockFile = (fis, None) \<Longrightarrow> files b (LockFile, n) \<noteq> None \<Longrightarrow> n \<in> fi_Name ` set fis"
begin

lemma is_ID_Hash: "is_ID (Hash (sha256 E) x)"
  using prims by (simp add: Hash_def is_ID_def sha256_def prims_ok_def idSize_def)

lemma LoadLock_at:
  assumes "lock_at E LE files key (r_be r) x i" "r_key r = key"
  shows "\<exists>l. LoadLock E LE i r = Ok l \<and> l_Exclusive (l_file l) = x"
proof -
  from assms(1) obtain f l where f: "files (r_be r) (LockFile, ID_String i) = Some f" "i = Hash (sha256 E) f"
    "open_frame (e_prims E) key f = Ok (le_marshal LE l)" "l_Exclusive l = x" unfolding lock_at_def by blast
  have "ID_String i \<noteq> []" using is_ID_Hash by (auto simp: f(2) is_ID_def ID_String_def idSize_def dest: arg_cong [of _ _ length])
  then have "LoadAndDecrypt E LockFile i r = Ok (le_marshal LE l)"
    using LoadAndDecrypt_file [of LockFile i r f] f assms(2) by (simp add: Handle_Valid_def)
  then show ?thesis using f(4) by (simp add: LoadLock_def lock_json)
qed

end

context lock_env
begin

text \<open>A new lock is loaded by everyone, and its file was not there before.\<close>

lemma createLock_Ok:
  assumes "createLock E LE l r = (r', Ok i)" "r_key r = key" "key_ok key"
  shows "lock_at E LE files key (r_be r') (l_Exclusive l) i" "files (r_be r) (LockFile, ID_String i) = None"
proof -
  obtain nonce f be' where S: "seal_frame (e_prims E) key nonce (le_marshal LE l) = Ok f" "r' = (tick r)\<lparr>r_be := be'\<rparr>"
    "i = Hash (sha256 E) f" "files be' = (files (r_be r))((LockFile, ID_String i) \<mapsto> f)"
    using SaveUnpacked_Ok [OF assms(1) [unfolded createLock_def]] assms(2) by (auto simp: fkey_def)
  have "nonce_ok nonce" using S(1) assms(3) by (simp add: seal_frame_Ok_iff)
  then have "open_frame (e_prims E) key f = Ok (le_marshal LE l)"
    using frames.open_seal [OF conjI [OF prims assms(3)] _ S(1)] by blast
  then show "lock_at E LE files key (r_be r') (l_Exclusive l) i" using S by (auto simp: lock_at_def)
  show "files (r_be r) (LockFile, ID_String i) = None"
  proof -
    obtain rd b where "e_Save E (r_be r) (lock_handle i) rd = (b, None)"
      using assms(1)
      by (auto simp: createLock_def SaveUnpacked_def bind_st_def tick_def Let_def lock_handle_def split: res.splits prod.splits option.splits)
    from save_ok [OF this] show ?thesis by (simp add: fkey_def lock_handle_def)
  qed
qed

lemma createLock_mono: "createLock E LE l r = (r', res) \<Longrightarrow> files (r_be r) \<subseteq>\<^sub>m files (r_be r')"
  using SaveUnpacked_keeps [of r LockFile "le_marshal LE l"] by (simp add: createLock_def keeps_def)

lemma lock_at_mono: "lock_at E LE files key b x i \<Longrightarrow> files b \<subseteq>\<^sub>m files b' \<Longrightarrow> lock_at E LE files key b' x i"
  unfolding lock_at_def by (elim exE conjE, intro exI conjI; (erule (1) map_le_Some)?; assumption)

lemma lock_at_remove:
  assumes "lock_at E LE files key (r_be r) x j" "remove_lock LE i r = (r', res)" "i \<noteq> j"
  shows "lock_at E LE files key (r_be r') x j"
proof -
  obtain be' eo where rm: "le_Remove LE (r_be r) (lock_handle i) = (be', eo)" "r_be r' = be'"
    using assms(2) by (auto simp: remove_lock_def split: prod.splits)
  have "ID_String j \<noteq> ID_String i" using assms(3) by (simp add: ID_String_def hex_encode_inj)
  from removes [OF rm(1) this] show ?thesis using assms(1) by (simp add: lock_at_def rm(2))
qed

lemma listed:
  assumes "lst b LockFile = (fis, None)" "lock_at E LE files key b x i" "ex \<noteq> Some i"
  shows "i \<in> set (lock_ids fis ex)"
proof -
  from assms(2) obtain f where "files b (LockFile, ID_String i) = Some f" "i = Hash (sha256 E) f" unfolding lock_at_def by blast
  then have "ID_String i \<in> fi_Name ` set fis" "ParseID (ID_String i) = Ok i"
    using lists [OF assms(1)] ParseID_String [OF is_ID_Hash] by auto
  then obtain fi where "fi \<in> set fis" "ParseID (fi_Name fi) = Ok i" by auto
  then show ?thesis using assms(3) unfolding lock_ids_def by (auto intro!: bexI [of _ fi])
qed

lemma callback_conflict:
  assumes "lock_at E LE files key (r_be r) x i" "r_key r = key" "l_Exclusive l \<or> x"
  shows "check_callback l (LoadLock E LE i r) \<noteq> Ok ()"
  using LoadLock_at [OF assms(1,2)] assms(3) by (auto simp: check_callback_def split: if_splits)

lemma sees_remove:
  assumes "sees w p q" "w_phase w p = Check2 ids" "r_be r = w_be w" "r_key r = key" "locks_inv E LE files key w"
    "check_callback (l_file (w_lock w p)) (LoadLock E LE i r) = Ok ()" "excl_of w p \<or> excl_of w q"
  shows "set (remove1 i ids) \<inter> own w q \<noteq> {}"
proof -
  from assms(1,2) obtain j where j: "j \<in> set ids" "j \<in> own w q" by (auto simp: sees_def)
  then have "lock_at E LE files key (r_be r) (excl_of w q) j" using assms(3,5) by (auto simp: locks_inv_def)
  then have "j \<noteq> i" using callback_conflict [OF _ assms(4), of "excl_of w q" j "l_file (w_lock w p)"] assms(6,7) by auto
  then have "j \<in> set (remove1 i ids)" using j(1) by simp
  with j(2) show ?thesis by blast
qed

end

lemma own_phase:
  "own (goto p ph w) p = (if active ph then set_option (lockID (w_lock w p)) \<union> (case ph of Refreshing old \<Rightarrow> {old} | _ \<Rightarrow> {}) else {})"
  by (simp add: own_def)

text \<open>Steps that change no phase, no ID of a lock and not what kind of lock it is.\<close>

lemma locks_inv_same:
  assumes "locks_inv E LE files key w" "w_phase w' = w_phase w"
    and "\<And>q. lockID (w_lock w' q) = lockID (w_lock w q)" "\<And>q. excl_of w' q = excl_of w q"
    and "\<And>q i. i \<in> own w q \<Longrightarrow> lock_at E LE files key (w_be w) (excl_of w q) i \<Longrightarrow> lock_at E LE files key (w_be w') (excl_of w q) i"
  shows "locks_inv E LE files key w'"
proof -
  have own: "own w' q = own w q" for q using assms(2,3) by (simp add: own_def)
  then have "sees w' p q = sees w p q" for p q using assms(2) by (simp add: sees_def split: phase.split)
  with own show ?thesis using assms unfolding locks_inv_def by simp
qed

lemma sees_active: "sees w p q \<Longrightarrow> active (w_phase w p)"
  by (auto simp: sees_def split: phase.splits)

context lock_env
begin

text \<open>Steps that leave the process with no lock.\<close>

lemma inv_inactive:
  assumes "locks_inv E LE files key w" "\<not> active ph"
    and "\<And>q x i. q \<noteq> p \<Longrightarrow> i \<in> own w q \<Longrightarrow> lock_at E LE files key (w_be w) x i \<Longrightarrow> lock_at E LE files key be' x i"
  shows "locks_inv E LE files key (set_lock p l (goto p ph (w\<lparr>w_be := be'\<rparr>)))"
proof (rule locks_inv_step [where p = p, OF assms(1)])
  fix q i assume "q \<noteq> p" "i \<in> own w q"
  then show "lock_at E LE files key (w_be (set_lock p l (goto p ph (w\<lparr>w_be := be'\<rparr>)))) (excl_of w q) i"
    using assms(1,3) by (auto simp: locks_inv_def)
qed (use assms(2) in \<open>auto simp: own_def\<close>)

text \<open>Steps within the protocol that change neither files nor the lock.\<close>

lemma inv_phase:
  assumes "locks_inv E LE files key w" "active (w_phase w p)" "active ph" "\<And>old. ph \<noteq> Refreshing old"
    and "\<And>old. w_phase w p \<noteq> Refreshing old"
    and "\<And>q. q \<noteq> p \<Longrightarrow> active (w_phase w q) \<Longrightarrow> excl_of w p \<or> excl_of w q \<Longrightarrow> sees w p q \<Longrightarrow> sees (goto p ph w) p q"
  shows "locks_inv E LE files key (goto p ph w)"
proof -
  have own: "own (goto p ph w) q = own w q" for q
    using assms(2-5) by (cases "q = p") (auto simp: own_def split: phase.splits)
  have sees: "sees (goto p ph w) q p = sees w q p" if "q \<noteq> p" for q using that by (simp add: sees_def own split: phase.split)
  show ?thesis
  proof (rule locks_inv_step [where p = p, OF assms(1)])
    fix q assume q: "q \<noteq> p" "active (w_phase w q)" "excl_of (goto p ph w) p \<or> excl_of w q"
    then have "sees w p q \<or> sees w q p" using assms(1,2) by (auto simp: locks_inv_def)
    then show "sees (goto p ph w) p q \<or> sees (goto p ph w) q p" using assms(6) [OF q(1,2)] q(3) sees [OF q(1)] by auto
  qed (use assms(1,2) own in \<open>auto simp: locks_inv_def\<close>)
qed

lemma inv_load2:
  assumes inv: "locks_inv E LE files key w" and ph: "w_phase w p = Check2 ids" and r: "r_be r = w_be w" "r_key r = key"
  shows "locks_inv E LE files key
    (goto p (if check_callback (l_file (w_lock w p)) (LoadLock E LE i r) = Ok () then Check2 (remove1 i ids) else Undo) w)"
    (is "locks_inv E LE files key (goto p ?ph w)")
proof (rule inv_phase [OF inv])
  fix q assume q: "q \<noteq> p" "excl_of w p \<or> excl_of w q" "sees w p q"
  have own: "own (goto p ph w) q = own w q" for ph using q(1) by (simp add: own_def)
  show "sees (goto p ?ph w) p q"
    using sees_remove [OF q(3) ph r inv _ q(2), of i] by (simp add: sees_def own)
qed (use ph in auto)

lemma inv_check2:
  assumes inv: "locks_inv E LE files key w" and ph: "w_phase w p = Wait" and l: "lst (w_be w) LockFile = (fis, eo)"
  shows "locks_inv E LE files key (goto p (if eo = None then Check2 (lock_ids fis (lockID (w_lock w p))) else Undo) w)"
    (is "locks_inv E LE files key (goto p ?ph w)")
proof (rule inv_phase [OF inv])
  fix q assume q: "q \<noteq> p" "active (w_phase w q)"
  have own: "own (goto p ?ph w) q = own w q" using q(1) by (simp add: own_def)
  obtain i where i: "lockID (w_lock w q) = Some i" "i \<in> own w q" using inv q(2) by (auto simp: locks_inv_def own_def)
  have "lock_at E LE files key (w_be w) (excl_of w q) i" using inv i(2) by (auto simp: locks_inv_def)
  moreover have "lockID (w_lock w p) \<noteq> Some i"
  proof
    assume "lockID (w_lock w p) = Some i"
    then have "i \<in> own w p" using ph by (simp add: own_def)
    then show False using inv q(1) i(2) unfolding locks_inv_def by blast
  qed
  ultimately have "eo = None \<longrightarrow> i \<in> set (lock_ids fis (lockID (w_lock w p)))" using listed l by auto
  then show "sees (goto p ?ph w) p q" using i(2) own by (auto simp: sees_def)
qed (use ph in auto)

text \<open>A new file, written at the start or by a refresh.\<close>

lemma inv_create:
  assumes inv: "locks_inv E LE files key w" and cr: "createLock E LE l r = (r', Ok i)" and r: "r_be r = w_be w" "r_key r = key" "key_ok key"
    and ph: "w_phase w p = Create \<and> ph = Wait \<or>
      w_phase w p = Held \<and> (\<exists>old. lockID (w_lock w p) = Some old \<and> ph = Refreshing old) \<and> l_Exclusive l = excl_of w p"
  shows "locks_inv E LE files key (set_lock p \<lparr>l_file = l, lockID = Some i\<rparr> (goto p ph (w\<lparr>w_be := r_be r'\<rparr>)))"
    (is "locks_inv E LE files key ?w")
proof (rule locks_inv_step [where p = p, OF inv])
  note c = createLock_Ok [OF cr r(2,3)] and mono = createLock_mono [OF cr]
  have old: "lock_at E LE files key (w_be ?w) (excl_of w q) j" if "j \<in> own w q" for q j
    using lock_at_mono [OF locks_invD(2) [OF inv that]] mono r(1) by simp
  have fresh: "i \<notin> own w q" for q
    using c(2) locks_invD(2) [OF inv, of i q] r(1) by (auto simp: lock_at_def)
  have own: "own ?w p = insert i (if w_phase w p = Held then own w p else {})"
    using ph by (auto simp: own_def)
  show "lock_at E LE files key (w_be ?w) (excl_of w q) j" if "j \<in> own w q" for q j by (rule old [OF that])
  show "lock_at E LE files key (w_be ?w) (excl_of ?w p) j" if "j \<in> own ?w p" for j
    using that c(1) old [of j p] ph unfolding own by (auto split: if_splits)
  show "own ?w p \<inter> own w q = {}" if "q \<noteq> p" for q
    using that fresh [of q] inv unfolding own locks_inv_def by (auto split: if_splits)
  fix q assume q: "q \<noteq> p" "active (w_phase w q)" "excl_of ?w p \<or> excl_of w q"
  show "sees ?w p q \<or> sees ?w q p"
  proof (cases "ph = Wait")
    case False
    then have h: "w_phase w p = Held" "l_Exclusive l = excl_of w p" using ph by auto
    then have "sees w p q \<or> sees w q p" using locks_invD(4) [OF inv, of p q] q by auto
    then have "sees w q p" using h(1) by (simp add: sees_def)
    then show ?thesis using q(1) own h(1) by (auto simp: sees_def split: phase.splits)
  qed (simp add: sees_def)
qed (auto)

end

context lock_env
begin

lemma inv_refreshed:
  assumes inv: "locks_inv E LE files key w" and ph: "w_phase w p = Refreshing old" and rm: "remove_lock LE old r = (r', res)" "r_be r = w_be w"
    and unseen: "\<forall>q ids. w_phase w q = Check2 ids \<longrightarrow> old \<notin> set ids"
    and ne: "lockID (w_lock w p) \<noteq> Some old"
  shows "locks_inv E LE files key (goto p Held (w\<lparr>w_be := r_be r'\<rparr>))" (is "locks_inv E LE files key ?w")
proof (rule locks_inv_step [where p = p, OF inv])
  have mine: "old \<in> own w p" "own ?w p = own w p - {old}" using ph ne by (auto simp: own_def)
  show "lock_at E LE files key (w_be ?w) (excl_of w q) i" if "q \<noteq> p" "i \<in> own w q" for q i
  proof -
    have "old \<noteq> i" using locks_invD(3) [OF inv, of p q old] that mine(1) by auto
    then show ?thesis using lock_at_remove [OF _ rm(1)] locks_invD(2) [OF inv that(2)] rm(2) by simp
  qed
  show "lock_at E LE files key (w_be ?w) (excl_of ?w p) i" if "i \<in> own ?w p" for i
    using that lock_at_remove [OF _ rm(1), of key "excl_of w p" i] locks_invD(2) [OF inv, of i p] rm(2) by (auto simp: mine(2))
  show "own ?w p \<inter> own w q = {}" if "q \<noteq> p" for q using locks_invD(3) [OF inv, of p q] that by (auto simp: mine(2))
  show "lockID (w_lock ?w p) \<noteq> None" using locks_invD(1) [OF inv, of p] ph by auto
  fix q assume q: "q \<noteq> p" "active (w_phase w q)" "excl_of ?w p \<or> excl_of w q"
  then have "sees w p q \<or> sees w q p" using locks_invD(4) [OF inv, of p q] ph by auto
  then have "sees w q p" using ph by (simp add: sees_def)
  then show "sees ?w p q \<or> sees ?w q p" using q(1) unseen mine(2) by (auto simp: sees_def split: phase.splits)
qed auto

end

text \<open>The new file of a refresh is not the old one, which is still there.\<close>

definition refreshing_inv :: "'b world \<Rightarrow> bool" where
  "refreshing_inv w \<longleftrightarrow> (\<forall>p old. w_phase w p = Refreshing old \<longrightarrow> lockID (w_lock w p) \<noteq> Some old)"

context lock_env
begin

lemma lock_step_inv:
  assumes "lock_step E LE lst files key False w w'" "locks_inv E LE files key w \<and> refreshing_inv w" "key_ok key"
  shows "locks_inv E LE files key w'"
proof -
  have inv: "locks_inv E LE files key w" and rinv: "refreshing_inv w" using assms(2) by auto
  have idle: "locks_inv E LE files key (goto p ph (w\<lparr>w_be := be'\<rparr>))"
    if "\<not> active ph" "\<And>q x i. q \<noteq> p \<Longrightarrow> i \<in> own w q \<Longrightarrow> lock_at E LE files key (w_be w) x i \<Longrightarrow> lock_at E LE files key be' x i" for p ph be'
  proof -
    have "locks_inv E LE files key (set_lock p (w_lock w p) (goto p ph (w\<lparr>w_be := be'\<rparr>)))"
      by (rule inv_inactive [OF inv that(1)]) (rule that(2))
    then show ?thesis by (simp add: set_lock_def goto_def)
  qed
  have idle1: "locks_inv E LE files key (goto p ph w)" if "\<not> active ph" for p ph
    using idle [OF that, of p "w_be w"] by simp
  from assms(1) show ?thesis
  proof cases
    case (start p now excl l fis eo)
    then show ?thesis using inv_inactive [OF inv, where ph = "w_phase w' p" and p = p and be' = "w_be w" and l = "\<lparr>l_file = l, lockID = None\<rparr>"] by simp
  next
    case (load1 p ids i r) then show ?thesis using idle1 by simp
  next
    case (checked1 p) then show ?thesis using idle1 by simp
  next
    case (create p r r' i)
    then show ?thesis using inv_create [OF inv create(5) create(3,4) assms(3), of p Wait] by (cases "w_lock w p") simp
  next
    case (create_error p r r' e)
    then show ?thesis using idle [of Over p "r_be r'"] createLock_mono [OF create_error(5)] lock_at_mono by simp
  next
    case (check2 p fis eo) then show ?thesis using inv_check2 [OF inv] by simp
  next
    case (load2 p ids i r) then show ?thesis using inv_load2 [OF inv load2(2,4,5)] by simp
  next
    case (checked2 p)
    then show ?thesis using inv_phase [OF inv, of p Held] by (simp add: sees_def)
  next
    case (unlock p r r' res)
    then have a: "active (w_phase w p)" by auto
    then obtain i where i: "lockID (w_lock w p) = Some i" "i \<in> own w p" using locks_invD(1) [OF inv a] by (auto simp: own_def)
    then have rm: "remove_lock LE i r = (r', res)" using unlock by (simp add: Unlock_def)
    have "i \<noteq> j" if "q \<noteq> p" "j \<in> own w q" for q j using locks_invD(3) [OF inv, of p q i] that i(2) by auto
    then show ?thesis using unlock idle [of Over p "r_be r'"] lock_at_remove [OF _ rm] by simp
  next
    case (refresh p r old now r' i)
    then show ?thesis using inv_create [OF inv refresh(6) refresh(3,4) assms(3), of p "Refreshing old"] by simp
  next
    case (refresh_error p r now r' e)
    then show ?thesis using createLock_mono [OF refresh_error(5)] lock_at_mono by (intro locks_inv_same [OF inv]) auto
  next
    case (refreshed p old r r' res)
    then show ?thesis using inv_refreshed [OF inv refreshed(2,4,3)] rinv by (auto simp: refreshing_inv_def)
  next
    case (die p) then show ?thesis using idle1 by simp
  next
    case (remove_stale i r r' res)
    then show ?thesis using lock_at_remove [OF _ remove_stale(4)] by (intro locks_inv_same [OF inv]) auto
  next
    case (other_files be')
    then show ?thesis by (intro locks_inv_same [OF inv]) (auto simp: lock_at_def)
  qed
qed

lemma lock_step_refreshing:
  assumes "lock_step E LE lst files key False w w'" "locks_inv E LE files key w \<and> refreshing_inv w" "key_ok key"
  shows "refreshing_inv w'"
  using assms(1)
proof cases
  case (refresh p r old now r' i)
  have "old \<in> own w p" using refresh by (simp add: own_def)
  then have "files (r_be r) (LockFile, ID_String old) \<noteq> None"
    using locks_invD(2) [of E LE files key w old p] assms(2) refresh(3) by (auto simp: lock_at_def)
  then have "i \<noteq> old" using createLock_Ok(2) [OF refresh(6,4) assms(3)] by auto
  then show ?thesis using refresh(1) assms(2) by (auto simp: refreshing_inv_def)
qed (use assms(2) in \<open>auto simp: refreshing_inv_def split: if_splits\<close>)

lemma lock_runs_inv:
  assumes "lock_runs E LE lst files key False w w'" "\<forall>p. w_phase w p = Idle" "key_ok key"
  shows "locks_inv E LE files key w' \<and> refreshing_inv w'"
  using assms(1)
proof induction
  case base
  then show ?case using assms(2) by (simp add: locks_inv_def refreshing_inv_def own_def)
next
  case (step w1 w2)
  then show ?case using lock_step_inv lock_step_refreshing assms(3) by blast
qed

lemma exclusive:
  assumes "lock_runs E LE lst files key False w w'" "\<forall>p. w_phase w p = Idle" "key_ok key"
    and "holds (w_phase w' p)" "holds (w_phase w' q)" "p \<noteq> q"
  shows "\<not> excl_of w' p"
proof
  assume "excl_of w' p"
  moreover have "active (w_phase w' p)" "active (w_phase w' q)" "\<not> sees w' p q" "\<not> sees w' q p"
    using assms(4,5) by (auto simp: holds_def sees_def split: phase.splits)
  ultimately show False using locks_invD(4) [OF conjunct1 [OF lock_runs_inv [OF assms(1-3)]], of p q] assms(6) by blast
qed

end

section \<open>The functions as runs of one process\<close>

text \<open>The check succeeds exactly if the callback accepts every listed lock.\<close>

lemma Repo_List_check:
  "Repo_List fis (lock_worker E LE ex (\<lambda>i x r. (r, check_callback l x))) r = (r', res) \<Longrightarrow>
    r' = r \<and> (res = Ok () \<longleftrightarrow> (\<forall>i \<in> set (lock_ids fis ex). check_callback l (LoadLock E LE i r) = Ok ()))"
proof (induction fis)
  case Nil
  then show ?case by (auto simp: lock_ids_def)
next
  case (Cons fi fis)
  show ?case
  proof (cases "ParseID (fi_Name fi)")
    case (Ok i)
    let ?res = "check_callback l (LoadLock E LE i r)"
    have w: "lock_worker E LE ex (\<lambda>i x r. (r, check_callback l x)) i n r = (r, if ex = Some i then Ok () else ?res)" for n
      by (auto simp: lock_worker_def check_callback_def split: res.split)
    have ids: "lock_ids (fi # fis) ex = (if ex = Some i then [] else [i]) @ lock_ids fis ex" using Ok by (simp add: lock_ids_def)
    show ?thesis
    proof (cases "ex = Some i \<or> ?res = Ok ()")
      case True
      then have "Repo_List fis (lock_worker E LE ex (\<lambda>i x r. (r, check_callback l x))) r = (r', res)"
        using Cons.prems Ok w by (auto simp: bind_st_def split: if_splits)
      from Cons.IH [OF this] True show ?thesis by (auto simp: ids)
    next
      case False
      then have "r' = r" "res \<noteq> Ok ()" using Cons.prems Ok w by (auto simp: bind_st_def split: if_splits res.splits)
      with False show ?thesis by (auto simp: ids)
    qed
  next
    case (Err e)
    then show ?thesis using Cons by (auto simp: lock_ids_def)
  next
    case (Panic m)
    then show ?thesis using ParseID_no_panic [of "fi_Name fi"] by simp
  qed
qed

lemma checkForOtherLocks_iff:
  assumes "checkForOtherLocks E LE lst l r = (r', res)" "lst (r_be r) LockFile = (fis, eo)"
  shows "r' = r" "res = Ok () \<longleftrightarrow> eo = None \<and> (\<forall>i \<in> set (lock_ids fis (lockID l)). check_callback (l_file l) (LoadLock E LE i r) = Ok ())"
proof -
  obtain r1 res1 where rl: "Repo_List fis (lock_worker E LE (lockID l) (\<lambda>i x r. (r, check_callback (l_file l) x))) r = (r1, res1)" by fastforce
  have *: "r' = r1 \<and> (res = Ok () \<longleftrightarrow> res1 = Ok () \<and> eo = None)"
    using assms rl by (cases res1) (auto simp: checkForOtherLocks_def ForAllLocks_def bind_st_def split: option.splits)
  show "r' = r" "res = Ok () \<longleftrightarrow> eo = None \<and> (\<forall>i \<in> set (lock_ids fis (lockID l)). check_callback (l_file l) (LoadLock E LE i r) = Ok ())"
    using * Repo_List_check [OF rl] by auto
qed

lemma goto_goto [simp]: "goto p b (goto p a w) = goto p b w" "goto q b (set_lock p l w) = set_lock p l (goto q b w)"
  by (simp_all add: goto_def set_lock_def)

text \<open>The loads of a check that succeeds, one after the other.\<close>

lemma check_runs:
  assumes "ck = Check1 \<or> ck = Check2" "r_be r = w_be w" "r_key r = key"
    "\<forall>i \<in> set ids. check_callback (l_file (w_lock w p)) (LoadLock E LE i r) = Ok ()" "w_phase w p = ck ids"
  shows "lock_runs E LE lst files key rf w (goto p (ck []) w)"
  using assms(2-)
proof (induction ids arbitrary: w)
  case Nil
  then have "goto p (ck []) w = w" by (cases w) (auto simp: goto_def)
  then show ?case by simp
next
  case (Cons i ids)
  have "lock_step E LE lst files key rf w (goto p (ck (remove1 i (i # ids))) w)"
    using assms(1) lock_step.load1 [of w p "i # ids" i r key E LE lst files rf] lock_step.load2 [of w p "i # ids" i r key E LE lst files rf] Cons.prems
    by auto
  moreover have "lock_runs E LE lst files key rf (goto p (ck ids) w) (goto p (ck []) (goto p (ck ids) w))"
    by (rule Cons.IH) (use Cons.prems in auto)
  ultimately show ?case by (simp add: converse_rtranclp_into_rtranclp)
qed

text \<open>A call of \<open>newLock\<close> that succeeds, with nobody else running, is a run of the process to the phase in which it holds the lock.\<close>

lemma createLock_key: "createLock E LE l r = (r', res) \<Longrightarrow> r_key r' = r_key r"
  by (auto simp: createLock_def SaveUnpacked_def bind_st_def tick_def Let_def split: res.splits prod.splits)

lemma newLock_Ok:
  assumes "newLock E LE lst now excl r = (r', Ok lock)"
  obtains l i where "init_lock LE now excl = Ok l" "checkForOtherLocks E LE lst \<lparr>l_file = l, lockID = None\<rparr> r = (r, Ok ())"
    "createLock E LE l r = (r', Ok i)" "lock = \<lparr>l_file = l, lockID = Some i\<rparr>" "checkForOtherLocks E LE lst lock r' = (r', Ok ())"
proof -
  have same: "checkForOtherLocks E LE lst l r1 = (r2, res) \<Longrightarrow> r2 = r1" for l r1 r2 res
    using checkForOtherLocks_iff(1) by (metis prod.exhaust)
  obtain l r1 where l: "init_lock LE now excl = Ok l" "checkForOtherLocks E LE lst \<lparr>l_file = l, lockID = None\<rparr> r = (r1, Ok ())"
    and rest: "bind_st (createLock E LE l r1) (\<lambda>r i.
       let lock = \<lparr>l_file = l, lockID = Some i\<rparr> in
       case checkForOtherLocks E LE lst lock r of
         (r, Ok _) \<Rightarrow> (r, Ok lock)
       | (r, Err e) \<Rightarrow> (fst (Unlock LE (Some lock) r), Err e)
       | (r, Panic m) \<Rightarrow> (r, Panic m)) = (r', Ok lock)"
    using assms by (auto simp: newLock_def res_simps)
  then obtain r2 i where c: "createLock E LE l r1 = (r2, Ok i)"
    and ck: "(case checkForOtherLocks E LE lst \<lparr>l_file = l, lockID = Some i\<rparr> r2 of
         (r, Ok _) \<Rightarrow> (r, Ok \<lparr>l_file = l, lockID = Some i\<rparr>)
       | (r, Err e) \<Rightarrow> (fst (Unlock LE (Some \<lparr>l_file = l, lockID = Some i\<rparr>) r), Err e)
       | (r, Panic m) \<Rightarrow> (r, Panic m)) = (r', Ok lock)"
    by (auto simp: res_simps Let_def)
  obtain r3 res where ck2: "checkForOtherLocks E LE lst \<lparr>l_file = l, lockID = Some i\<rparr> r2 = (r3, res)" by fastforce
  have "res = Ok ()" "r3 = r'" "lock = \<lparr>l_file = l, lockID = Some i\<rparr>" using ck ck2 by (cases res; simp)+
  then show ?thesis using that l c ck2 same [OF l(2)] same [OF ck2] by simp
qed

lemma init_lock_Exclusive: "init_lock LE now excl = Ok l \<Longrightarrow> l_Exclusive l = excl"
  by (auto simp: init_lock_def fillUserInfo_def Let_def split: option.splits prod.splits)

lemma newLock_runs:
  assumes run: "newLock E LE lst now excl r = (r', Ok lock)" and w: "w_phase w p = Idle" "w_be w = r_be r" "r_key r = key"
  shows "lock_runs E LE lst files key rf w (set_lock p lock (goto p Held (w\<lparr>w_be := r_be r'\<rparr>)))"
    "l_Exclusive (l_file lock) = excl" "r_key r' = key"
proof -
  let ?S = "lock_step E LE lst files key rf" and ?R = "lock_runs E LE lst files key rf"
  obtain l i where l: "init_lock LE now excl = Ok l" and c1: "checkForOtherLocks E LE lst \<lparr>l_file = l, lockID = None\<rparr> r = (r, Ok ())"
    and cr: "createLock E LE l r = (r', Ok i)" and lk: "lock = \<lparr>l_file = l, lockID = Some i\<rparr>"
    and c2: "checkForOtherLocks E LE lst lock r' = (r', Ok ())" by (rule newLock_Ok [OF run])
  show key: "r_key r' = key" using createLock_key [OF cr] w(3) by simp
  show "l_Exclusive (l_file lock) = excl" using init_lock_Exclusive [OF l] lk by simp
  obtain fis1 eo1 fis2 eo2 where f: "lst (r_be r) LockFile = (fis1, eo1)" "lst (r_be r') LockFile = (fis2, eo2)" by fastforce
  note k1 = checkForOtherLocks_iff(2) [OF c1 f(1)] and k2 = checkForOtherLocks_iff(2) [OF c2 f(2)]
  define w1 where "w1 = set_lock p \<lparr>l_file = l, lockID = None\<rparr> (goto p (Check1 (lock_ids fis1 None)) w)"
  define w2 where "w2 = set_lock p lock (goto p Wait (w1\<lparr>w_be := r_be r'\<rparr>))"
  have s1: "?S w w1" using lock_step.start [OF w(1) l, of lst fis1 eo1] f(1) k1 w(2) by (simp add: w1_def)
  have s2: "?R w1 (goto p (Check1 []) w1)"
    by (rule check_runs [where r = r]) (use k1 w in \<open>auto simp: w1_def\<close>)
  have s3: "?S (goto p (Check1 []) w1) (goto p Create w1)" using lock_step.checked1 [of "goto p (Check1 []) w1" p] by simp
  have s4: "?S (goto p Create w1) w2"
    using lock_step.create [of "goto p Create w1" p r key E LE r' i] cr w lk by (simp add: w1_def w2_def set_lock_def goto_def)
  have s5: "?S w2 (goto p (Check2 (lock_ids fis2 (Some i))) w2)"
    using lock_step.check2 [of w2 p lst fis2 eo2] f(2) k2 lk by (simp add: w2_def)
  have "?R (goto p (Check2 (lock_ids fis2 (Some i))) w2) (goto p (Check2 []) (goto p (Check2 (lock_ids fis2 (Some i))) w2))"
    by (rule check_runs [where r = r']) (use k2 key lk in \<open>auto simp: w2_def\<close>)
  then have s6: "?R (goto p (Check2 (lock_ids fis2 (Some i))) w2) (goto p (Check2 []) w2)" by simp
  have s7: "?S (goto p (Check2 []) w2) (goto p Held w2)" using lock_step.checked2 [of "goto p (Check2 []) w2" p] by simp
  have "?R w (goto p Create w1)" using s1 s2 s3 by (meson converse_rtranclp_into_rtranclp rtranclp.rtrancl_into_rtrancl)
  moreover have "?R (goto p Create w1) (goto p Held w2)"
    using s4 s5 s6 s7 by (meson converse_rtranclp_into_rtranclp rtranclp.rtrancl_into_rtrancl)
  moreover have "goto p Held w2 = set_lock p lock (goto p Held (w\<lparr>w_be := r_be r'\<rparr>))"
    by (simp add: w2_def w1_def set_lock_def goto_def)
  ultimately show "?R w (set_lock p lock (goto p Held (w\<lparr>w_be := r_be r'\<rparr>)))" by (metis rtranclp_trans)
qed

section \<open>Locks in the memory backend\<close>

definition enc_lock :: "lockFile \<Rightarrow> bytes" where
  "enc_lock l =
     enc_int (l_Time l) @ enc_nat (if l_Exclusive l then 1 else 0) @ enc_string (l_Hostname l) @ enc_string (l_Username l) @
     enc_int (l_PID l) @ enc_nat (unat (l_UID l)) @ enc_nat (unat (l_GID l))"

definition dec_lock :: "bytes \<Rightarrow> lockFile res" where
  "dec_lock b =
     (case dec_int b of (t, b1) \<Rightarrow> case dec_nat b1 of (x, b2) \<Rightarrow> case dec_string b2 of (hn, b3) \<Rightarrow> case dec_string b3 of (un, b4) \<Rightarrow>
      case dec_int b4 of (pid, b5) \<Rightarrow> case dec_nat b5 of (uid, b6) \<Rightarrow> case dec_nat b6 of (gid, b7) \<Rightarrow>
        Ok \<lparr>l_Time = t, l_Exclusive = (x = 1), l_Hostname = hn, l_Username = un, l_PID = pid, l_UID = of_nat uid, l_GID = of_nat gid\<rparr>)"

lemma dec_enc_lock: "dec_lock (enc_lock l) = Ok l"
  using dec_enc_nat [of "unat (l_GID l)" "[]"] by (cases l) (simp add: dec_lock_def enc_lock_def)

definition mem_lockenv :: "int \<Rightarrow> memMap lockenv" where
  "mem_lockenv pid =
     \<lparr>le_marshal = enc_lock, le_unmarshal = dec_lock, le_Remove = mem_Remove None, le_Hostname = Some [], le_Getpid = pid,
      le_user = None, le_FindProcess = (\<lambda>p. None), le_Signal = (\<lambda>p. None)\<rparr>"

lemma mem_Remove_lock:
  assumes "mem_Remove c b (lock_handle i) = (b', eo)" "n \<noteq> ID_String i"
  shows "mem_files b' (LockFile, n) = mem_files b (LockFile, n)"
proof -
  have "map_of (filter (\<lambda>e. fst e \<noteq> k) b) k' = map_of b k'" if "k' \<noteq> k" for k k' using that by (induction b) auto
  then show ?thesis using assms by (auto simp: mem_Remove_def lock_handle_def mem_files_def Let_def split: if_splits)
qed

lemma mem_lists_lock: "mem_lister b LockFile = (fis, None) \<Longrightarrow> mem_files b (LockFile, n) \<noteq> None \<Longrightarrow> n \<in> fi_Name ` set fis"
  by (force simp: mem_lister_def mem_entries_def mem_files_def dest: map_of_SomeD)

interpretation mem_locks: lock_env "mem_env toy_prims md5 rnd fault" mem_files "mem_lockenv pid" mem_lister for md5 rnd fault pid
proof
  show "le_unmarshal (mem_lockenv pid) (le_marshal (mem_lockenv pid) l) = Ok l" for l by (simp add: mem_lockenv_def dec_enc_lock)
  show "le_Remove (mem_lockenv pid) b (lock_handle i) = (b', eo) \<Longrightarrow> n \<noteq> ID_String i \<Longrightarrow> mem_files b' (LockFile, n) = mem_files b (LockFile, n)" for b i b' eo n
    using mem_Remove_lock by (simp add: mem_lockenv_def)
qed (rule mem_lists_lock)

definition toy_world :: "memMap world" where
  "toy_world = \<lparr>w_be = mem_New, w_lock = (\<lambda>_. \<lparr>l_file = \<lparr>l_Time = 0, l_Exclusive = False, l_Hostname = [], l_Username = [], l_PID = 0, l_UID = 0, l_GID = 0\<rparr>, lockID = None\<rparr>), w_phase = (\<lambda>_. Idle)\<rparr>"

abbreviation lockE :: "memMap env" where "lockE \<equiv> toy_env no_fault"
abbreviation lockL :: "memMap lockenv" where "lockL \<equiv> mem_lockenv 1"

definition shared1 :: "memMap Repository \<times> Lock res" where
  "shared1 = NewLock lockE lockL mem_lister 0 (New lockE mem_New toy_key)"

definition shared2 :: "memMap Repository \<times> Lock res" where
  "shared2 = NewLock lockE lockL mem_lister 0 (fst shared1)"

lemma shared_ok: "is_ok (snd shared1)" "is_ok (snd shared2)"
  by code_simp+

definition excl1 :: "memMap Repository \<times> Lock res" where
  "excl1 = NewExclusiveLock lockE lockL mem_lister 0 (New lockE mem_New toy_key)"

definition excl_lock :: lockFile where
  "excl_lock = \<lparr>l_Time = 0, l_Exclusive = True, l_Hostname = [], l_Username = [], l_PID = 1, l_UID = 0, l_GID = 0\<rparr>"

definition excl2 :: "memMap Repository \<times> ID res" where
  "excl2 = createLock lockE lockL excl_lock (fst excl1)"

definition excl3 :: "memMap Repository \<times> ID res" where
  "excl3 = createLock lockE lockL (excl_lock\<lparr>l_Time := 1\<rparr>) (fst excl2)"

definition lock_p :: ID where "lock_p = (case snd excl1 of Ok l \<Rightarrow> (case lockID l of Some i \<Rightarrow> i | None \<Rightarrow> []) | _ \<Rightarrow> [])"
definition lock_q :: ID where "lock_q = (case snd excl2 of Ok i \<Rightarrow> i | _ \<Rightarrow> [])"
definition lock_p' :: ID where "lock_p' = (case snd excl3 of Ok i \<Rightarrow> i | _ \<Rightarrow> [])"

definition excl4 :: "memMap Repository \<times> unit res" where
  "excl4 = remove_lock lockL lock_p (fst excl3)"

lemma excl_ok: "snd excl1 = Ok \<lparr>l_file = excl_lock, lockID = Some lock_p\<rparr>" "snd excl2 = Ok lock_q" "snd excl3 = Ok lock_p'"
  by code_simp+

lemma excl_missed:
  "lock_ids (fst (mem_lister (r_be (fst excl2)) LockFile)) (Some lock_q) = [lock_p]"
  "\<not> is_ok (LoadLock lockE lockL lock_p (fst excl4)) \<and> \<not> is_panic (LoadLock lockE lockL lock_p (fst excl4))"
  by code_simp+

text \<open>The refresh while another process checks: that process lists the old file, which is gone when it loads it.\<close>

lemma refresh_race:
  assumes w: "w_phase w 0 = Idle" "w_phase w 1 = Idle" "w_be w = r_be r0" "r_key r0 = key"
    and ls: "lst (r_be r0) LockFile = ([], None)" and l: "init_lock LE 0 True = Ok l"
    and n: "newLock E LE lst 0 True r0 = (r1, Ok \<lparr>l_file = l, lockID = Some p\<rparr>)" and c: "createLock E LE l r1 = (r2, Ok q)"
    and ls2: "lst (r_be r2) LockFile = (fis, None)" "lock_ids fis (Some q) = [p]"
    and f: "createLock E LE (l\<lparr>l_Time := 1\<rparr>) r2 = (r3, Ok p')" "remove_lock LE p r3 = (r4, res)" "LoadLock E LE p r4 = Err e"
  shows "\<exists>w'. lock_runs E LE lst files key True w w' \<and> w_phase w' 0 = Held \<and> w_phase w' 1 = Held \<and> excl_of w' 0 \<and> excl_of w' 1"
proof -
  let ?S = "lock_step E LE lst files key True" and ?R = "lock_runs E LE lst files key True"
  let ?l = "\<lambda>i. \<lparr>l_file = l, lockID = i\<rparr>"
  have k1: "r_key r1 = key" by (rule newLock_runs(3) [OF n w(1,3,4)])
  have key: "r_key r1 = key" "r_key r2 = key" "r_key r3 = key" "r_key r4 = key"
    using k1 createLock_key [OF c] createLock_key [OF f(1)] f(2) by (auto simp: remove_lock_def split: prod.splits)
  define w1 where "w1 = set_lock 1 (?l None) (goto 1 Create w)"
  define w2 where "w2 = set_lock 0 (?l (Some p)) (goto 0 Held (w1\<lparr>w_be := r_be r1\<rparr>))"
  define w3 where "w3 = set_lock 1 (?l (Some q)) (goto 1 Wait (w2\<lparr>w_be := r_be r2\<rparr>))"
  define w4 where "w4 = goto 1 (Check2 [p]) w3"
  define w5 where "w5 = set_lock 0 \<lparr>l_file = l\<lparr>l_Time := 1\<rparr>, lockID = Some p'\<rparr> (goto 0 (Refreshing p) (w4\<lparr>w_be := r_be r3\<rparr>))"
  define w6 where "w6 = goto 0 Held (w5\<lparr>w_be := r_be r4\<rparr>)"
  have be: "w_be w1 = r_be r0" "w_be w2 = r_be r1" "w_be w3 = r_be r2" "w_be w4 = r_be r2" "w_be w5 = r_be r3" "w_be w6 = r_be r4"
    by (simp_all add: w1_def w2_def w3_def w4_def w5_def w6_def w(3))
  have ph: "w_phase w1 1 = Create" "w_phase w1 0 = Idle" "w_phase w2 1 = Create" "w_phase w3 1 = Wait" "w_phase w4 0 = Held"
      "w_phase w5 0 = Refreshing p" "w_phase w6 1 = Check2 [p]" "w_phase w6 0 = Held"
    and lk: "w_lock w2 1 = ?l None" "w_lock w3 1 = ?l (Some q)" "w_lock w4 0 = ?l (Some p)" "w_lock w6 1 = ?l (Some q)"
      "w_lock w6 0 = \<lparr>l_file = l\<lparr>l_Time := 1\<rparr>, lockID = Some p'\<rparr>"
    by (simp_all add: w1_def w2_def w3_def w4_def w5_def w6_def w(1))
  have s1: "?S w (set_lock 1 (?l None) (goto 1 (Check1 []) w))"
    using lock_step.start [OF w(2) l, of lst "[]" None] ls w(3) by (simp add: lock_ids_def)
  have s2: "?S (set_lock 1 (?l None) (goto 1 (Check1 []) w)) w1"
    using lock_step.checked1 [of "set_lock 1 (?l None) (goto 1 (Check1 []) w)" 1] by (simp add: w1_def)
  have s3: "?R w1 w2" unfolding w2_def by (rule newLock_runs(1) [OF n ph(2) be(1) w(4)])
  have s4: "?S w2 w3"
    using lock_step.create [OF ph(3) be(2) [symmetric] key(1), unfolded lk, of E LE r2 q lst files True] c by (simp add: w3_def)
  have s5: "?S w3 w4" using lock_step.check2 [OF ph(4), unfolded be lk, of lst fis None] ls2 by (simp add: w4_def)
  have s6: "?S w4 w5"
    using lock_step.refresh [OF ph(5) be(4) [symmetric] key(2), unfolded lk, of p E LE 1 r3 p' lst files True] f(1) by (simp add: w5_def)
  have s7: "?S w5 w6" unfolding w6_def by (rule lock_step.refreshed [OF ph(6) be(5) [symmetric] f(2)]) simp
  have s8: "?S w6 (goto 1 (Check2 []) w6)"
    using lock_step.load2 [OF ph(7) _ be(6) [symmetric] key(4), unfolded lk, of p E LE lst files True] f(3) by (simp add: check_callback_def)
  have s9: "?S (goto 1 (Check2 []) w6) (goto 1 Held w6)" using lock_step.checked2 [of "goto 1 (Check2 []) w6" 1] by simp
  note into = rtranclp.rtrancl_into_rtrancl [where r = ?S]
  have "?R w w1" by (rule into [OF r_into_rtranclp [where r = ?S, OF s1] s2])
  from rtranclp_trans [OF this s3] have "?R w (goto 1 Held w6)"
    by (rule into [OF into [OF into [OF into [OF into [OF into [OF _ s4] s5] s6] s7] s8] s9])
  moreover have "l_Exclusive l" using init_lock_Exclusive [OF l] by simp
  ultimately show ?thesis using ph(8) lk(4,5) by (intro exI [of _ "goto 1 Held w6"]) simp
qed

section \<open>Properties\<close>



text \<open>C7: \<open>Refresh\<close> breaks mutual exclusion: two processes hold an exclusive lock at the same time after a run in which one
  refreshes its lock between the listing and the loading of the other's check, which ignores the lock that it can no longer load.\<close>

theorem refresh_breaks_exclusion:
  "\<exists>w. lock_runs (toy_env no_fault) (mem_lockenv 1) mem_lister mem_files toy_key True toy_world w \<and>
     holds (w_phase w 0) \<and> holds (w_phase w 1) \<and> l_Exclusive (l_file (w_lock w 0)) \<and> l_Exclusive (l_file (w_lock w 1))"
proof -
  have init: "init_lock (mem_lockenv 1) 0 True = Ok excl_lock" by code_simp
  have n: "newLock lockE lockL mem_lister 0 True (New lockE mem_New toy_key) = (fst excl1, Ok \<lparr>l_file = excl_lock, lockID = Some lock_p\<rparr>)"
    and c: "createLock lockE lockL excl_lock (fst excl1) = (fst excl2, Ok lock_q)"
    and f: "createLock lockE lockL (excl_lock\<lparr>l_Time := 1\<rparr>) (fst excl2) = (fst excl3, Ok lock_p')"
      "remove_lock lockL lock_p (fst excl3) = (fst excl4, snd excl4)"
    using excl_ok by (metis excl1_def NewExclusiveLock_def prod.collapse, metis excl2_def prod.collapse, metis excl3_def prod.collapse,
      metis excl4_def prod.collapse)
  obtain e where e: "LoadLock lockE lockL lock_p (fst excl4) = Err e"
    using excl_missed(2) by (cases "LoadLock lockE lockL lock_p (fst excl4)") auto
  have ls: "mem_lister (r_be (New lockE mem_New toy_key)) LockFile = ([], None)"
    "mem_lister (r_be (fst excl2)) LockFile = (fst (mem_lister (r_be (fst excl2)) LockFile), None)"
    by (simp_all add: mem_lister_def New_def mem_New_def mem_entries_def)
  have w: "w_phase toy_world 0 = Idle" "w_phase toy_world 1 = Idle" "w_be toy_world = r_be (New lockE mem_New toy_key)"
    "r_key (New lockE mem_New toy_key) = toy_key" by (simp_all add: toy_world_def New_def)
  show ?thesis using refresh_race [OF w ls(1) init n c ls(2) excl_missed(1) f e, of mem_files] by (auto simp: holds_def)
qed

end
