(* ===== verification/BlobLRU.thy ===== *)
theory BlobLRU
  imports Ids
begin

text \<open>
  The cache of blob contents, \<open>internal/bloblru/cache.go\<close>: a bound on bytes around the least-recently-used list of
  \<open>github.com/hashicorp/golang-lru/simplelru\<close>.

  The library is the parameter \<open>lru_ops\<close>, with its documented behaviour as the law \<open>lru_law\<close> over the entries in the order of their use.
  The library calls \<open>evict\<close> for an entry that \<open>RemoveOldest\<close> or \<open>Add\<close> drops; \<open>RemoveOldest\<close> and \<open>Add\<close> return that entry here. A buffer
  is its bytes with its capacity.
\<close>

section \<open>The library\<close>

record buffer =
  b_bytes :: bytes
  b_cap :: nat

record 'l lru_ops =
  lru_New :: "int \<Rightarrow> 'l res"
  lru_Contains :: "'l \<Rightarrow> ID \<Rightarrow> bool"
  lru_Get :: "'l \<Rightarrow> ID \<Rightarrow> 'l \<times> buffer option"
  lru_Add :: "'l \<Rightarrow> ID \<Rightarrow> buffer \<Rightarrow> 'l \<times> (ID \<times> buffer) option"
  lru_RemoveOldest :: "'l \<Rightarrow> 'l \<times> (ID \<times> buffer) option"

text \<open>The entries, the oldest first, and the number of entries that fit.\<close>

definition lru_law :: "'l lru_ops \<Rightarrow> ('l \<Rightarrow> (ID \<times> buffer) list) \<Rightarrow> ('l \<Rightarrow> nat) \<Rightarrow> bool" where
  "lru_law L ents room \<longleftrightarrow>
     (\<forall>n. if n \<le> 0 then \<exists>e. lru_New L n = Err e else \<exists>l. lru_New L n = Ok l \<and> ents l = [] \<and> room l = nat n) \<and>
     (\<forall>l k. lru_Contains L l k \<longleftrightarrow> k \<in> fst ` set (ents l)) \<and>
     (\<forall>l k l' v. lru_Get L l k = (l', v) \<longrightarrow> v = map_of (ents l) k \<and> room l' = room l \<and>
        (distinct (map fst (ents l)) \<longrightarrow> mset (ents l') = mset (ents l))) \<and>
     (\<forall>l k v l' ev. lru_Add L l k v = (l', ev) \<longrightarrow> k \<notin> fst ` set (ents l) \<longrightarrow> room l' = room l \<and>
        (if length (ents l) < room l then ev = None \<and> ents l' = ents l @ [(k, v)]
         else ev = Some (hd (ents l)) \<and> ents l' = tl (ents l) @ [(k, v)])) \<and>
     (\<forall>l l' ev. lru_RemoveOldest L l = (l', ev) \<longrightarrow> room l' = room l \<and>
        (case ents l of [] \<Rightarrow> ev = None \<and> ents l' = [] | e # es \<Rightarrow> ev = Some e \<and> ents l' = es))"

section \<open>The cache\<close>

record 'l Cache =
  c_lru :: 'l
  c_free :: int
  c_size :: int

definition overhead :: int where
  "overhead = 32 + 64"

definition evict :: "buffer \<Rightarrow> 'l Cache \<Rightarrow> 'l Cache" where
  "evict blob c = c\<lparr>c_free := c_free c + int (b_cap blob) + overhead\<rparr>"

text \<open>The division truncates; a size below zero leaves no entries either way.\<close>

definition Cache_New :: "'l lru_ops \<Rightarrow> int \<Rightarrow> 'l Cache res" where
  "Cache_New L sz =
     (case lru_New L (if sz < 0 then - ((- sz) div overhead) else sz div overhead) of
        Ok lru \<Rightarrow> Ok \<lparr>c_lru = lru, c_free = sz, c_size = sz\<rparr>
      | Err e \<Rightarrow> Panic ''NewLRU''
      | Panic m \<Rightarrow> Panic m)"

text \<open>The loop of \<open>Add\<close>, which might not end; without an entry the assertion of the type of a nil value panics.\<close>

partial_function (option) make_room :: "'l lru_ops \<Rightarrow> int \<Rightarrow> 'l Cache \<Rightarrow> buffer option \<Rightarrow> ('l Cache \<times> buffer option) res option" where
  "make_room L sz c old =
     (if sz > c_free c then
        (case lru_RemoveOldest L (c_lru c) of
           (lru, None) \<Rightarrow> Some (Panic ''interface conversion'')
         | (lru, Some (key, b)) \<Rightarrow>
             make_room L sz (evict b (c\<lparr>c_lru := lru\<rparr>))
               (if b_cap b > (case old of None \<Rightarrow> 0 | Some o' \<Rightarrow> b_cap o') then Some b else old))
      else Some (Ok (c, old)))"

definition Cache_Add :: "'l lru_ops \<Rightarrow> ID \<Rightarrow> buffer \<Rightarrow> 'l Cache \<Rightarrow> ('l Cache \<times> buffer option) res option" where
  "Cache_Add L i blob c =
     (let sz = int (b_cap blob) + overhead in
      if sz > c_size c then Some (Ok (c, None))
      else if lru_Contains L (c_lru c) i then Some (Ok (c, None))
      else
        (case make_room L sz c None of
           Some (Ok (c1, old)) \<Rightarrow>
             (case lru_Add L (c_lru c1) i blob of (lru, ev) \<Rightarrow>
                (let c2 = (case ev of None \<Rightarrow> c1 | Some (_, b) \<Rightarrow> evict b c1)\<lparr>c_lru := lru\<rparr> in
                 Some (Ok (c2\<lparr>c_free := c_free c2 - sz\<rparr>, old))))
         | res \<Rightarrow> res))"

definition Cache_Get :: "'l lru_ops \<Rightarrow> ID \<Rightarrow> 'l Cache \<Rightarrow> 'l Cache \<times> buffer option" where
  "Cache_Get L i c = (case lru_Get L (c_lru c) i of (lru, v) \<Rightarrow> (c\<lparr>c_lru := lru\<rparr>, v))"

section \<open>Invariant\<close>

definition weight :: "(ID \<times> buffer) list \<Rightarrow> int" where
  "weight es = (\<Sum>e\<leftarrow>es. int (b_cap (snd e)) + overhead)"

definition cache_inv :: "('l \<Rightarrow> (ID \<times> buffer) list) \<Rightarrow> ('l \<Rightarrow> nat) \<Rightarrow> 'l Cache \<Rightarrow> bool" where
  "cache_inv ents room c \<longleftrightarrow>
     distinct (map fst (ents (c_lru c))) \<and> c_free c + weight (ents (c_lru c)) = c_size c \<and> 0 \<le> c_free c \<and>
     0 < c_size c \<and> int (room (c_lru c)) = c_size c div overhead"

lemma weight_simps [simp]:
  "weight [] = 0" "weight (e # es) = int (b_cap (snd e)) + overhead + weight es" "weight (es @ fs) = weight es + weight fs"
  by (simp_all add: weight_def)

lemma weight_ge: "overhead * int (length es) \<le> weight es"
  by (induction es) (auto simp: overhead_def)

lemma weight_mset: "mset es = mset fs \<Longrightarrow> weight es = weight fs"
proof -
  have "weight es = sum_mset (image_mset (\<lambda>e. int (b_cap (snd e)) + overhead) (mset es))" for es by (induction es) auto
  then show "mset es = mset fs \<Longrightarrow> weight es = weight fs" by simp
qed

lemma lru_lawD:
  assumes "lru_law L ents room"
  shows "n \<le> 0 \<Longrightarrow> \<exists>e. lru_New L n = Err e"
    and "0 < n \<Longrightarrow> \<exists>l. lru_New L n = Ok l \<and> ents l = [] \<and> room l = nat n"
    and "lru_Contains L l k \<longleftrightarrow> k \<in> fst ` set (ents l)"
    and "lru_Get L l k = (l', v) \<Longrightarrow> v = map_of (ents l) k \<and> room l' = room l"
    and "lru_Get L l k = (l', v) \<Longrightarrow> distinct (map fst (ents l)) \<Longrightarrow> mset (ents l') = mset (ents l)"
    and "lru_Add L l k w = (l', ev) \<Longrightarrow> k \<notin> fst ` set (ents l) \<Longrightarrow> length (ents l) < room l \<Longrightarrow>
      room l' = room l \<and> ev = None \<and> ents l' = ents l @ [(k, w)]"
    and "lru_RemoveOldest L l = (l', ev) \<Longrightarrow> ents l = e # es \<Longrightarrow> room l' = room l \<and> ev = Some e \<and> ents l' = es"
proof -
  note law = assms [unfolded lru_law_def]
  note n = law [THEN conjunct1, rule_format, of n]
  show "n \<le> 0 \<Longrightarrow> \<exists>e. lru_New L n = Err e" "0 < n \<Longrightarrow> \<exists>l. lru_New L n = Ok l \<and> ents l = [] \<and> room l = nat n"
    using n by auto
  show "lru_Contains L l k \<longleftrightarrow> k \<in> fst ` set (ents l)" using law by blast
  show "lru_Get L l k = (l', v) \<Longrightarrow> v = map_of (ents l) k \<and> room l' = room l"
    "lru_Get L l k = (l', v) \<Longrightarrow> distinct (map fst (ents l)) \<Longrightarrow> mset (ents l') = mset (ents l)" using law by blast+
  note a = law [THEN conjunct2, THEN conjunct2, THEN conjunct2, THEN conjunct1, rule_format, of l k w l' ev]
  show "lru_Add L l k w = (l', ev) \<Longrightarrow> k \<notin> fst ` set (ents l) \<Longrightarrow> length (ents l) < room l \<Longrightarrow>
      room l' = room l \<and> ev = None \<and> ents l' = ents l @ [(k, w)]" using a by simp
  note r = law [THEN conjunct2, THEN conjunct2, THEN conjunct2, THEN conjunct2, rule_format, of l l' ev]
  show "lru_RemoveOldest L l = (l', ev) \<Longrightarrow> ents l = e # es \<Longrightarrow> room l' = room l \<and> ev = Some e \<and> ents l' = es"
    using r by simp
qed

text \<open>The loop ends with enough room, and drops the oldest entries.\<close>

lemma make_room_ok:
  assumes law: "lru_law L ents room"
  shows "cache_inv ents room c \<Longrightarrow> sz \<le> c_size c \<Longrightarrow>
    \<exists>c' old' n. make_room L sz c old = Some (Ok (c', old')) \<and> cache_inv ents room c' \<and> c_size c' = c_size c \<and> sz \<le> c_free c' \<and>
      ents (c_lru c') = drop n (ents (c_lru c))"
proof (induction "ents (c_lru c)" arbitrary: c old)
  case Nil
  then have "sz \<le> c_free c" by (simp add: cache_inv_def flip: Nil.hyps)
  then have "make_room L sz c old = Some (Ok (c, old))" by (subst make_room.simps) simp
  then show ?case using Nil \<open>sz \<le> c_free c\<close> by (intro exI [of _ c] exI [of _ old] exI [of _ 0]) simp
next
  case (Cons e es)
  show ?case
  proof (cases "sz \<le> c_free c")
    case True
    then have "make_room L sz c old = Some (Ok (c, old))" by (subst make_room.simps) simp
    then show ?thesis using Cons.prems True by (intro exI [of _ c] exI [of _ old] exI [of _ 0]) simp
  next
    case False
    obtain l' ev where rm: "lru_RemoveOldest L (c_lru c) = (l', ev)" by fastforce
    note R = lru_lawD(7) [OF law rm Cons.hyps(2) [symmetric]]
    obtain k b where e: "e = (k, b)" by (cases e)
    define c1 where "c1 = evict b (c\<lparr>c_lru := l'\<rparr>)"
    define o1 where "o1 = (if b_cap b > (case old of None \<Rightarrow> 0 | Some o' \<Rightarrow> b_cap o') then Some b else old)"
    have step: "make_room L sz c old = make_room L sz c1 o1"
      using False rm R by (subst make_room.simps) (simp add: e c1_def o1_def)
    have es: "es = ents (c_lru c1)" using R by (simp add: c1_def evict_def)
    have inv1: "cache_inv ents room c1" "sz \<le> c_size c1" "c_size c1 = c_size c"
      using Cons.prems R Cons.hyps(2) [symmetric] by (simp_all add: cache_inv_def c1_def evict_def e overhead_def)
    obtain c' old' n where "make_room L sz c1 o1 = Some (Ok (c', old'))" "cache_inv ents room c'" "c_size c' = c_size c1"
      "sz \<le> c_free c'" "ents (c_lru c') = drop n (ents (c_lru c1))"
      using Cons.hyps(1) [OF es inv1(1,2), of o1] by blast
    then show ?thesis using step inv1(3) es Cons.hyps(2) [symmetric]
      by (intro exI [of _ c'] exI [of _ old'] exI [of _ "Suc n"]) simp
  qed
qed

text \<open>\<open>Add\<close> never fails, and never makes the library drop an entry for the number of entries.\<close>

lemma Cache_Add_ok:
  assumes law: "lru_law L ents room" and inv: "cache_inv ents room c"
  shows "\<exists>c' old. Cache_Add L i blob c = Some (Ok (c', old)) \<and> cache_inv ents room c' \<and> c_size c' = c_size c \<and>
    (if int (b_cap blob) + overhead > c_size c \<or> i \<in> fst ` set (ents (c_lru c)) then c' = c
     else \<exists>n. ents (c_lru c') = drop n (ents (c_lru c)) @ [(i, blob)])"
proof -
  let ?sz = "int (b_cap blob) + overhead"
  show ?thesis
  proof (cases "?sz > c_size c \<or> i \<in> fst ` set (ents (c_lru c))")
    case True
    then show ?thesis using inv lru_lawD(3) [OF law] by (auto simp: Cache_Add_def Let_def)
  next
    case False
    then have le: "?sz \<le> c_size c" by simp
    obtain c1 old n where m: "make_room L ?sz c None = Some (Ok (c1, old))" "cache_inv ents room c1" "c_size c1 = c_size c"
      "?sz \<le> c_free c1" "ents (c_lru c1) = drop n (ents (c_lru c))" using make_room_ok [OF law inv le] by blast
    obtain l' ev where a: "lru_Add L (c_lru c1) i blob = (l', ev)" by fastforce
    have fresh: "i \<notin> fst ` set (ents (c_lru c1))" using False m(5) by (auto dest: in_set_dropD)
    have "overhead * (int (length (ents (c_lru c1))) + 1) \<le> c_size c1"
      using weight_ge [of "ents (c_lru c1)"] m(2,4) by (simp add: cache_inv_def algebra_simps)
    then have "int (length (ents (c_lru c1))) + 1 \<le> c_size c1 div overhead"
      by (simp add: overhead_def)
    then have "length (ents (c_lru c1)) < room (c_lru c1)" using m(2) by (simp add: cache_inv_def)
    note A = lru_lawD(6) [OF law a fresh this]
    have run: "Cache_Add L i blob c = Some (Ok (c1\<lparr>c_lru := l', c_free := c_free c1 - ?sz\<rparr>, old))"
      using False m(1) a A lru_lawD(3) [OF law] by (simp add: Cache_Add_def Let_def)
    moreover have "cache_inv ents room (c1\<lparr>c_lru := l', c_free := c_free c1 - ?sz\<rparr>)"
      using m(2,4) A fresh by (simp add: cache_inv_def)
    ultimately show ?thesis using False A m(3,5) by (intro exI [of _ "c1\<lparr>c_lru := l', c_free := c_free c1 - ?sz\<rparr>"]) auto
  qed
qed

lemma Cache_Get_ok:
  assumes law: "lru_law L ents room" and inv: "cache_inv ents room c" and get: "Cache_Get L i c = (c', v)"
  shows "v = map_of (ents (c_lru c)) i" "cache_inv ents room c'" "c_size c' = c_size c" "set (ents (c_lru c')) = set (ents (c_lru c))"
proof -
  obtain l' where g: "lru_Get L (c_lru c) i = (l', v)" "c' = c\<lparr>c_lru := l'\<rparr>"
    using get by (auto simp: Cache_Get_def split: prod.splits)
  have d: "distinct (map fst (ents (c_lru c)))" using inv by (simp add: cache_inv_def)
  note m = lru_lawD(5) [OF law g(1) d]
  show "v = map_of (ents (c_lru c)) i" using lru_lawD(4) [OF law g(1)] by simp
  show "c_size c' = c_size c" by (simp add: g(2))
  have "set (ents l') = set (ents (c_lru c))" by (rule mset_eq_setD [OF m])
  then show "set (ents (c_lru c')) = set (ents (c_lru c))" by (simp add: g(2))
  have "mset (map fst (ents l')) = mset (map fst (ents (c_lru c)))" unfolding mset_map m by (rule refl)
  from mset_eq_imp_distinct_iff [OF this] have "distinct (map fst (ents l'))" using d by (rule iffD2)
  then show "cache_inv ents room c'" using inv lru_lawD(4) [OF law g(1)] weight_mset [OF m] by (simp add: cache_inv_def g(2))
qed

text \<open>Any sequence of calls.\<close>

datatype cache_op = OpAdd ID buffer | OpGet ID

primrec cache_run :: "'l lru_ops \<Rightarrow> cache_op list \<Rightarrow> 'l Cache \<Rightarrow> 'l Cache res option" where
  "cache_run L [] c = Some (Ok c)"
| "cache_run L (x # xs) c =
     (case x of
        OpAdd i blob \<Rightarrow>
          (case Cache_Add L i blob c of
             Some (Ok (c', _)) \<Rightarrow> cache_run L xs c'
           | Some (Err e) \<Rightarrow> Some (Err e)
           | Some (Panic m) \<Rightarrow> Some (Panic m)
           | None \<Rightarrow> None)
      | OpGet i \<Rightarrow> cache_run L xs (fst (Cache_Get L i c)))"

lemma cache_run_ok:
  assumes law: "lru_law L ents room"
  shows "cache_inv ents room c \<Longrightarrow> \<exists>c'. cache_run L xs c = Some (Ok c') \<and> cache_inv ents room c' \<and> c_size c' = c_size c \<and>
    set (ents (c_lru c')) \<subseteq> set (ents (c_lru c)) \<union> {(i, b). OpAdd i b \<in> set xs}"
proof (induction xs arbitrary: c)
  case (Cons x xs)
  show ?case
  proof (cases x)
    case (OpAdd i blob)
    obtain c1 old where a: "Cache_Add L i blob c = Some (Ok (c1, old))" "cache_inv ents room c1" "c_size c1 = c_size c"
      "c1 = c \<or> (\<exists>n. ents (c_lru c1) = drop n (ents (c_lru c)) @ [(i, blob)])"
      using Cache_Add_ok [OF law Cons.prems, of i blob] by (auto split: if_splits)
    then have "set (ents (c_lru c1)) \<subseteq> insert (i, blob) (set (ents (c_lru c)))" by (auto dest: in_set_dropD)
    with Cons.IH [OF a(2)] show ?thesis using a(1,3) OpAdd by (auto 0 4)
  next
    case (OpGet i)
    obtain c1 v where g: "Cache_Get L i c = (c1, v)" by fastforce
    note G = Cache_Get_ok [OF law Cons.prems g]
    from Cons.IH [OF G(2)] show ?thesis using G(3,4) g OpGet by auto
  qed
qed auto

text \<open>A list with the newest entry last behaves as the library does.\<close>

definition list_lru :: "(nat \<times> (ID \<times> buffer) list) lru_ops" where
  "list_lru =
     \<lparr>lru_New = (\<lambda>n. if n \<le> 0 then Err (ErrOther ''must provide a positive size'') else Ok (nat n, [])),
      lru_Contains = (\<lambda>l k. k \<in> fst ` set (snd l)),
      lru_Get = (\<lambda>l k. case map_of (snd l) k of None \<Rightarrow> (l, None)
        | Some v \<Rightarrow> ((fst l, filter (\<lambda>e. fst e \<noteq> k) (snd l) @ [(k, v)]), Some v)),
      lru_Add = (\<lambda>l k v. if length (snd l) < fst l then ((fst l, snd l @ [(k, v)]), None)
        else ((fst l, tl (snd l) @ [(k, v)]), Some (hd (snd l)))),
      lru_RemoveOldest = (\<lambda>l. case snd l of [] \<Rightarrow> (l, None) | e # es \<Rightarrow> ((fst l, es), Some e))\<rparr>"

lemma mset_move_last:
  "distinct (map fst es) \<Longrightarrow> (k, v) \<in> set es \<Longrightarrow> add_mset (k, v) (filter_mset (\<lambda>e. fst e \<noteq> k) (mset es)) = mset es"
proof (induction es)
  case (Cons e es)
  show ?case
  proof (cases "fst e = k")
    case True
    then have new: "k \<notin> fst ` set es" using Cons.prems(1) by simp
    then have "e = (k, v)" using Cons.prems(2) by force
    moreover have "\<forall>x \<in># mset es. fst x \<noteq> k" using new by auto
    ultimately show ?thesis by (simp add: filter_mset_eq_conv)
  qed (use Cons in auto)
qed auto

lemma list_lru_law: "lru_law list_lru snd fst"
  unfolding lru_law_def list_lru_def
  by (intro conjI allI impI) (auto simp: mset_move_last split: option.splits list.splits if_splits)

section \<open>Properties\<close>

text \<open>C30: The cache keeps its bound: after any sequence of calls of \<open>Add\<close> and \<open>Get\<close>, none of which panics or runs forever, the blobs with
  their overhead take at most the bytes the cache was made for, and \<open>free\<close> is what is left. \<open>Get\<close> returns only what was added
  under the ID, and a blob that fits and was not cached is returned by \<open>Get\<close> after \<open>Add\<close>.\<close>

theorem cache_bounded:
  assumes "lru_law L ents room" "Cache_New L sz = Ok c0"
  shows "\<exists>c. cache_run L ops c0 = Some (Ok c) \<and> weight (ents (c_lru c)) \<le> sz \<and> c_free c = sz - weight (ents (c_lru c)) \<and>
    (\<forall>i b. snd (Cache_Get L i c) = Some b \<longrightarrow> OpAdd i b \<in> set ops) \<and>
    (\<forall>i b. snd (Cache_Get L i c) = None \<and> int (b_cap b) + overhead \<le> sz \<longrightarrow>
      (\<exists>c' old. Cache_Add L i b c = Some (Ok (c', old)) \<and> snd (Cache_Get L i c') = Some b))"
proof -
  note law = assms(1)
  let ?n = "if sz < 0 then - ((- sz) div overhead) else sz div overhead"
  obtain l where l: "lru_New L ?n = Ok l" "c0 = \<lparr>c_lru = l, c_free = sz, c_size = sz\<rparr>"
    using assms(2) by (auto simp: Cache_New_def split: res.splits)
  have n: "0 < ?n" using lru_lawD(1) [OF law, of ?n] l(1) by fastforce
  then have sz: "0 < sz" by (cases "sz < 0") (auto simp: overhead_def not_less pos_imp_zdiv_nonneg_iff intro: ccontr)
  have "ents l = []" "room l = nat ?n" using lru_lawD(2) [OF law n] l(1) by auto
  then have inv0: "cache_inv ents room c0" using sz n by (simp add: cache_inv_def l(2))
  obtain c where c: "cache_run L ops c0 = Some (Ok c)" "cache_inv ents room c" "c_size c = sz"
    "set (ents (c_lru c)) \<subseteq> {(i, b). OpAdd i b \<in> set ops}"
    using cache_run_ok [OF law inv0, of ops] \<open>ents l = []\<close> by (auto simp: l(2))
  have get: "snd (Cache_Get L i c') = map_of (ents (c_lru c')) i" if "cache_inv ents room c'" for i c'
    using Cache_Get_ok(1) [OF law that, of i "fst (Cache_Get L i c')" "snd (Cache_Get L i c')"] by simp
  have "\<exists>c' old. Cache_Add L i b c = Some (Ok (c', old)) \<and> snd (Cache_Get L i c') = Some b"
    if none: "snd (Cache_Get L i c) = None" and fits: "int (b_cap b) + overhead \<le> sz" for i b
  proof -
    have "i \<notin> fst ` set (ents (c_lru c))" using none get [OF c(2)] by (simp add: map_of_eq_None_iff)
    then obtain c' old k where a: "Cache_Add L i b c = Some (Ok (c', old))" "cache_inv ents room c'" "ents (c_lru c') = drop k (ents (c_lru c)) @ [(i, b)]"
      using Cache_Add_ok [OF law c(2), of i b] fits c(3) by auto
    have "map_of (ents (c_lru c')) i = Some b" using a(2,3) by (intro map_of_is_SomeI) (auto simp: cache_inv_def)
    then show ?thesis using a(1) get [OF a(2)] by auto
  qed
  then show ?thesis using c get [OF c(2)] by (intro exI [of _ c]) (auto simp: cache_inv_def dest: map_of_SomeD)
qed

theorem cache_bounded_witness:
  "weight (snd (c_lru \<lparr>c_lru = (2, [([1], \<lparr>b_bytes = [7], b_cap = 4\<rparr>)]), c_free = 100, c_size = 200\<rparr>)) \<le> 200 \<and>
   cache_run list_lru [OpAdd [1] \<lparr>b_bytes = [7], b_cap = 4\<rparr>] \<lparr>c_lru = (2, []), c_free = 200, c_size = 200\<rparr> =
     Some (Ok \<lparr>c_lru = (2, [([1], \<lparr>b_bytes = [7], b_cap = 4\<rparr>)]), c_free = 100, c_size = 200\<rparr>)"
proof -
  have new: "Cache_New list_lru 200 = Ok \<lparr>c_lru = (2, []), c_free = 200, c_size = 200\<rparr>"
    by (simp add: Cache_New_def list_lru_def overhead_def)
  have "cache_run list_lru [OpAdd [1] \<lparr>b_bytes = [7], b_cap = 4\<rparr>] \<lparr>c_lru = (2, []), c_free = 200, c_size = 200\<rparr> =
     Some (Ok \<lparr>c_lru = (2, [([1], \<lparr>b_bytes = [7], b_cap = 4\<rparr>)]), c_free = 100, c_size = 200\<rparr>)"
    by (simp add: Cache_Add_def list_lru_def overhead_def make_room.simps)
  then show ?thesis using cache_bounded [OF list_lru_law new, of "[OpAdd [1] \<lparr>b_bytes = [7], b_cap = 4\<rparr>]"] by auto
qed

end
