(* ===== verification/Spec2Isabelle.thy ===== *)
theory Spec2Isabelle
  imports Errors Prelude GoSet Ids Blobs Crypto IO Pack IndexMap Index MasterIndex PathFilter Durations Snapshots Policy Backends Trees Walker Repo RepoRuns Keys BackendTools Locks BlobLRU
begin

text \<open>
  A verification development for \<open>rapi\<close>, the Go library that gives access to restic repositories.

  \<^bold>\<open>The program.\<close> A restic repository is a set of encrypted files in a storage backend. Blobs (pieces of file
  contents and directory trees) are named by the SHA-256 hash of their plaintext and collected in pack
  files (\<open>pack/\<close>), each with a header that lists its blobs. Indexes (\<open>repository/index.go\<close>) say in which
  pack a blob is; the master index (\<open>repository/master_index.go\<close>) combines them. Everything is encrypted
  and authenticated with AES-256-CTR and Poly1305-AES (\<open>crypto/\<close>). Snapshots (\<open>restic/snapshot.go\<close>) name
  the root trees; policies (\<open>restic/snapshot_policy.go\<close>) decide which snapshots expire. Patterns
  (\<open>internal/filter/\<close>) select files.

  \<^bold>\<open>Conventions.\<close> A Go function that may return an error or panic returns a \<open>res\<close>: \<open>Ok\<close>, \<open>Err\<close> with an \<open>error\<close>
  (theory \<open>Errors\<close>, from \<open>internal/errors\<close>) or \<open>Panic\<close>; run-time panics of slicing and indexing are
  written out. A method that changes its receiver returns the new one. Machine integers are words
  where the code's width matters (offsets and lengths of blobs, the hash of the index map, nanoseconds
  of a duration). Go maps used as sets are lists without duplicates, in an arbitrary order; sorting is
  \<open>go_sort\<close>, of which only what every sorting algorithm guarantees is used where elements can be equal.
  Locks are not modelled: every locked method is one step.

  \<^bold>\<open>Theories and the code they model.\<close>
  \<^item> \<open>Errors\<close>: error values, \<open>Cause\<close>, \<open>Fatal\<close> (\<open>internal/errors\<close>).
  \<^item> \<open>Prelude\<close>: results, slices, little-endian numbers and hexadecimal text, with the collection
    \<open>res_simps\<close> and the induction principles for loops that may fail.
  \<^item> \<open>GoSet\<close>: sorting and the interface \<open>go_set\<close> of maps used as sets.
  \<^item> \<open>Ids\<close>, \<open>Blobs\<close>: \<open>restic/id.go\<close>, \<open>ids.go\<close>, \<open>idset.go\<close>, \<open>blob.go\<close>, \<open>blob_set.go\<close>; text and JSON
    round trips, the set algebra (through \<open>go_set\<close>).
  \<^item> \<open>Crypto\<close>: \<open>crypto/crypto.go\<close>, \<open>rapi.go\<close>, \<open>kdf.go\<close>. AES, Poly1305, SHA-256 and scrypt are parameters
    (record \<open>prims\<close>) with their documented laws \<open>prims_ok\<close>; the interface \<open>aead_frames\<close> is what packs need.
  \<^item> \<open>IO\<close>: writers and readers with faults chosen by the caller, \<open>internal/hashing/writer.go\<close>; the
    interfaces \<open>io_writer\<close> and \<open>reader_at\<close>.
  \<^item> \<open>Pack\<close>: \<open>pack/pack.go\<close>, writing and listing of pack files.
  \<^item> \<open>IndexMap\<close>: \<open>repository/indexmap.go\<close>, a chained hash table that grows; it refines a multiset of
    entries. The interface \<open>entry_map\<close> is all that \<open>Index\<close> uses of it.
  \<^item> \<open>Index\<close>: \<open>repository/index.go\<close>; storing, looking up, merging, encoding and decoding. The interface
    \<open>blob_index\<close> is what \<open>MasterIndex\<close> relies on.
  \<^item> \<open>MasterIndex\<close>: \<open>repository/master_index.go\<close>, with a step relation for its runs.
  \<^item> \<open>PathFilter\<close>: \<open>internal/filter/filter.go\<close>; \<open>filepath.Match\<close> is a parameter.
  \<^item> \<open>Durations\<close>, \<open>Snapshots\<close>, \<open>Policy\<close>: \<open>restic/duration.go\<close>, \<open>snapshot.go\<close>, \<open>tag_list.go\<close>,
    \<open>snapshot_group.go\<close>, \<open>snapshot_find.go\<close>, \<open>snapshot_policy.go\<close>. The calendar of the time zone, the
    clock and the loading of a snapshot file are parameters.
  \<^item> \<open>Backends\<close>: \<open>restic/file.go\<close>, \<open>rewind_reader.go\<close>, \<open>readerat.go\<close>, \<open>backend_find.go\<close>, \<open>backend/utils.go\<close>, the
    memory and the dry-run backend; the interface \<open>store\<close> is what a backend promises.
  \<^item> \<open>Trees\<close>: \<open>restic/node.go\<close> (comparison), \<open>tree.go\<close>, \<open>hardlinks_index.go\<close>, \<open>tree_stream.go\<close> as a step
    relation for its select loop, and \<open>find.go\<close>; the interface \<open>tree_visitor\<close> is the contract between the
    stream and the functions it is given. Loading a tree is a parameter.
  \<^item> \<open>Walker\<close>: \<open>walker/walker.go\<close>; the recursion is bounded by a depth.
  \<^item> \<open>Repo\<close>: \<open>repository/repository.go\<close> and \<open>packer_manager.go\<close>, the composition of packs, master index, keys and
    backend: saving and loading of blobs and files, packers, flushing, saving of the index. The record \<open>env\<close>
    holds the backend's methods, the random source, the clock, the faults of temporary files and the JSON
    encoder; the interface \<open>repo_env\<close> is a backend that keeps the contract \<open>store\<close>.
  \<^item> \<open>RepoRuns\<close>: \<open>LoadIndex\<close> and \<open>repository/index_parallel.go\<close>, sessions, and the step relation \<open>repo_step\<close> of the
    operations with every outcome; the interface \<open>json_env\<close> adds a decoder that inverts the encoder.
  \<^item> \<open>Keys\<close>: \<open>repository/key.go\<close>, \<open>key_rapi.go\<close>, \<open>restic/config.go\<close>, and \<open>Init\<close> and \<open>SearchKey\<close> of the repository.
  \<^item> \<open>BackendTools\<close>: \<open>backend/layout.go\<close> and the three layouts, \<open>backend/backend_retry.go\<close>, \<open>backend/shell_split.go\<close>.
    \<open>RetryNotify\<close> of the backoff library is a parameter with the law \<open>retry_law\<close>, which bounds neither the number
    of retries nor fixes the error returned.
  \<^item> \<open>Locks\<close>: \<open>restic/lock.go\<close>, \<open>lock_unix.go\<close>; the functions of one process, and the step relation \<open>lock_step\<close> of any
    number of processes on one backend. \<open>newLock_runs\<close> says that \<open>newLock\<close> is a run of steps. The interface \<open>lock_env\<close> is a
    backend that lists and removes files, with a JSON decoder for locks.
  \<^item> \<open>BlobLRU\<close>: \<open>internal/bloblru/cache.go\<close>; the least-recently-used list of the library is a parameter with the law \<open>lru_law\<close>.

  \<^bold>\<open>What is shown.\<close> A repository gives back what was saved: blobs that were saved and flushed without an error
  are loaded, also by a later session that starts from the backend's files; and whatever fails along the way, the
  index never names a blob that cannot be loaded. What fails may still lose blobs that were saved before without an
  error, which is shown too. A new repository is opened with its password. Data that was written is read back: sealed data is opened and nothing else is, packs
  list and hold exactly the blobs that were added, indexes survive encoding and decoding, IDs and
  durations survive printing. A blob is granted for saving at most once, whatever the master index
  does in between; merging final indexes changes no lookup; rebuilding an index drops exactly the
  blacklisted packs. The blobs in use are exactly those reachable from the roots, in whatever order
  trees are loaded. The pack size computed from the index is the size of the file. Reading a pack
  file never panics, whatever the file holds. Pattern matching agrees with its declarative meaning
  for at most one double wildcard and is sound always; pruning by \<open>ChildMatch\<close> loses no match; in a
  list the last matching pattern decides. A policy keeps exactly the snapshots that its rules name, and never more
  than its counts allow. A listing that is retried passes each file to its callback once; a save that is retried stores
  the data, but removes a file that was there before when it fails. The holder of an exclusive lock is the only holder
  of a lock, however the processes interleave, unless a refresh falls between the listing and the loading of another
  process, which breaks this. The cache of blobs keeps its bound.

  \<^bold>\<open>Bounds and termination.\<close> Only \<open>Walk\<close> has a bound, on the depth of the recursion; every depth beyond the rank of
  the root gives the same result if no tree contains itself (\<open>Walk_terminates\<close>). Other loops are structural recursions, folds over the
  list the code ranges over, or functions with a termination proof (the array loop of
  \<open>MergeFinalIndexes\<close>, the expansion of \<open>**\<close>, the parser of durations). The loop of \<open>Cache.Add\<close> that makes room might not
  end; it is a partial function, and \<open>cache_bounded\<close> includes that it returns.

  \<^bold>\<open>Not modelled.\<close> Storage backends, the file system layer, FUSE, archive writers, terminal output,
  self-update and rate limits are calls of the operating system, of services and of libraries, as are
  making nodes from files and restoring them. Repacking, rebuilding an index
  from packs, the archiver, the restorer, the checker, the file cache, the location and configuration parsers are not part of the
  development yet. Concurrency appears only as the order of steps: where workers deliver results in any
  order, the order is an argument.
\<close>

end
